(* ===== verification/Prelude.thy ===== *)
theory Prelude
  imports Main "HOL-Library.Char_ord" "HOL-Library.List_Lexorder" "HOL-Library.Word"
begin

text \<open>
  What every component of the development shares: the C++ integers and strings, the
  \<open>std::map\<close> container with its interface locale, and the collections of lemmas the
  component proofs hand to the simplifier.

  \<^item> \<open>std::string\<close> is \<open>string\<close>; its order (bytes compared as unsigned, shorter
    prefix first) is the one of \<open>List_Lexorder\<close> over \<open>Char_ord\<close>.
  \<^item> \<open>int\<close> and the \<open>int32\<close> of the protocol are \<open>int\<close>; the one place where the code
    can leave the 32-bit range, the conversion of a \<open>size_t\<close> to \<open>int\<close>, is written
    out as \<open>int_of_size\<close>.
  \<^item> \<open>std::map\<close> is an association list sorted by key. Its iteration order is the
    list order, \<open>operator[]\<close> is \<open>smap_emplace\<close> followed by \<open>smap_index\<close>, and
    \<open>smap_ok\<close> is the container's invariant.
\<close>

named_theorems data_simps \<open>effect of an operation on the replicated part of a process state\<close>
named_theorems frame_simps \<open>parts of a state that an operation leaves alone\<close>

subsection \<open>Integers and decimal strings\<close>

text \<open>
  \<open>int_of_size\<close> is the implicit conversion from the 64-bit unsigned \<open>size_t\<close> to the
  32-bit \<open>int\<close>: the value modulo \<open>2 ^ 32\<close>, read as two's complement.
\<close>

definition int_of_size :: "nat \<Rightarrow> int" where
  "int_of_size n = signed_take_bit 31 (int n)"

definition INT_MIN :: int where
  "INT_MIN = - (2 ^ 31)"

lemma int_of_size_small [simp]: "n < 2 ^ 31 \<Longrightarrow> int_of_size n = int n"
  unfolding int_of_size_def by (rule signed_take_bit_int_eq_self) simp_all

text \<open>\<open>std::to_string\<close> of an unsigned number.\<close>

definition digit :: "nat \<Rightarrow> char" where
  "digit n = char_of (48 + n)"

fun to_string :: "nat \<Rightarrow> string" where
  "to_string n = (if n < 10 then [digit n] else to_string (n div 10) @ [digit (n mod 10)])"

declare to_string.simps [simp del]

lemma to_string_not_Nil [simp]: "to_string n \<noteq> []"
  by (subst to_string.simps) simp

lemma digit_range: "d < 10 \<Longrightarrow> of_char (digit d) = 48 + d"
  by (simp add: digit_def)

lemma digit_no_colon: "d < 10 \<Longrightarrow> digit d \<noteq> CHR '':''"
proof
  assume d: "d < 10" and eq: "digit d = CHR '':''"
  have "of_char (digit d) = (58 :: nat)" unfolding eq by simp
  with digit_range [OF d] d show False by simp
qed

lemma digit_inject:
  assumes "d < 10" and "e < 10" and "digit d = digit e"
  shows "d = e"
proof -
  have "48 + d = of_char (digit d)" using assms(1) by (rule digit_range [symmetric])
  also have "\<dots> = of_char (digit e)" by (simp only: assms(3))
  also have "\<dots> = 48 + e" using assms(2) by (rule digit_range)
  finally show ?thesis by (rule add_left_imp_eq)
qed

lemma to_string_no_colon: "CHR '':'' \<notin> set (to_string n)"
proof (induction n rule: to_string.induct)
  case (1 n)
  have "CHR '':'' \<notin> set (to_string (n div 10))" if "\<not> n < 10" using that by (rule 1)
  moreover have "CHR '':'' \<noteq> digit (n mod 10)"
    using digit_no_colon [of "n mod 10"] by auto
  moreover have "CHR '':'' \<noteq> digit n" if "n < 10"
    using digit_no_colon [OF that] by auto
  ultimately show ?case by (subst to_string.simps) auto
qed

lemma to_string_inject: "to_string m = to_string n \<Longrightarrow> m = n"
proof (induction m arbitrary: n rule: to_string.induct)
  case (1 m)
  note eq = "1.prems" [unfolded to_string.simps [of m] to_string.simps [of n]]
  show ?case
  proof (cases "m < 10")
    case True
    with eq have "n < 10" by (simp split: if_splits) (metis to_string_not_Nil)
    with True eq show ?thesis by (simp add: digit_inject)
  next
    case False
    with eq have n: "\<not> n < 10" by (simp split: if_splits)
    from False n eq have "to_string (m div 10) = to_string (n div 10)"
      and d: "digit (m mod 10) = digit (n mod 10)" by simp_all
    then have "m div 10 = n div 10" using False by (intro "1.IH") simp_all
    moreover have "m mod 10 = n mod 10" by (rule digit_inject [OF _ _ d]) simp_all
    ultimately show ?thesis by (metis div_mult_mod_eq)
  qed
qed

lemma count_replicate: "count_list (replicate n x) y = (if x = y then n else 0)"
  by (induction n) auto

end
