(* ===== verification/Std_Map.thy ===== *)
theory Std_Map
  imports Prelude
begin

text \<open>
  The C++ \<open>std::map\<close> (and \<open>std::set\<close>) as the code uses it. A map is an association
  list sorted by key, so iteration in key order is the list order:
  \<^item> \<open>map_of m k\<close> is \<open>find\<close>, \<open>None\<close> being \<open>end()\<close>;
  \<^item> \<open>smap_assign k v m\<close> is \<open>m[k] = v\<close>;
  \<^item> \<open>smap_emplace k v m\<close> is \<open>insert\<close>, which keeps an existing entry, and also the
    insertion of a default by \<open>operator[]\<close>;
  \<^item> \<open>smap_index d m k\<close> is the value \<open>operator[]\<close> then refers to;
  \<^item> \<open>smap_erase k m\<close> is \<open>erase\<close>, \<open>length m\<close> is \<open>size()\<close>.
  The interface is the locale \<open>finite_map\<close>; its client lemmas are proved once there and
  reach the log, the store, the member list and the counters through the interpretation
  \<open>smap\<close>.
\<close>

type_synonym ('k, 'v) smap = "('k \<times> 'v) list"

subsection \<open>The interface\<close>

locale finite_map =
  fixes empty :: 'm
    and find :: "'m \<Rightarrow> 'k \<Rightarrow> 'v option"
    and assign :: "'k \<Rightarrow> 'v \<Rightarrow> 'm \<Rightarrow> 'm"
    and emplace :: "'k \<Rightarrow> 'v \<Rightarrow> 'm \<Rightarrow> 'm"
    and erase :: "'k \<Rightarrow> 'm \<Rightarrow> 'm"
    and keys :: "'m \<Rightarrow> 'k list"
    and ok :: "'m \<Rightarrow> bool"
  assumes find_empty: "find empty k = None"
    and find_assign: "find (assign k v m) k' = (if k' = k then Some v else find m k')"
    and emplace_eq: "emplace k v m = (if find m k = None then assign k v m else m)"
    and find_erase: "find (erase k m) k' = (if k' = k then None else find m k')"
    and set_keys: "set (keys m) = {k. find m k \<noteq> None}"
    and distinct_keys: "ok m \<Longrightarrow> distinct (keys m)"
    and ok_empty: "ok empty"
    and ok_assign: "ok m \<Longrightarrow> ok (assign k v m)"
    and ok_erase: "ok m \<Longrightarrow> ok (erase k m)"
begin

lemma find_emplace:
  "find (emplace k v m) k' = (if k' = k \<and> find m k = None then Some v else find m k')"
  by (simp add: emplace_eq find_assign)

lemma emplace_present: "find m k \<noteq> None \<Longrightarrow> emplace k v m = m"
  by (auto simp: emplace_eq)

lemma ok_emplace: "ok m \<Longrightarrow> ok (emplace k v m)"
  by (simp add: emplace_eq ok_assign)

lemma size_eq_card: "ok m \<Longrightarrow> length (keys m) = card {k. find m k \<noteq> None}"
  by (simp only: set_keys [symmetric] distinct_card [OF distinct_keys])

lemma finite_domain: "finite {k. find m k \<noteq> None}"
  by (simp only: set_keys [symmetric] finite_set)

lemma size_assign:
  assumes "ok m"
  shows "length (keys (assign k v m)) =
    (if find m k = None then Suc (length (keys m)) else length (keys m))"
proof -
  have "{k'. find (assign k v m) k' \<noteq> None} = insert k {k'. find m k' \<noteq> None}"
    by (auto simp: find_assign)
  moreover have "k \<in> {k'. find m k' \<noteq> None} \<longleftrightarrow> find m k \<noteq> None" by simp
  ultimately show ?thesis
    using assms by (simp only: size_eq_card ok_assign card_insert_if finite_domain) simp
qed

lemma size_emplace:
  "ok m \<Longrightarrow> length (keys (emplace k v m)) =
    (if find m k = None then Suc (length (keys m)) else length (keys m))"
  by (simp add: emplace_eq size_assign)

text \<open>Assigning a list of pairs in order: the last assignment of a key is the one read.\<close>

lemma find_fold_assign:
  "find (fold (\<lambda>(k, v). assign k v) kvs m) k =
    (case map_of (rev kvs) k of None \<Rightarrow> find m k | Some v \<Rightarrow> Some v)"
proof (induction kvs arbitrary: m)
  case Nil
  show ?case by simp
next
  case (Cons kv kvs)
  then show ?case
    by (cases kv) (auto simp: find_assign map_add_def split: option.splits)
qed

lemma ok_fold_assign: "ok m \<Longrightarrow> ok (fold (\<lambda>(k, v). assign k v) kvs m)"
  by (induction kvs arbitrary: m) (auto simp: ok_assign)

end

subsection \<open>The container\<close>

fun smap_assign :: "'k :: linorder \<Rightarrow> 'v \<Rightarrow> ('k, 'v) smap \<Rightarrow> ('k, 'v) smap" where
  "smap_assign k v [] = [(k, v)]"
| "smap_assign k v ((k', v') # m) =
     (if k < k' then (k, v) # (k', v') # m
      else if k = k' then (k, v) # m
      else (k', v') # smap_assign k v m)"

definition smap_emplace :: "'k :: linorder \<Rightarrow> 'v \<Rightarrow> ('k, 'v) smap \<Rightarrow> ('k, 'v) smap" where
  "smap_emplace k v m = (case map_of m k of None \<Rightarrow> smap_assign k v m | Some _ \<Rightarrow> m)"

definition smap_index :: "'v \<Rightarrow> ('k, 'v) smap \<Rightarrow> 'k \<Rightarrow> 'v" where
  "smap_index d m k = (case map_of m k of None \<Rightarrow> d | Some v \<Rightarrow> v)"

definition smap_erase :: "'k \<Rightarrow> ('k, 'v) smap \<Rightarrow> ('k, 'v) smap" where
  "smap_erase k m = filter (\<lambda>p. fst p \<noteq> k) m"

definition smap_ok :: "('k :: linorder, 'v) smap \<Rightarrow> bool" where
  "smap_ok m \<longleftrightarrow> sorted_wrt (<) (map fst m)"

lemma map_of_smap_assign:
  "map_of (smap_assign k v m) k' = (if k' = k then Some v else map_of m k')"
  by (induction k v m rule: smap_assign.induct) auto

lemma keys_smap_assign: "fst ` set (smap_assign k v m) = insert k (fst ` set m)"
  by (induction k v m rule: smap_assign.induct) auto

lemma smap_ok_assign: "smap_ok m \<Longrightarrow> smap_ok (smap_assign k v m)"
  unfolding smap_ok_def
  by (induction k v m rule: smap_assign.induct) (auto simp: keys_smap_assign)

lemma map_of_smap_erase:
  "map_of (smap_erase k m) k' = (if k' = k then None else map_of m k')"
  unfolding smap_erase_def by (induction m) auto

lemma smap_ok_erase: "smap_ok m \<Longrightarrow> smap_ok (smap_erase k m)"
  unfolding smap_ok_def smap_erase_def by (induction m) auto

lemma set_keys_smap: "set (map fst m) = {k. map_of m k \<noteq> None}"
  by (auto simp: map_of_eq_None_iff)

interpretation smap: finite_map "[]" map_of smap_assign smap_emplace smap_erase "map fst" smap_ok
proof unfold_locales
  show "map_of (smap_assign k v m) k' = (if k' = k then Some v else map_of m k')"
    for k k' :: 'a and v :: 'b and m by (rule map_of_smap_assign)
  show "smap_emplace k v m = (if map_of m k = None then smap_assign k v m else m)"
    for k :: 'a and v :: 'b and m by (simp add: smap_emplace_def split: option.split)
  show "map_of (smap_erase k m) k' = (if k' = k then None else map_of m k')"
    for k k' :: 'a and m :: "('a, 'b) smap" by (rule map_of_smap_erase)
  show "set (map fst m) = {k. map_of m k \<noteq> None}" for m :: "('a, 'b) smap"
    by (rule set_keys_smap)
  show "smap_ok m \<Longrightarrow> distinct (map fst m)" for m :: "('a, 'b) smap"
    by (simp add: smap_ok_def strict_sorted_iff)
qed (simp_all add: smap_ok_def smap_ok_assign [unfolded smap_ok_def]
      smap_ok_erase [unfolded smap_ok_def])

lemmas smap_simps [simp] =
  smap.find_assign smap.find_erase smap.find_emplace smap.ok_assign smap.ok_emplace
  smap.ok_erase smap.ok_empty

text \<open>Consequences of the sorted representation that the abstract interface does not give.\<close>

lemma smap_index_find [simp]: "map_of m k = Some v \<Longrightarrow> smap_index d m k = v"
  by (simp add: smap_index_def)

lemma smap_index_missing [simp]: "map_of m k = None \<Longrightarrow> smap_index d m k = d"
  by (simp add: smap_index_def)

lemma smap_assign_idem: "smap_assign k v (smap_assign k w m) = smap_assign k v m"
  by (induction k w m rule: smap_assign.induct) auto

lemma smap_assign_same: "smap_ok m \<Longrightarrow> map_of m k = Some v \<Longrightarrow> smap_assign k v m = m"
  unfolding smap_ok_def
  by (induction m) (force split: if_splits dest: map_of_SomeD)+

lemma smap_length_assign:
  "smap_ok m \<Longrightarrow>
    length (smap_assign k v m) = (if map_of m k = None then Suc (length m) else length m)"
  using smap.size_assign [of m k v] by simp

lemma smap_in_iff: "smap_ok m \<Longrightarrow> (k, v) \<in> set m \<longleftrightarrow> map_of m k = Some v"
  by (simp add: smap_ok_def strict_sorted_iff)

text \<open>Two sorted maps with the same finds are the same list.\<close>

lemma smap_extensional:
  assumes "smap_ok m" and "smap_ok m'" and "map_of m = map_of m'"
  shows "m = m'"
proof (rule map_sorted_distinct_set_unique [where f = fst])
  show "inj_on fst (set m \<union> set m')"
    using assms by (auto intro!: inj_onI simp: smap_in_iff)
  show "set m = set m'" using assms by (auto simp: smap_in_iff)
qed (use assms(1,2) in \<open>simp_all add: smap_ok_def strict_sorted_iff\<close>)

end
