(* ===== verification/Messages.thy ===== *)
theory Messages
  imports Std_Map
begin

text \<open>
  The vocabulary of the two gRPC services (\<open>consensus_interface.proto\<close> and
  \<open>database_interface.proto\<close>): operations, requests, responses and log entries, each
  with the default value protobuf gives an unset message, and the \<open>grpc::Status\<close> every
  handler returns. Field names carry a prefix because the messages share names.
\<close>

subsection \<open>Status values\<close>

datatype StatusCode = OK | CANCELLED | UNKNOWN | DEADLINE_EXCEEDED | ABORTED | UNAVAILABLE

datatype Status = Status (error_code: StatusCode) (error_message: string)

definition ok :: "Status \<Rightarrow> bool" where
  "ok s \<longleftrightarrow> error_code s = OK"

definition Status_OK :: Status where
  "Status_OK = Status OK ''''"

lemma ok_Status [simp]: "ok (Status c m) \<longleftrightarrow> c = OK"
  by (simp add: ok_def)

lemma ok_Status_OK [simp]: "ok Status_OK"
  by (simp add: Status_OK_def)

text \<open>The early return of a handler whose client is gone, and what gRPC answers for a
  handler that lets an exception escape.\<close>

definition cancelled_status :: Status where
  "cancelled_status =
     Status CANCELLED ''Deadline exceeded or Client cancelled, abandoning.''"

definition uncaught_exception :: Status where
  "uncaught_exception = Status UNKNOWN ''Unexpected error in RPC handling''"

lemma not_ok_simps [simp]: "\<not> ok cancelled_status" "\<not> ok uncaught_exception"
  by (simp_all add: cancelled_status_def uncaught_exception_def)

subsection \<open>Messages of the consensus service\<close>

datatype Operation = GET | SET | DELETE | SET_LEADER | NOT_SET

record Request =
  req_key :: string
  req_value :: string
  req_pserver_id :: int
  req_aserver_id :: int
  req_round :: int
  req_op :: Operation

record Response =
  resp_value :: string
  resp_pserver_id :: int
  resp_aserver_id :: int
  resp_round :: int
  resp_op :: Operation

record LogEntry =
  p_server_id :: int
  a_server_id :: int
  entry_op :: Operation
  accepted_value :: string

record ElectLeaderRequest =
  elect_key :: string
  elect_value :: string

record StatisticsResponse =
  stats_incount :: "(string, int) smap"
  stats_outcount :: "(string, int) smap"

definition default_Request :: Request where
  "default_Request = \<lparr>req_key = '''', req_value = '''', req_pserver_id = 0,
     req_aserver_id = 0, req_round = 0, req_op = GET\<rparr>"

definition default_Response :: Response where
  "default_Response = \<lparr>resp_value = '''', resp_pserver_id = 0, resp_aserver_id = 0,
     resp_round = 0, resp_op = GET\<rparr>"

definition default_LogEntry :: LogEntry where
  "default_LogEntry =
     \<lparr>p_server_id = 0, a_server_id = 0, entry_op = GET, accepted_value = ''''\<rparr>"

lemmas default_defs = default_Request_def default_Response_def default_LogEntry_def

subsection \<open>Messages of the database service\<close>

record GetRequest =
  get_key :: string

record GetResponse =
  get_error :: int
  get_value :: string

record SetRequest =
  set_key :: string
  set_value :: string

definition default_GetResponse :: GetResponse where
  "default_GetResponse = \<lparr>get_error = 0, get_value = ''''\<rparr>"

end
