(* ===== verification/Consensus_Log.thy ===== *)
theory Consensus_Log
  imports Messages
begin

text \<open>
  The log of a node, \<open>Consensus::pax_log\<close> (declaration.h, app.cc): for each key a map
  from round numbers to log entries. The overloads of \<open>Set_Log\<close> and \<open>Get_Log\<close> become
  one definition each. \<open>operator[]\<close> inserts what it does not find, so the getters that
  use it return the log they leave behind beside the value they read.
\<close>

type_synonym Rounds = "(int, LogEntry) smap"
type_synonym Log = "(string, Rounds) smap"

subsection \<open>Operations\<close>

text \<open>\<open>pax_log[key][round]\<close> as a statement: both levels are inserted when missing.\<close>

definition Set_Log_proposal :: "string \<Rightarrow> int \<Rightarrow> Log \<Rightarrow> Log" where
  "Set_Log_proposal key round log =
     smap_assign key (smap_emplace round default_LogEntry (smap_index [] log key)) log"

text \<open>\<open>pax_log[key][round].set_x(...)\<close>: update the entry the reference denotes.\<close>

definition entry_update :: "string \<Rightarrow> int \<Rightarrow> (LogEntry \<Rightarrow> LogEntry) \<Rightarrow> Log \<Rightarrow> Log" where
  "entry_update key round f log =
     (let m = smap_index [] log key
      in smap_assign key (smap_assign round (f (smap_index default_LogEntry m round)) m) log)"

definition Set_Log_promise :: "string \<Rightarrow> int \<Rightarrow> int \<Rightarrow> Log \<Rightarrow> Log" where
  "Set_Log_promise key round p_server log =
     entry_update key round (\<lambda>e. e\<lparr>p_server_id := p_server\<rparr>) log"

definition Set_Log_accept ::
    "string \<Rightarrow> int \<Rightarrow> int \<Rightarrow> Operation \<Rightarrow> string \<Rightarrow> Log \<Rightarrow> Log" where
  "Set_Log_accept key round a_server op v log =
     (let log = entry_update key round (\<lambda>e. e\<lparr>a_server_id := a_server\<rparr>) log;
          log = entry_update key round (\<lambda>e. e\<lparr>entry_op := op\<rparr>) log
      in entry_update key round (\<lambda>e. e\<lparr>accepted_value := v\<rparr>) log)"

definition Get_Log_all :: "Log \<Rightarrow> Log" where
  "Get_Log_all log = log"

definition Get_Log_key :: "string \<Rightarrow> Log \<Rightarrow> Rounds \<times> Log" where
  "Get_Log_key key log = (smap_index [] log key, smap_emplace key [] log)"

definition Get_Log_round :: "string \<Rightarrow> int \<Rightarrow> Log \<Rightarrow> LogEntry \<times> Log" where
  "Get_Log_round key round log =
     (smap_index default_LogEntry (smap_index [] log key) round,
      Set_Log_proposal key round log)"

text \<open>\<open>Find_Max_Proposal\<close> works on the copy that \<open>Get_Log()\<close> returns.\<close>

fun max_round_above :: "int \<Rightarrow> Rounds \<Rightarrow> int" where
  "max_round_above max_proposal [] = max_proposal"
| "max_round_above max_proposal (entry # es) =
     max_round_above (if fst entry > max_proposal then fst entry else max_proposal) es"

definition Find_Max_Proposal :: "string \<Rightarrow> int \<Rightarrow> Log \<Rightarrow> string \<times> int" where
  "Find_Max_Proposal key round log =
     (let copy = Get_Log_all log;
          max_proposal = max_round_above round (smap_index [] copy key)
      in if max_proposal = round then ('''', 0)
         else (accepted_value
                 (smap_index default_LogEntry (smap_index [] copy key) max_proposal),
               max_proposal))"

subsection \<open>Reading a log as a two-level map\<close>

definition log_find :: "Log \<Rightarrow> string \<Rightarrow> int \<Rightarrow> LogEntry option" where
  "log_find log key round = map_of (smap_index [] log key) round"

definition rounds :: "Log \<Rightarrow> string \<Rightarrow> nat" where
  "rounds log key = length (smap_index [] log key)"

definition log_ok :: "Log \<Rightarrow> bool" where
  "log_ok log \<longleftrightarrow> smap_ok log \<and> (\<forall>(key, m) \<in> set log. smap_ok m)"

lemma smap_index_assign [simp]:
  "smap_index d (smap_assign k v m) k' = (if k' = k then v else smap_index d m k')"
  by (simp add: smap_index_def)

lemma smap_index_emplace_nil [simp]: "smap_index [] (smap_emplace k [] m) = smap_index [] m"
  by (auto simp: smap_index_def split: option.splits)

lemma log_find_proposal [data_simps]:
  "log_find (Set_Log_proposal key round log) key' round' =
    (if key' = key \<and> round' = round \<and> log_find log key round = None
     then Some default_LogEntry else log_find log key' round')"
  by (auto simp: log_find_def Set_Log_proposal_def)

lemma log_find_entry_update [data_simps]:
  "log_find (entry_update key round f log) key' round' =
    (if key' = key \<and> round' = round
     then Some (f (case log_find log key round of None \<Rightarrow> default_LogEntry | Some e \<Rightarrow> e))
     else log_find log key' round')"
  by (auto simp: log_find_def entry_update_def Let_def smap_index_def split: option.splits)

lemma log_find_promise [data_simps]:
  "log_find (Set_Log_promise key round p log) key' round' =
    (if key' = key \<and> round' = round
     then Some ((case log_find log key round of None \<Rightarrow> default_LogEntry | Some e \<Rightarrow> e)
                  \<lparr>p_server_id := p\<rparr>)
     else log_find log key' round')"
  by (simp add: Set_Log_promise_def log_find_entry_update)

lemma log_find_accept [data_simps]:
  "log_find (Set_Log_accept key round a op v log) key' round' =
    (if key' = key \<and> round' = round
     then Some \<lparr>p_server_id =
                   (case log_find log key round of None \<Rightarrow> 0 | Some e \<Rightarrow> p_server_id e),
                a_server_id = a, entry_op = op, accepted_value = v\<rparr>
     else log_find log key' round')"
  by (auto simp: Set_Log_accept_def Let_def log_find_entry_update default_LogEntry_def
      split: option.splits)

lemma Get_Log_round_simps [data_simps]:
  "fst (Get_Log_round key round log) =
     (case log_find log key round of None \<Rightarrow> default_LogEntry | Some e \<Rightarrow> e)"
  "snd (Get_Log_round key round log) = Set_Log_proposal key round log"
  by (auto simp: Get_Log_round_def log_find_def smap_index_def split: option.splits)

lemma log_find_Get_Log_key [data_simps]:
  "log_find (snd (Get_Log_key key log)) = log_find log"
  by (simp add: Get_Log_key_def log_find_def fun_eq_iff)

text \<open>Successive updates of one entry fuse, and an insertion before an update is absorbed.\<close>

lemma entry_update_fuse:
  "entry_update key round f (entry_update key round g log) = entry_update key round (f \<circ> g) log"
  by (simp add: entry_update_def Let_def smap_assign_idem)

lemma Set_Log_accept_eq:
  "Set_Log_accept key round a op v log =
    entry_update key round
      (\<lambda>e. e\<lparr>a_server_id := a, entry_op := op, accepted_value := v\<rparr>) log"
  by (simp add: Set_Log_accept_def Let_def entry_update_fuse comp_def)

lemma Set_Log_proposal_idem [data_simps]:
  "Set_Log_proposal key round (Set_Log_proposal key round log) = Set_Log_proposal key round log"
  by (simp add: Set_Log_proposal_def smap_assign_idem smap.emplace_eq)

lemma Get_Log_round_proposal [data_simps]:
  "Get_Log_round key round (Set_Log_proposal key round log) =
    ((case log_find log key round of None \<Rightarrow> default_LogEntry | Some e \<Rightarrow> e),
     Set_Log_proposal key round log)"
  by (rule prod_eqI) (simp_all add: data_simps split: option.split)

lemma entry_update_proposal:
  "entry_update key round f (Set_Log_proposal key round log) = entry_update key round f log"
  by (cases "map_of (smap_index [] log key) round")
    (simp_all add: entry_update_def Set_Log_proposal_def Let_def smap_assign_idem
      smap.emplace_eq)

lemma accept_proposal [data_simps]:
  "Set_Log_accept key round a op v (Set_Log_proposal key round log) =
    Set_Log_accept key round a op v log"
  by (simp add: Set_Log_accept_eq entry_update_proposal)

lemma accept_accept [data_simps]:
  "Set_Log_accept key round a op v (Set_Log_accept key round a' op' v' log) =
    Set_Log_accept key round a op v log"
  by (simp add: Set_Log_accept_eq entry_update_fuse comp_def)

lemma Get_Log_key_accept [data_simps]:
  "Get_Log_key key (Set_Log_accept key round a op v log) =
    (smap_index [] (Set_Log_accept key round a op v log) key,
     Set_Log_accept key round a op v log)"
  by (simp add: Get_Log_key_def Set_Log_accept_eq entry_update_def Let_def smap.emplace_eq)

subsection \<open>The container invariant and the number of rounds\<close>

lemma log_ok_empty [simp]: "log_ok []"
  by (simp add: log_ok_def)

lemma log_ok_index: "log_ok log \<Longrightarrow> smap_ok (smap_index [] log key)"
  by (auto simp: log_ok_def smap_index_def split: option.splits dest: map_of_SomeD)

lemma log_ok_assign:
  assumes "log_ok log" and "smap_ok m"
  shows "log_ok (smap_assign key m log)"
  using assms by (auto simp: log_ok_def smap_in_iff split: if_splits)

lemma log_ok_proposal: "log_ok log \<Longrightarrow> log_ok (Set_Log_proposal key round log)"
  by (simp add: Set_Log_proposal_def log_ok_assign log_ok_index)

lemma log_ok_entry_update: "log_ok log \<Longrightarrow> log_ok (entry_update key round f log)"
  by (simp add: entry_update_def Let_def log_ok_assign log_ok_index)

lemma log_ok_accept: "log_ok log \<Longrightarrow> log_ok (Set_Log_accept key round a op v log)"
  by (simp add: Set_Log_accept_def Let_def log_ok_entry_update)

lemma log_ok_Get_Log_key: "log_ok log \<Longrightarrow> log_ok (snd (Get_Log_key key log))"
  by (auto simp: Get_Log_key_def smap.emplace_eq log_ok_assign)

lemma rounds_proposal:
  "log_ok log \<Longrightarrow> rounds (Set_Log_proposal key round log) key' =
    (if key' = key \<and> log_find log key round = None then Suc (rounds log key)
     else rounds log key')"
  using smap.size_emplace [OF log_ok_index, of log round default_LogEntry key]
  by (auto simp: rounds_def Set_Log_proposal_def log_find_def)

lemma rounds_entry_update:
  "log_ok log \<Longrightarrow> rounds (entry_update key round f log) key' =
    (if key' = key \<and> log_find log key round = None then Suc (rounds log key)
     else rounds log key')"
  by (auto simp: rounds_def entry_update_def Let_def log_find_def smap_length_assign
      log_ok_index)

lemma rounds_accept:
  "log_ok log \<Longrightarrow> rounds (Set_Log_accept key round a op v log) key' =
    (if key' = key \<and> log_find log key round = None then Suc (rounds log key)
     else rounds log key')"
  by (simp add: Set_Log_accept_def Let_def log_find_entry_update rounds_entry_update
      log_ok_entry_update)

lemma rounds_Get_Log_key [simp]: "rounds (snd (Get_Log_key key log)) = rounds log"
  by (simp add: rounds_def Get_Log_key_def fun_eq_iff)

lemma rounds_empty [simp]: "rounds [] key = 0"
  by (simp add: rounds_def smap_index_def)

lemmas log_ok_ops = log_ok_proposal log_ok_entry_update log_ok_accept log_ok_Get_Log_key

end
