(* ===== verification/Database.thy ===== *)
theory Database
  imports Messages
begin

text \<open>
  The state machine that the log drives, \<open>app::Database\<close> (declaration.h, app.cc): an
  in-memory map from keys to values. \<open>Get_KV\<close> pairs the value with an error code that
  tells a missing key (1) from a stored empty string (0). The mutex of each operation
  protects the single map update the definition makes.
\<close>

type_synonym Store = "(string, string) smap"

definition Get_KV :: "string \<Rightarrow> Store \<Rightarrow> string \<times> int" where
  "Get_KV key kv = (case map_of kv key of None \<Rightarrow> ('''', 1) | Some v \<Rightarrow> (v, 0))"

definition Set_KV :: "string \<Rightarrow> string \<Rightarrow> Store \<Rightarrow> Store" where
  "Set_KV key v kv = smap_assign key v kv"

definition Delete_KV :: "string \<Rightarrow> Store \<Rightarrow> Store" where
  "Delete_KV key kv = smap_erase key kv"

definition Get_DB :: "Store \<Rightarrow> Store" where
  "Get_DB kv = kv"

text \<open>The loop that copies a snapshot into the store, entry by entry.\<close>

definition restore :: "Store \<Rightarrow> Store \<Rightarrow> Store" where
  "restore snapshot kv = fold (\<lambda>(key, v). Set_KV key v) snapshot kv"

subsection \<open>The store implements a map\<close>

text \<open>
  What a client of the store relies on, as an interface: operations over an abstract
  store with the function they denote.
\<close>

locale kv_store =
  fixes abs :: "'s \<Rightarrow> string \<Rightarrow> string option"
    and get :: "string \<Rightarrow> 's \<Rightarrow> string \<times> int"
    and put :: "string \<Rightarrow> string \<Rightarrow> 's \<Rightarrow> 's"
    and del :: "string \<Rightarrow> 's \<Rightarrow> 's"
  assumes get_abs: "get k s = (case abs s k of None \<Rightarrow> ('''', 1) | Some v \<Rightarrow> (v, 0))"
    and put_abs: "abs (put k v s) = (abs s)(k \<mapsto> v)"
    and del_abs: "abs (del k s) = (abs s)(k := None)"
begin

lemma get_put: "get k (put k' v s) = (if k = k' then (v, 0) else get k s)"
  by (simp add: get_abs put_abs)

lemma get_del: "get k (del k' s) = (if k = k' then ('''', 1) else get k s)"
  by (simp add: get_abs del_abs)

lemma get_error: "snd (get k s) \<in> {0, 1}"
  by (simp add: get_abs split: option.split)

lemma get_missing: "snd (get k s) = 1 \<longleftrightarrow> abs s k = None"
  by (simp add: get_abs split: option.split)

lemma put_put: "abs (put k v (put k w s)) = abs (put k v s)"
  by (simp add: put_abs)

lemma put_commute: "k \<noteq> k' \<Longrightarrow> abs (put k v (put k' v' s)) = abs (put k' v' (put k v s))"
  by (simp add: put_abs fun_upd_twist)

lemma put_all: "abs (fold (\<lambda>(k, v). put k v) kvs s) = abs s ++ map_of (rev kvs)"
  by (induction kvs arbitrary: s) (auto simp: put_abs)

end

interpretation kv: kv_store map_of Get_KV Set_KV Delete_KV
  by unfold_locales (auto simp: Get_KV_def Set_KV_def Delete_KV_def)

lemma Set_KV_ok: "smap_ok kv \<Longrightarrow> smap_ok (Set_KV key v kv)"
  by (simp add: Set_KV_def)

lemma restore_ok: "smap_ok kv \<Longrightarrow> smap_ok (restore snapshot kv)"
  unfolding restore_def Set_KV_def by (rule smap.ok_fold_assign)

text \<open>A snapshot is a \<open>std::map\<close>, so no key occurs twice and the reversal vanishes.\<close>

lemma map_of_restore:
  assumes "smap_ok snapshot"
  shows "map_of (restore snapshot kv) = map_of kv ++ map_of snapshot"
proof -
  have "distinct (map fst snapshot)" using assms by (rule smap.distinct_keys)
  then have "map_of (rev snapshot) = map_of snapshot" 
    by (subst map_of_inject_set) (simp_all add: rev_map [symmetric])
  then show ?thesis by (simp add: restore_def kv.put_all)
qed

lemma restore_append: "restore (xs @ ys) kv = restore ys (restore xs kv)"
  by (simp add: restore_def)

end
