(* ===== verification/Process.thy ===== *)
theory Process
  imports Consensus_Log Database
begin

text \<open>
  One process of the cluster: its configuration and addresses (namespace
  \<open>utility::parse\<close>), its call counters (\<open>app::Statistics\<close>), the static members of
  \<open>app::Cluster\<close>, the log and the store, in one record \<open>Process\<close>; and
  \<open>initializeStaticInstance\<close>, which fills the record at start-up.

  \<open>boost::split\<close> and \<open>boost::lexical_cast\<close> are code outside the repository: they are
  the arguments \<open>split\<close> and \<open>cast\<close> of the definitions that call them.
\<close>

subsection \<open>Addresses and configuration\<close>

record Address =
  address :: string
  port :: "16 word"

datatype Mode = NODE | USER

record Flags =
  flag_debug :: bool
  flag_leader :: bool
  flag_local_ubuntu :: bool
  flag_latency :: bool
  flag_election :: bool
  flag_timeout :: int
  flag_failrate :: int

record Config =
  config_path :: string
  ip :: string
  port_database :: "16 word"
  port_consensus :: "16 word"
  database_directory :: string
  cluster :: "string list"
  mode :: Mode
  flag :: Flags

datatype Service = Database_Service | Consensus_Service

definition toString :: "Address \<Rightarrow> string" where
  "toString a = address a @ '':'' @ to_string (unat (port a))"

definition getAddress :: "Service \<Rightarrow> Config \<Rightarrow> Address" where
  "getAddress s c =
     (let p = (case s of Database_Service \<Rightarrow> port_database c
                       | Consensus_Service \<Rightarrow> port_consensus c)
      in \<lparr>address = ip c, port = p\<rparr>)"

datatype exn = Validation_error string | Bad_lexical_cast | Out_of_range

definition make_address ::
    "(string \<Rightarrow> string list) \<Rightarrow> (string \<Rightarrow> 16 word option) \<Rightarrow> string \<Rightarrow> exn + Address" where
  "make_address split cast address_and_port =
     (let tokens = split address_and_port
      in if length tokens \<noteq> 2 then Inl (Validation_error address_and_port)
         else case cast (tokens ! 1) of
                None \<Rightarrow> Inl Bad_lexical_cast
              | Some p \<Rightarrow> Inr \<lparr>address = tokens ! 0, port = p\<rparr>)"

subsection \<open>Call counters\<close>

type_synonym Counters = "(string, int) smap"

definition increment :: "string \<Rightarrow> Counters \<Rightarrow> Counters" where
  "increment s c =
     smap_assign s (case map_of c s of None \<Rightarrow> 1 | Some n \<Rightarrow> n + 1) c"

subsection \<open>The process state\<close>

record Node =
  consensusEndpoint :: string
  databaseEndpoint :: string

record Process =
  config :: Config
  memberList :: "(string, Node) smap"
  currentNode :: Node
  leader :: string
  pax_log :: Log
  kv_store :: Store
  incount :: Counters
  outcount :: Counters

definition debug :: "Process \<Rightarrow> bool" where
  "debug P = flag_debug (flag (config P))"

definition count_in :: "string \<Rightarrow> Process \<Rightarrow> Process" where
  "count_in s P = (if debug P then P\<lparr>incount := increment s (incount P)\<rparr> else P)"

definition count_out :: "string \<Rightarrow> Process \<Rightarrow> Process" where
  "count_out s P = (if debug P then P\<lparr>outcount := increment s (outcount P)\<rparr> else P)"

definition self_address :: "Process \<Rightarrow> string" where
  "self_address P = toString (getAddress Consensus_Service (config P))"

subsection \<open>Start-up\<close>

text \<open>\<open>std::transform\<close> with \<open>make_address\<close>: the first bad address throws.\<close>

fun make_addresses ::
    "(string \<Rightarrow> string list) \<Rightarrow> (string \<Rightarrow> 16 word option) \<Rightarrow> string list \<Rightarrow> exn + Address list" where
  "make_addresses split cast [] = Inr []"
| "make_addresses split cast (s # ss) =
     (case make_address split cast s of
        Inl e \<Rightarrow> Inl e
      | Inr a \<Rightarrow> (case make_addresses split cast ss of
                    Inl e \<Rightarrow> Inl e
                  | Inr l \<Rightarrow> Inr (a # l)))"

text \<open>The member of an address: its database port is assumed 1000 above, and the sum is an
  \<open>int\<close>, so it does not wrap at 16 bits.\<close>

definition member_node :: "Address \<Rightarrow> Node" where
  "member_node a =
     \<lparr>consensusEndpoint = toString a,
      databaseEndpoint = address a @ '':'' @ to_string (unat (port a) + 1000)\<rparr>"

definition insert_members :: "Address list \<Rightarrow> (string, Node) smap" where
  "insert_members l = fold (\<lambda>a. smap_emplace (toString a) (member_node a)) l []"

definition local_address ::
    "(string \<Rightarrow> string list) \<Rightarrow> (string \<Rightarrow> 16 word option) \<Rightarrow> Service \<Rightarrow> Config \<Rightarrow> exn + Address" where
  "local_address split cast s c =
     (if flag_local_ubuntu (flag c)
      then make_address split cast (''127.0.1.1:'' @ to_string (unat (port (getAddress s c))))
      else Inr (getAddress s c))"

definition initializeStaticInstance ::
    "(string \<Rightarrow> string list) \<Rightarrow> (string \<Rightarrow> 16 word option) \<Rightarrow> string list \<Rightarrow> Config \<Rightarrow>
     Process \<Rightarrow> exn + Process" where
  "initializeStaticInstance split cast addressList c P =
     (case make_addresses split cast addressList of
        Inl e \<Rightarrow> Inl e
      | Inr l \<Rightarrow>
          (case local_address split cast Consensus_Service c of
             Inl e \<Rightarrow> Inl e
           | Inr addressConsensus \<Rightarrow>
               (case local_address split cast Database_Service c of
                  Inl e \<Rightarrow> Inl e
                | Inr addressDatabase \<Rightarrow>
                    (let members = insert_members l;
                         P = P\<lparr>config := c, memberList := members\<rparr>;
                         P = (case map_of members (toString addressConsensus) of
                                None \<Rightarrow>
                                  (let node = \<lparr>consensusEndpoint = toString addressConsensus,
                                               databaseEndpoint = toString addressDatabase\<rparr>
                                   in P\<lparr>currentNode := node,
                                         memberList := smap_emplace (toString addressConsensus)
                                                         node members\<rparr>)
                              | Some node \<Rightarrow> P\<lparr>currentNode := node\<rparr>)
                     in Inr (P\<lparr>leader := ''''\<rparr>)))))"

end
