(* ===== verification/Consensus_RPC.thy ===== *)
theory Consensus_RPC
  imports Process
begin

text \<open>
  The handlers of \<open>ConsensusRPC\<close> (rpc.cc) that touch only the process they run in: the
  acceptor (\<open>propose\<close>, \<open>accept\<close>, \<open>success\<close>), \<open>ping\<close>, \<open>get_leader\<close>,
  \<open>db_address_request\<close> and \<open>get_stats\<close>. A handler takes \<open>context->IsCancelled()\<close>, its
  request and the process, and returns the process, the status and the response. Printing
  is left out; the counters of the debug mode are kept.
\<close>

subsection \<open>The handlers\<close>

definition propose :: "bool \<Rightarrow> Request \<Rightarrow> Process \<Rightarrow> Process \<times> Status \<times> Response" where
  "propose cancelled request P =
     (let P = count_in ''ConsensusRPC::propose'' P
      in if cancelled then (P, cancelled_status, default_Response)
         else
           (let key = req_key request;
                round = req_round request;
                p_server = req_pserver_id request;
                P = P\<lparr>pax_log := Set_Log_proposal key round (pax_log P)\<rparr>;
                (entry, log) = Get_Log_round key round (pax_log P);
                P = P\<lparr>pax_log := log\<rparr>
            in if p_server_id entry > p_server
               then (P, Status ABORTED ''Proposal is out of date.'', default_Response)
               else if a_server_id entry > 0
               then (P, Status_OK, default_Response\<lparr>resp_aserver_id := a_server_id entry,
                       resp_op := entry_op entry, resp_value := accepted_value entry\<rparr>)
               else (P, Status_OK, default_Response\<lparr>resp_round := round,
                       resp_pserver_id := p_server\<rparr>)))"

definition accept :: "bool \<Rightarrow> Request \<Rightarrow> Process \<Rightarrow> Process \<times> Status \<times> Response" where
  "accept cancelled request P =
     (let P = count_in ''ConsensusRPC::accept'' P
      in if cancelled then (P, cancelled_status, default_Response)
         else
           (let key = req_key request;
                round = req_round request;
                pserver_id = req_pserver_id request;
                aserver_id = req_aserver_id request;
                op = req_op request;
                v = req_value request;
                (entry, log) = Get_Log_round key round (pax_log P);
                P = P\<lparr>pax_log := log\<rparr>;
                response = default_Response\<lparr>resp_op := op, resp_value := v,
                  resp_pserver_id := pserver_id, resp_aserver_id := aserver_id,
                  resp_round := round\<rparr>;
                P = P\<lparr>pax_log := Set_Log_accept key round pserver_id op v (pax_log P)\<rparr>
            in (P, Status_OK, response)))"

text \<open>The largest key of the round map, starting from \<open>INT_MIN\<close>.\<close>

definition largest_round :: "Rounds \<Rightarrow> int" where
  "largest_round m = foldl (\<lambda>largest entry. max largest (fst entry)) INT_MIN m"

lemma foldl_max_ge:
  "i \<le> foldl (\<lambda>largest entry. max largest (fst entry)) i m \<and>
    (\<forall>x \<in> set m. fst x \<le> foldl (\<lambda>largest entry. max largest (fst entry)) i (m :: Rounds))"
proof (induction m arbitrary: i)
  case Nil
  then show ?case by simp
next
  case (Cons x m)
  from Cons.IH [of "max i (fst x)"] show ?case by auto
qed

lemma largest_round_ge: "(rnd, e) \<in> set m \<Longrightarrow> rnd \<le> largest_round m"
  using foldl_max_ge [of INT_MIN m] by (auto simp: largest_round_def)

definition success :: "bool \<Rightarrow> Request \<Rightarrow> Process \<Rightarrow> Process \<times> Status \<times> unit" where
  "success cancelled request P =
     (let P = count_in ''ConsensusRPC::success'' P
      in if cancelled then (P, cancelled_status, ())
         else
           (let key = req_key request;
                v = req_value request;
                round = req_round request;
                pserver_id = req_pserver_id request;
                op = req_op request;
                P = P\<lparr>pax_log := Set_Log_accept key round pserver_id op v (pax_log P)\<rparr>;
                (m, log) = Get_Log_key key (pax_log P);
                P = P\<lparr>pax_log := log\<rparr>
            in if largest_round m > round
               then (P, Status ABORTED ''Information is outdated.'', ())
               else if key = ''leader''
               then (P\<lparr>leader := v\<rparr>, Status_OK, ())
               else (P\<lparr>kv_store := Set_KV key v (kv_store P)\<rparr>, Status_OK, ())))"

definition ping :: "bool \<Rightarrow> Process \<Rightarrow> Process \<times> Status \<times> unit" where
  "ping cancelled P =
     (let P = count_in ''ConsensusRPC::ping'' P
      in if cancelled then (P, cancelled_status, ()) else (P, Status_OK, ()))"

text \<open>The address is never set, so the response carries the empty string.\<close>

definition db_address_request :: "bool \<Rightarrow> Process \<Rightarrow> Process \<times> Status \<times> string" where
  "db_address_request cancelled P =
     (let P = count_in ''ConsensusRPC::db_address_request'' P
      in if cancelled then (P, cancelled_status, '''') else (P, Status_OK, ''''))"

definition GetLeader :: "Process \<Rightarrow> string" where
  "GetLeader P = leader P"

definition get_leader :: "bool \<Rightarrow> Process \<Rightarrow> Process \<times> Status \<times> string" where
  "get_leader cancelled P =
     (let P = count_in ''ConsensusRPC::get_leader'' P
      in if cancelled then (P, cancelled_status, '''') else (P, Status_OK, GetLeader P))"

definition get_stats :: "bool \<Rightarrow> Process \<Rightarrow> Process \<times> Status \<times> StatisticsResponse" where
  "get_stats cancelled P =
     (let P = count_in ''ConsensusRPC::get_stats'' P
      in if cancelled
         then (P, Status CANCELLED ''Request timed out'',
               \<lparr>stats_incount = [], stats_outcount = []\<rparr>)
         else (P, Status_OK, \<lparr>stats_incount = incount P, stats_outcount = outcount P\<rparr>))"

subsection \<open>The replicated part of a process\<close>

text \<open>
  The handlers act on the log, the store and the leader; the rest of the process is
  configuration, which no handler writes, and counters, which none reads but
  \<open>get_stats\<close>. \<open>Data\<close> is the replicated part, and each acceptor handler implements an
  operation on it.
\<close>

record Data =
  d_log :: Log
  d_kv :: Store
  d_leader :: string

definition data_of :: "Process \<Rightarrow> Data" where
  "data_of P = \<lparr>d_log = pax_log P, d_kv = kv_store P, d_leader = leader P\<rparr>"

definition static_of :: "Process \<Rightarrow> Config \<times> (string, Node) smap \<times> Node" where
  "static_of P = (config P, memberList P, currentNode P)"

definition data_propose :: "Request \<Rightarrow> Data \<Rightarrow> Data" where
  "data_propose r d =
     d\<lparr>d_log := Set_Log_proposal (req_key r) (req_round r) (d_log d)\<rparr>"

definition data_accept :: "Request \<Rightarrow> Data \<Rightarrow> Data" where
  "data_accept r d =
     d\<lparr>d_log := Set_Log_accept (req_key r) (req_round r) (req_pserver_id r) (req_op r)
                  (req_value r) (d_log d)\<rparr>"

definition outdated :: "Request \<Rightarrow> Data \<Rightarrow> bool" where
  "outdated r d \<longleftrightarrow>
     largest_round (smap_index [] (d_log (data_accept r d)) (req_key r)) > req_round r"

definition data_success :: "Request \<Rightarrow> Data \<Rightarrow> Data" where
  "data_success r d =
     (let d' = data_accept r d
      in if outdated r d then d'
         else if req_key r = ''leader'' then d'\<lparr>d_leader := req_value r\<rparr>
         else d'\<lparr>d_kv := Set_KV (req_key r) (req_value r) (d_kv d')\<rparr>)"

definition answer_propose :: "Request \<Rightarrow> Data \<Rightarrow> Status \<times> Response" where
  "answer_propose r d =
     (let entry = (case log_find (d_log d) (req_key r) (req_round r) of
                     None \<Rightarrow> default_LogEntry | Some e \<Rightarrow> e)
      in if p_server_id entry > req_pserver_id r
         then (Status ABORTED ''Proposal is out of date.'', default_Response)
         else if a_server_id entry > 0
         then (Status_OK, default_Response\<lparr>resp_aserver_id := a_server_id entry,
                 resp_op := entry_op entry, resp_value := accepted_value entry\<rparr>)
         else (Status_OK, default_Response\<lparr>resp_round := req_round r,
                 resp_pserver_id := req_pserver_id r\<rparr>))"

definition echo :: "Request \<Rightarrow> Response" where
  "echo r = \<lparr>resp_value = req_value r, resp_pserver_id = req_pserver_id r,
     resp_aserver_id = req_aserver_id r, resp_round = req_round r, resp_op = req_op r\<rparr>"

definition answer_success :: "Request \<Rightarrow> Data \<Rightarrow> Status \<times> unit" where
  "answer_success r d =
     (if outdated r d then Status ABORTED ''Information is outdated.'' else Status_OK, ())"

lemmas data_defs = data_propose_def data_accept_def data_success_def outdated_def
  answer_propose_def answer_success_def echo_def

lemma debug_count [simp]: "debug (count_in s P) = debug P" "debug (count_out s P) = debug P"
  by (simp_all add: count_in_def count_out_def debug_def)

lemma data_of_count [data_simps]:
  "data_of (count_in s P) = data_of P" "data_of (count_out s P) = data_of P"
  by (simp_all add: count_in_def count_out_def data_of_def)

lemma static_of_count [frame_simps]:
  "static_of (count_in s P) = static_of P" "static_of (count_out s P) = static_of P"
  by (simp_all add: count_in_def count_out_def static_of_def)

lemma data_of_sel [simp]:
  "d_log (data_of P) = pax_log P" "d_kv (data_of P) = kv_store P" "d_leader (data_of P) = leader P"
  by (simp_all add: data_of_def)

lemma sel_count [simp]:
  "pax_log (count_in s P) = pax_log P" "pax_log (count_out s P) = pax_log P"
  "kv_store (count_in s P) = kv_store P" "kv_store (count_out s P) = kv_store P"
  "leader (count_in s P) = leader P" "leader (count_out s P) = leader P"
  "config (count_in s P) = config P" "config (count_out s P) = config P"
  "memberList (count_in s P) = memberList P" "memberList (count_out s P) = memberList P"
  "currentNode (count_in s P) = currentNode P" "currentNode (count_out s P) = currentNode P"
  by (simp_all add: count_in_def count_out_def)

subsection \<open>Each handler implements its operation\<close>

lemma propose_cancelled [data_simps]:
  "propose True r P = (count_in ''ConsensusRPC::propose'' P, cancelled_status, default_Response)"
  by (simp add: propose_def)

lemma propose_data [data_simps]:
  "data_of (fst (propose False r P)) = data_propose r (data_of P)"
  "snd (propose False r P) = answer_propose r (data_of P)"
  by (simp_all add: propose_def Let_def data_of_def data_defs Get_Log_round_proposal)

lemma accept_cancelled [data_simps]:
  "accept True r P = (count_in ''ConsensusRPC::accept'' P, cancelled_status, default_Response)"
  by (simp add: accept_def)

lemma accept_data [data_simps]:
  "data_of (fst (accept False r P)) = data_accept r (data_of P)"
  "snd (accept False r P) = (Status_OK, echo r)"
  by (simp_all add: accept_def Let_def data_of_def data_defs Get_Log_round_def accept_proposal
      default_Response_def)

lemma success_cancelled [data_simps]:
  "success True r P = (count_in ''ConsensusRPC::success'' P, cancelled_status, ())"
  by (simp add: success_def)

lemma success_data [data_simps]:
  "data_of (fst (success False r P)) = data_success r (data_of P)"
  "snd (success False r P) = answer_success r (data_of P)"
  by (simp_all add: success_def Let_def data_of_def data_defs Get_Log_key_accept)

lemma ping_data [data_simps]:
  "data_of (fst (ping c P)) = data_of P"
  "snd (ping c P) = (if c then cancelled_status else Status_OK, ())"
  by (simp_all add: ping_def Let_def data_simps)

lemma get_leader_data [data_simps]:
  "data_of (fst (get_leader c P)) = data_of P"
  "snd (get_leader False P) = (Status_OK, leader P)"
  by (simp_all add: get_leader_def GetLeader_def Let_def data_simps)

lemma static_of_pax_log [simp]:
  "static_of (P\<lparr>pax_log := l\<rparr>) = static_of P" "static_of (P\<lparr>kv_store := k\<rparr>) = static_of P"
  "static_of (P\<lparr>leader := s\<rparr>) = static_of P"
  by (simp_all add: static_of_def)

lemma static_of_handlers [frame_simps]:
  "static_of (fst (propose c r P)) = static_of P"
  "static_of (fst (accept c r P)) = static_of P"
  "static_of (fst (success c r P)) = static_of P"
  "static_of (fst (ping c P)) = static_of P"
  "static_of (fst (get_leader c P)) = static_of P"
  by (simp_all add: propose_def accept_def success_def ping_def get_leader_def Let_def
      frame_simps split: prod.split)

end
