(* ===== verification/Transport.thy ===== *)
theory Transport
  imports Consensus_RPC
begin

text \<open>
  Remote calls. The gRPC runtime and the network are not part of the repository: they are
  the argument \<open>Net\<close> of every definition that sends a message. \<open>Net\<close> says which process
  listens at an address and, for each call, what becomes of it: delivered and answered;
  dropped before it reaches the handler; executed with the answer lost; or handed to the
  handler with its context already cancelled. In the last three the client sees a status
  that is not OK and an unset response, which is what gRPC documents. Nothing more is
  assumed of a \<open>Net\<close>; a property that needs a well-behaved one says so in its hypotheses.

  \<open>World\<close> is the state of all processes, numbered by \<open>nat\<close>, and \<open>clock\<close> counts the
  calls sent so far. The wrappers of \<open>ConsensusRPCWrapperCall\<close> (rpc.cc) are the
  \<open>stub_\<close> definitions; the 5 second deadline they set is one cause of the failing fates.
\<close>

datatype fate = Deliver | Drop | Lose | Cancel

record Net =
  fate :: "nat \<Rightarrow> nat \<Rightarrow> fate"
  consensus_route :: "string \<Rightarrow> nat option"
  database_route :: "string \<Rightarrow> nat option"

record World =
  procs :: "nat \<Rightarrow> Process"
  clock :: nat

type_synonym 'r handler = "bool \<Rightarrow> nat \<Rightarrow> World \<Rightarrow> World \<times> Status \<times> 'r"

definition unavailable :: Status where
  "unavailable = Status UNAVAILABLE ''failed to connect to all addresses''"

definition deadline_exceeded :: Status where
  "deadline_exceeded = Status DEADLINE_EXCEEDED ''Deadline Exceeded''"

definition client_cancelled :: Status where
  "client_cancelled = Status CANCELLED ''CANCELLED''"

lemma not_ok_transport [simp]:
  "\<not> ok unavailable" "\<not> ok deadline_exceeded" "\<not> ok client_cancelled"
  by (simp_all add: unavailable_def deadline_exceeded_def client_cancelled_def)

definition update :: "nat \<Rightarrow> (Process \<Rightarrow> Process) \<Rightarrow> World \<Rightarrow> World" where
  "update p f w = w\<lparr>procs := (procs w)(p := f (procs w p))\<rparr>"

definition tick :: "World \<Rightarrow> World" where
  "tick w = w\<lparr>clock := Suc (clock w)\<rparr>"

text \<open>Run a handler that touches only its own process at process \<open>q\<close>.\<close>

definition at_process ::
    "(bool \<Rightarrow> Process \<Rightarrow> Process \<times> Status \<times> 'r) \<Rightarrow> 'r handler" where
  "at_process h cancelled q w =
     (case h cancelled (procs w q) of (P, s, r) \<Rightarrow> (update q (\<lambda>_. P) w, s, r))"

text \<open>One call: the response of a call that did not succeed stays at its default \<open>d\<close>.\<close>

definition rpc_send ::
    "Net \<Rightarrow> (string \<Rightarrow> nat option) \<Rightarrow> string \<Rightarrow> 'r \<Rightarrow> 'r handler \<Rightarrow> World \<Rightarrow>
     World \<times> Status \<times> 'r" where
  "rpc_send N route addr d h w =
     (case route addr of
        None \<Rightarrow> (tick w, unavailable, d)
      | Some q \<Rightarrow>
          (case fate N (clock w) q of
             Drop \<Rightarrow> (tick w, unavailable, d)
           | Lose \<Rightarrow> (fst (h False q (tick w)), deadline_exceeded, d)
           | Cancel \<Rightarrow> (fst (h True q (tick w)), client_cancelled, d)
           | Deliver \<Rightarrow>
               (case h False q (tick w) of
                  (w', s, r) \<Rightarrow> (w', s, if ok s then r else d))))"

subsection \<open>The stubs of the consensus service\<close>

definition stub_ping :: "Net \<Rightarrow> nat \<Rightarrow> Node \<Rightarrow> World \<Rightarrow> World \<times> Status \<times> unit" where
  "stub_ping N p node w =
     rpc_send N (consensus_route N) (consensusEndpoint node) () (at_process ping)
       (update p (count_out ''ConsensusRPCWrapperCall::ping'') w)"

definition stub_propose ::
    "Net \<Rightarrow> nat \<Rightarrow> Request \<Rightarrow> Node \<Rightarrow> World \<Rightarrow> World \<times> Status \<times> Response" where
  "stub_propose N p request node w =
     rpc_send N (consensus_route N) (consensusEndpoint node) default_Response
       (at_process (\<lambda>c. propose c request))
       (update p (count_out ''ConsensusRPCWrapperCall::propose'') w)"

definition stub_accept ::
    "Net \<Rightarrow> nat \<Rightarrow> Request \<Rightarrow> Node \<Rightarrow> World \<Rightarrow> World \<times> Status \<times> Response" where
  "stub_accept N p request node w =
     rpc_send N (consensus_route N) (consensusEndpoint node) default_Response
       (at_process (\<lambda>c. accept c request))
       (update p (count_out ''ConsensusRPCWrapperCall::accept'') w)"

definition stub_success ::
    "Net \<Rightarrow> nat \<Rightarrow> Request \<Rightarrow> Node \<Rightarrow> World \<Rightarrow> World \<times> Status \<times> unit" where
  "stub_success N p request node w =
     rpc_send N (consensus_route N) (consensusEndpoint node) ()
       (at_process (\<lambda>c. success c request))
       (update p (count_out ''ConsensusRPCWrapperCall::success'') w)"

definition stub_get_leader :: "Net \<Rightarrow> nat \<Rightarrow> Node \<Rightarrow> World \<Rightarrow> World \<times> Status \<times> string" where
  "stub_get_leader N p node w =
     rpc_send N (consensus_route N) (consensusEndpoint node) '''' (at_process get_leader)
       (update p (count_out ''ConsensusRPCWrapperCall::get_leader'') w)"

definition stub_db_address_request ::
    "Net \<Rightarrow> nat \<Rightarrow> Node \<Rightarrow> World \<Rightarrow> World \<times> Status \<times> string" where
  "stub_db_address_request N p node w =
     rpc_send N (consensus_route N) (consensusEndpoint node) '''' (at_process db_address_request)
       (update p (count_out ''ConsensusRPCWrapperCall::db_address_request'') w)"

definition stub_get_stats ::
    "Net \<Rightarrow> nat \<Rightarrow> Node \<Rightarrow> World \<Rightarrow> World \<times> Status \<times> StatisticsResponse" where
  "stub_get_stats N p node w =
     rpc_send N (consensus_route N) (consensusEndpoint node)
       \<lparr>stats_incount = [], stats_outcount = []\<rparr> (at_process get_stats)
       (update p (count_out ''ConsensusRPCWrapperCall::get_stats'') w)"

subsection \<open>A loop that calls every node in turn\<close>

fun for_nodes ::
    "(Node \<Rightarrow> 'w \<Rightarrow> 'w \<times> Status \<times> 'r) \<Rightarrow> (Node \<Rightarrow> Status \<times> 'r \<Rightarrow> 'acc \<Rightarrow> 'acc) \<Rightarrow>
     Node list \<Rightarrow> 'acc \<Rightarrow> 'w \<Rightarrow> 'w \<times> 'acc" where
  "for_nodes call body [] acc w = (w, acc)"
| "for_nodes call body (node # nodes) acc w =
     (case call node w of (w', res) \<Rightarrow> for_nodes call body nodes (body node res acc) w')"

end
