(* ===== verification/Service.thy ===== *)
theory Service
  imports Transport
begin

text \<open>
  The interfaces between the proposer and the acceptors it calls. \<open>handler\<close> is what a
  handler of the local kind promises: it implements an operation on the replicated data
  and does nothing when its client is gone. \<open>service\<close> is what a stub promises on any
  network: the operation runs at the called process at most once, and it did run, with the
  answer that came back, when the status is OK. \<open>crash_service\<close> adds what holds when the
  only faults are the crashes of the processes in \<open>D\<close>. The loops over the nodes are
  analysed once, inside these locales, and reach the phases of Paxos through the
  interpretations at the end.
\<close>

abbreviation data :: "World \<Rightarrow> nat \<Rightarrow> Data" where
  "data w q \<equiv> data_of (procs w q)"

abbreviation static :: "World \<Rightarrow> nat \<Rightarrow> Config \<times> (string, Node) smap \<times> Node" where
  "static w q \<equiv> static_of (procs w q)"

lemma procs_update: "procs (update p f w) q = (if q = p then f (procs w p) else procs w q)"
  by (simp add: update_def)

lemma clock_update [simp]: "clock (update p f w) = clock w"
  by (simp add: update_def)

lemma tick_simps [simp]: "procs (tick w) = procs w" "clock (tick w) = Suc (clock w)"
  by (simp_all add: tick_def)

lemma data_count_out [simp]:
  "data (update p (count_out s) w) q = data w q"
  "static (update p (count_out s) w) q = static w q"
  "data (update p (count_in s) w) q = data w q"
  "static (update p (count_in s) w) q = static w q"
  by (simp_all add: procs_update data_simps frame_simps)

subsection \<open>The replies of a loop\<close>

fun replies ::
    "(Node \<Rightarrow> World \<Rightarrow> World \<times> Status \<times> 'r) \<Rightarrow> Node list \<Rightarrow> World \<Rightarrow> (Node \<times> Status \<times> 'r) list"
    where
  "replies call [] w = []"
| "replies call (node # nodes) w =
     (case call node w of (w', res) \<Rightarrow> (node, res) # replies call nodes w')"

fun after :: "(Node \<Rightarrow> World \<Rightarrow> World \<times> Status \<times> 'r) \<Rightarrow> Node list \<Rightarrow> World \<Rightarrow> World" where
  "after call [] w = w"
| "after call (node # nodes) w = after call nodes (fst (call node w))"

lemma for_nodes_eq:
  "for_nodes call body nodes acc w =
    (after call nodes w, fold (\<lambda>(node, res). body node res) (replies call nodes w) acc)"
  by (induction nodes arbitrary: acc w) (auto split: prod.splits)

lemma replies_nodes [simp]: "map fst (replies call nodes w) = nodes"
  by (induction nodes arbitrary: w) (auto split: prod.splits)

lemma length_replies [simp]: "length (replies call nodes w) = length nodes"
  by (induction nodes arbitrary: w) (auto split: prod.splits)

definition ok_replies :: "(Node \<times> Status \<times> 'r) list \<Rightarrow> (Node \<times> Status \<times> 'r) list" where
  "ok_replies rs = filter (\<lambda>(node, s, r). ok s) rs"

lemma ok_replies_node:
  assumes "(node, s, r) \<in> set (ok_replies (replies call nodes w))"
  shows "node \<in> set nodes"
proof -
  have "node \<in> fst ` set (replies call nodes w)" using assms by (force simp: ok_replies_def)
  then show ?thesis using replies_nodes [of call nodes w] by (metis list.set_map)
qed

text \<open>The processes a list of nodes reaches, and the condition that no two nodes share one.\<close>

fun reached :: "(Node \<Rightarrow> nat option) \<Rightarrow> Node list \<Rightarrow> nat list" where
  "reached target [] = []"
| "reached target (node # nodes) =
     (case target node of
        None \<Rightarrow> reached target nodes
      | Some q \<Rightarrow> q # reached target nodes)"

lemma set_reached: "set (reached target nodes) = {q. \<exists>node \<in> set nodes. target node = Some q}"
  by (induction nodes) (auto split: option.splits)

lemma reached_filter_subset: "set (reached target (filter P nodes)) \<subseteq> set (reached target nodes)"
  by (auto simp: set_reached)

lemma distinct_reached_filter:
  "distinct (reached target nodes) \<Longrightarrow> distinct (reached target (filter P nodes))"
  by (induction nodes) (auto simp: set_reached split: option.splits)

lemma fst_rpc_send:
  "fst (rpc_send N route addr d h w) =
    (case route addr of
       None \<Rightarrow> tick w
     | Some q \<Rightarrow>
         (case fate N (clock w) q of
            Drop \<Rightarrow> tick w
          | Cancel \<Rightarrow> fst (h True q (tick w))
          | Lose \<Rightarrow> fst (h False q (tick w))
          | Deliver \<Rightarrow> fst (h False q (tick w))))"
  by (simp add: rpc_send_def case_prod_beta split: option.split fate.split)

subsection \<open>Handlers\<close>

locale handler =
  fixes h :: "bool \<Rightarrow> Process \<Rightarrow> Process \<times> Status \<times> 'r"
    and effect :: "Data \<Rightarrow> Data"
    and answer :: "Data \<Rightarrow> Status \<times> 'r"
  assumes h_data: "data_of (fst (h False P)) = effect (data_of P)"
    and h_answer: "snd (h False P) = answer (data_of P)"
    and h_cancelled: "data_of (fst (h True P)) = data_of P"
    and h_static: "static_of (fst (h c P)) = static_of P"
begin

lemma at_process_simps:
  "data (fst (at_process h False q w)) q' = (if q' = q then effect (data w q) else data w q')"
  "data (fst (at_process h True q w)) q' = data w q'"
  "snd (at_process h False q w) = answer (data w q)"
  by (simp_all add: at_process_def procs_update h_data h_cancelled h_answer case_prod_beta)

lemma at_process_frame:
  "static (fst (at_process h c q w)) q' = static w q'"
  "clock (fst (at_process h c q w)) = clock w"
  by (simp_all add: at_process_def procs_update h_static case_prod_beta)

abbreviation stub :: "Net \<Rightarrow> nat \<Rightarrow> string \<Rightarrow> 'r \<Rightarrow> Node \<Rightarrow> World \<Rightarrow> World \<times> Status \<times> 'r" where
  "stub N p name d node w \<equiv>
     rpc_send N (consensus_route N) (consensusEndpoint node) d (at_process h)
       (update p (count_out name) w)"

lemma stub_static: "static (fst (stub N p name d node w)) q = static w q"
  by (simp add: fst_rpc_send at_process_frame frame_simps split: option.split fate.split)

lemma stub_clock: "clock (fst (stub N p name d node w)) = Suc (clock w)"
  by (simp add: fst_rpc_send at_process_frame split: option.split fate.split)

lemma stub_once:
  "data (fst (stub N p name d node w)) q = data w q \<or>
    consensus_route N (consensusEndpoint node) = Some q \<and>
    data (fst (stub N p name d node w)) q = effect (data w q)"
  by (auto simp: fst_rpc_send at_process_simps data_simps split: option.split fate.split)

lemma stub_ok:
  assumes "stub N p name d node w = (w', s, r)" and "ok s"
  shows "\<exists>q. consensus_route N (consensusEndpoint node) = Some q \<and>
    data w' q = effect (data w q) \<and> answer (data w q) = (s, r)"
proof -
  let ?w = "tick (update p (count_out name) w)"
  from assms obtain q where q: "consensus_route N (consensusEndpoint node) = Some q"
    and res: "at_process h False q ?w = (w', s, r)"
    by (auto simp: rpc_send_def split: option.splits fate.splits prod.splits if_splits)
  have "data w' q = effect (data ?w q)" "answer (data ?w q) = (s, r)"
    using at_process_simps(1,3) [of q ?w] res by (metis fst_conv, metis snd_conv)
  with q show ?thesis by (auto simp: data_simps)
qed

end

subsection \<open>Services on any network\<close>

locale service =
  fixes call :: "Node \<Rightarrow> World \<Rightarrow> World \<times> Status \<times> 'r"
    and target :: "Node \<Rightarrow> nat option"
    and effect :: "Data \<Rightarrow> Data"
    and answer :: "Data \<Rightarrow> Status \<times> 'r"
  assumes call_static: "static (fst (call node w)) q = static w q"
    and call_clock: "clock (fst (call node w)) = Suc (clock w)"
    and call_once: "data (fst (call node w)) q = data w q \<or>
      target node = Some q \<and> data (fst (call node w)) q = effect (data w q)"
    and call_ok: "call node w = (w', s, r) \<Longrightarrow> ok s \<Longrightarrow>
      \<exists>q. target node = Some q \<and> data w' q = effect (data w q) \<and> answer (data w q) = (s, r)"
begin

lemma after_static: "static (after call nodes w) q = static w q"
  by (induction nodes arbitrary: w) (simp_all add: call_static)

lemma after_clock: "clock (after call nodes w) = clock w + length nodes"
  by (induction nodes arbitrary: w) (simp_all add: call_clock)

lemma call_frame: "target node \<noteq> Some q \<Longrightarrow> data (fst (call node w)) q = data w q"
  using call_once [of node w q] by auto

lemma after_frame: "q \<notin> set (reached target nodes) \<Longrightarrow> data (after call nodes w) q = data w q"
  by (induction nodes arbitrary: w) (auto simp: call_frame split: option.splits)

lemma after_invariant:
  assumes "\<And>d. I d \<Longrightarrow> I (effect d)" and "I (data w q)"
  shows "I (data (after call nodes w) q)"
  using assms(2)
proof (induction nodes arbitrary: w)
  case Nil
  then show ?case by simp
next
  case (Cons node nodes)
  have "I (data (fst (call node w)) q)"
    using call_once [of node w q] Cons.prems assms(1) by auto
  then show ?case by (simp add: Cons.IH)
qed

lemma after_once:
  assumes "distinct (reached target nodes)"
  shows "data (after call nodes w) q = data w q \<or>
    q \<in> set (reached target nodes) \<and> data (after call nodes w) q = effect (data w q)"
  using assms
proof (induction nodes arbitrary: w)
  case Nil
  then show ?case by simp
next
  case (Cons node nodes)
  let ?w = "fst (call node w)"
  show ?case
  proof (cases "target node = Some q")
    case True
    with Cons.prems have "data (after call nodes ?w) q = data ?w q"
      by (intro after_frame) simp
    with True call_once [of node w q] show ?thesis by auto
  next
    case False
    from Cons.prems have "distinct (reached target nodes)" by (simp split: option.splits)
    from Cons.IH [OF this, of ?w] call_frame [OF False, of w] show ?thesis
      by (auto split: option.splits)
  qed
qed

lemma ok_reply:
  assumes "distinct (reached target nodes)"
    and "(node, s, r) \<in> set (ok_replies (replies call nodes w))"
  shows "\<exists>q. target node = Some q \<and> data (after call nodes w) q = effect (data w q) \<and>
    answer (data w q) = (s, r)"
  using assms
proof (induction nodes arbitrary: w)
  case Nil
  then show ?case by (simp add: ok_replies_def)
next
  case (Cons n nodes)
  obtain w' s' r' where c: "call n w = (w', s', r')" by (cases "call n w")
  from Cons.prems(2) c consider (head) "(node, s, r) = (n, s', r')" "ok s'"
    | (tail) "(node, s, r) \<in> set (ok_replies (replies call nodes w'))"
    by (auto simp: ok_replies_def split: if_splits)
  then show ?case
  proof cases
    case head
    from call_ok [OF c head(2)] obtain q where q: "target n = Some q"
      "data w' q = effect (data w q)" "answer (data w q) = (s', r')" by blast
    with Cons.prems(1) have "data (after call nodes w') q = data w' q"
      by (intro after_frame) simp
    with q head(1) c show ?thesis by auto
  next
    case tail
    from Cons.prems(1) have d: "distinct (reached target nodes)" by (simp split: option.splits)
    from Cons.IH [OF d tail] obtain q where q: "target node = Some q"
      "data (after call nodes w') q = effect (data w' q)" "answer (data w' q) = (s, r)" by blast
    have "node \<in> set nodes" using ok_replies_node [OF tail] .
    with q(1) have "q \<in> set (reached target nodes)" by (auto simp: set_reached)
    with Cons.prems(1) have "target n \<noteq> Some q" by auto
    then have "data w' q = data w q" using call_frame [of n q w] c by simp
    with q c show ?thesis by auto
  qed
qed

lemma ok_count:
  assumes "distinct (reached target nodes)"
  shows "\<exists>Q \<subseteq> set (reached target nodes).
    card Q = length (ok_replies (replies call nodes w)) \<and>
    (\<forall>q \<in> Q. data (after call nodes w) q = effect (data w q) \<and>
      answer (data w q) \<in> snd ` set (ok_replies (replies call nodes w)))"
  using assms
proof (induction nodes arbitrary: w)
  case Nil
  then show ?case by (simp add: ok_replies_def)
next
  case (Cons n nodes)
  obtain w' s' r' where c: "call n w = (w', s', r')" by (cases "call n w")
  from Cons.prems have d: "distinct (reached target nodes)" by (simp split: option.splits)
  from Cons.IH [OF d, of w'] obtain Q where Q: "Q \<subseteq> set (reached target nodes)"
    "card Q = length (ok_replies (replies call nodes w'))"
    "\<forall>q \<in> Q. data (after call nodes w') q = effect (data w' q) \<and>
      answer (data w' q) \<in> snd ` set (ok_replies (replies call nodes w'))" by blast
  have tl: "data w' q = data w q" if "q \<in> Q" for q
    using that Q(1) Cons.prems call_frame [of n q w] c by (auto split: option.splits)
  show ?case
  proof (cases "ok s'")
    case True
    from call_ok [OF c True] obtain q where q: "target n = Some q"
      "data w' q = effect (data w q)" "answer (data w q) = (s', r')" by blast
    with Cons.prems have fresh: "q \<notin> set (reached target nodes)" by simp
    then have "data (after call nodes w') q = data w' q" by (rule after_frame)
    moreover have "card (insert q Q) = Suc (card Q)"
      using fresh Q(1) by (intro card_insert_disjoint finite_subset [OF Q(1)]) auto
    ultimately show ?thesis
      using q Q tl c True by (intro exI [of _ "insert q Q"]) (auto simp: ok_replies_def)
  next
    case False
    with Q tl c show ?thesis
      by (intro exI [of _ Q]) (auto simp: ok_replies_def split: option.splits)
  qed
qed

lemma ok_count_le:
  "length (ok_replies (replies call nodes w)) \<le> length nodes"
  unfolding ok_replies_def
  using length_filter_le [of _ "replies call nodes w"] by simp

end

subsection \<open>Services when the only faults are crashes\<close>

definition crash_only :: "Net \<Rightarrow> nat set \<Rightarrow> bool" where
  "crash_only N D \<longleftrightarrow> (\<forall>t q. fate N t q = (if q \<in> D then Drop else Deliver))"

definition crash_net :: "Net \<Rightarrow> nat set \<Rightarrow> Net" where
  "crash_net N D = N\<lparr>fate := \<lambda>t q. if q \<in> D then Drop else Deliver\<rparr>"

lemma crash_net_simps [simp]:
  "consensus_route (crash_net N D) = consensus_route N"
  "database_route (crash_net N D) = database_route N"
  "fate (crash_net N D) t q = (if q \<in> D then Drop else Deliver)"
  by (simp_all add: crash_net_def)

lemma crash_only_net: "crash_only (crash_net N D) D"
  by (simp add: crash_only_def)

definition alive :: "(Node \<Rightarrow> nat option) \<Rightarrow> nat set \<Rightarrow> Node \<Rightarrow> bool" where
  "alive target D node = (case target node of None \<Rightarrow> False | Some q \<Rightarrow> q \<notin> D)"

locale crash_service = service +
  fixes D :: "nat set"
  assumes call_live: "target node = Some q \<Longrightarrow> q \<notin> D \<Longrightarrow>
      data (fst (call node w)) q = effect (data w q)"
    and live_answer: "target node = Some q \<Longrightarrow> q \<notin> D \<Longrightarrow> ok (fst (answer (data w q))) \<Longrightarrow>
      snd (call node w) = answer (data w q)"
    and call_dead: "\<not> alive target D node \<Longrightarrow>
      data (fst (call node w)) q = data w q \<and> \<not> ok (fst (snd (call node w)))"
begin

lemma crash_after:
  assumes "distinct (reached target nodes)"
  shows "data (after call nodes w) q =
    (if q \<in> set (reached target nodes) \<and> q \<notin> D then effect (data w q) else data w q)"
  using assms
proof (induction nodes arbitrary: w)
  case Nil
  then show ?case by simp
next
  case (Cons node nodes)
  from Cons.prems have d: "distinct (reached target nodes)" by (simp split: option.splits)
  show ?case
  proof (cases "target node = Some q")
    case True
    with Cons.prems have "q \<notin> set (reached target nodes)" by simp
    with True call_live [of node q w] call_dead [of node w q] show ?thesis
      by (auto simp: after_frame alive_def)
  next
    case False
    with Cons.IH [OF d, of "fst (call node w)"] show ?thesis
      by (auto simp: call_frame split: option.splits)
  qed
qed

lemma crash_unreached: "q \<in> D \<Longrightarrow> data (after call nodes w) q = data w q"
proof (induction nodes arbitrary: w)
  case Nil
  then show ?case by simp
next
  case (Cons node nodes)
  have "data (fst (call node w)) q = data w q"
    using call_once [of node w q] call_dead [of node w q] Cons.prems by (auto simp: alive_def)
  with Cons show ?case by simp
qed

lemma crash_replies:
  assumes "distinct (reached target nodes)" and "ok (fst a)"
    and "\<And>q. q \<in> set (reached target nodes) \<Longrightarrow> q \<notin> D \<Longrightarrow> answer (data w q) = a"
  shows "ok_replies (replies call nodes w) = map (\<lambda>node. (node, a)) (filter (alive target D) nodes)"
  using assms(1,3)
proof (induction nodes arbitrary: w)
  case Nil
  then show ?case by (simp add: ok_replies_def)
next
  case (Cons node nodes)
  obtain w' res where c: "call node w = (w', res)" by (cases "call node w")
  from Cons.prems(1) have d: "distinct (reached target nodes)" by (simp split: option.splits)
  have "answer (data w' q) = a" if q: "q \<in> set (reached target nodes)" "q \<notin> D" for q
  proof -
    from q(1) Cons.prems(1) have "target node \<noteq> Some q" by auto
    then have "data w' q = data w q" using call_frame [of node q w] c by simp
    with Cons.prems(2) [of q] q show ?thesis by (simp split: option.splits)
  qed
  then have IH: "ok_replies (replies call nodes w') =
      map (\<lambda>node. (node, a)) (filter (alive target D) nodes)"
    by (rule Cons.IH [OF d])
  show ?case
  proof (cases "alive target D node")
    case True
    then obtain q where q: "target node = Some q" "q \<notin> D"
      by (auto simp: alive_def split: option.splits)
    with Cons.prems(2) [of q] have "answer (data w q) = a" by simp
    with live_answer [OF q, of w] assms(2) c have "res = a" by simp
    with IH True c assms(2) show ?thesis by (cases a) (simp add: ok_replies_def)
  next
    case False
    with call_dead [of node w] c have "\<not> ok (fst res)" by simp
    with IH False c show ?thesis by (cases res) (simp add: ok_replies_def)
  qed
qed

end

context handler
begin

lemma rpc_service:
  "service (stub N p name d) (\<lambda>node. consensus_route N (consensusEndpoint node)) effect answer"
  by unfold_locales (rule stub_static stub_clock stub_once stub_ok; assumption?)+

lemma rpc_crash_service:
  assumes "crash_only N D"
  shows "crash_service (stub N p name d) (\<lambda>node. consensus_route N (consensusEndpoint node))
    effect answer D"
proof (intro crash_service.intro rpc_service crash_service_axioms.intro)
  fix node :: Node and q w
  assume q: "consensus_route N (consensusEndpoint node) = Some q" "q \<notin> D"
  with assms show "data (fst (stub N p name d node w)) q = effect (data w q)"
    by (simp add: fst_rpc_send crash_only_def at_process_simps data_simps)
  assume "ok (fst (answer (data w q)))"
  then have "ok (fst (snd (at_process h False q (tick (update p (count_out name) w)))))"
    by (simp add: at_process_simps data_simps)
  with q assms have "snd (stub N p name d node w) =
      snd (at_process h False q (tick (update p (count_out name) w)))"
    by (auto simp: rpc_send_def crash_only_def case_prod_beta)
  then show "snd (stub N p name d node w) = answer (data w q)"
    by (simp add: at_process_simps data_simps)
next
  fix node :: Node and q w
  assume "\<not> alive (\<lambda>node. consensus_route N (consensusEndpoint node)) D node"
  with assms show "data (fst (stub N p name d node w)) q = data w q \<and>
      \<not> ok (fst (snd (stub N p name d node w)))"
    by (auto simp: rpc_send_def crash_only_def alive_def data_simps split: option.splits)
qed

end

subsection \<open>The consensus handlers provide these interfaces\<close>

interpretation ping_h: handler ping "\<lambda>d. d" "\<lambda>_. (Status_OK, ())"
  by unfold_locales (simp_all add: data_simps frame_simps)

interpretation propose_h: handler "\<lambda>c. propose c r" "data_propose r" "answer_propose r" for r
  by unfold_locales (simp_all add: data_simps frame_simps)

interpretation accept_h: handler "\<lambda>c. accept c r" "data_accept r" "\<lambda>_. (Status_OK, echo r)" for r
  by unfold_locales (simp_all add: data_simps frame_simps)

interpretation success_h: handler "\<lambda>c. success c r" "data_success r" "answer_success r" for r
  by unfold_locales (simp_all add: data_simps frame_simps)

definition routed :: "Net \<Rightarrow> Node \<Rightarrow> nat option" where
  "routed N node = consensus_route N (consensusEndpoint node)"

interpretation ping_s: service "stub_ping N p" "routed N" "\<lambda>d. d" "\<lambda>_. (Status_OK, ())" for N p
  using ping_h.rpc_service unfolding stub_ping_def [abs_def] routed_def [abs_def] .

interpretation propose_s: service "stub_propose N p r" "routed N" "data_propose r"
  "answer_propose r" for N p r
  using propose_h.rpc_service unfolding stub_propose_def [abs_def] routed_def [abs_def] .

interpretation accept_s: service "stub_accept N p r" "routed N" "data_accept r"
  "\<lambda>_. (Status_OK, echo r)" for N p r
  using accept_h.rpc_service unfolding stub_accept_def [abs_def] routed_def [abs_def] .

interpretation success_s: service "stub_success N p r" "routed N" "data_success r"
  "answer_success r" for N p r
  using success_h.rpc_service unfolding stub_success_def [abs_def] routed_def [abs_def] .

lemma routed_crash_net [simp]: "routed (crash_net N D) = routed N"
  by (simp add: routed_def fun_eq_iff)

interpretation ping_c: crash_service "stub_ping (crash_net N D) p" "routed N" "\<lambda>d. d"
  "\<lambda>_. (Status_OK, ())" D for N D p
  using ping_h.rpc_crash_service [OF crash_only_net [of N D]]
  unfolding stub_ping_def [abs_def] routed_def [abs_def] crash_net_simps .

interpretation propose_c: crash_service "stub_propose (crash_net N D) p r" "routed N"
  "data_propose r" "answer_propose r" D for N D p r
  using propose_h.rpc_crash_service [OF crash_only_net [of N D]]
  unfolding stub_propose_def [abs_def] routed_def [abs_def] crash_net_simps .

interpretation accept_c: crash_service "stub_accept (crash_net N D) p r" "routed N"
  "data_accept r" "\<lambda>_. (Status_OK, echo r)" D for N D p r
  using accept_h.rpc_crash_service [OF crash_only_net [of N D]]
  unfolding stub_accept_def [abs_def] routed_def [abs_def] crash_net_simps .

interpretation success_c: crash_service "stub_success (crash_net N D) p r" "routed N"
  "data_success r" "answer_success r" D for N D p r
  using success_h.rpc_crash_service [OF crash_only_net [of N D]]
  unfolding stub_success_def [abs_def] routed_def [abs_def] crash_net_simps .

end
