(* ===== verification/Quorum.thy ===== *)
theory Quorum
  imports Complex_Main Prelude
begin

text \<open>
  The quorum test of \<open>AttemptConsensus\<close> (app.cc): a phase fails when the number of nodes
  that answered is at most \<open>ceil(num_replicas / 2.0) - 1\<close>. The arithmetic is done in
  \<open>double\<close>, exact for every \<open>int\<close>, so the reals model it. The test is equivalent to
  \<open>2 * num < num_replicas\<close>: half of the cluster is enough, which is a majority, and makes
  two quorums intersect, only when the number of replicas is odd.
\<close>

definition quorum_missed :: "int \<Rightarrow> int \<Rightarrow> bool" where
  "quorum_missed num num_replicas \<longleftrightarrow>
     real_of_int num \<le> of_int \<lceil>real_of_int num_replicas / 2\<rceil> - 1"

lemma quorum_missed_iff [code]: "quorum_missed num n \<longleftrightarrow> 2 * num < n"
proof -
  have "quorum_missed num n \<longleftrightarrow> num < \<lceil>real_of_int n / 2\<rceil>"
    unfolding quorum_missed_def by linarith
  also have "\<dots> \<longleftrightarrow> real_of_int num < real_of_int n / 2" by (rule less_ceiling_iff)
  also have "\<dots> \<longleftrightarrow> 2 * num < n" by linarith
  finally show ?thesis .
qed

definition is_quorum :: "nat set \<Rightarrow> nat set \<Rightarrow> bool" where
  "is_quorum S Q \<longleftrightarrow> finite S \<and> Q \<subseteq> S \<and> \<not> quorum_missed (int (card Q)) (int (card S))"

lemma is_quorum_iff: "is_quorum S Q \<longleftrightarrow> finite S \<and> Q \<subseteq> S \<and> card S \<le> 2 * card Q"
  by (auto simp: is_quorum_def quorum_missed_iff)

definition odd_quorum :: "nat set \<Rightarrow> nat set \<Rightarrow> bool" where
  "odd_quorum S Q \<longleftrightarrow> odd (card S) \<and> is_quorum S Q"

subsection \<open>Quorum systems\<close>

locale quorum_system =
  fixes quorum :: "nat set \<Rightarrow> bool"
  assumes intersect: "quorum Q \<Longrightarrow> quorum R \<Longrightarrow> Q \<inter> R \<noteq> {}"
begin

lemma nonempty: "quorum Q \<Longrightarrow> Q \<noteq> {}"
  using intersect [of Q Q] by auto

text \<open>What two quorums each hold of one function, they hold of the same value.\<close>

lemma agreement:
  assumes "quorum Q" and "quorum R" and "\<forall>q \<in> Q. f q = x" and "\<forall>q \<in> R. f q = y"
  shows "x = y"
  using intersect [OF assms(1,2)] assms(3,4) by auto

end

lemma cards_intersect:
  assumes "finite S" and "Q \<subseteq> S" and "R \<subseteq> S" and "card S < card Q + card R"
  shows "Q \<inter> R \<noteq> {}"
proof
  assume "Q \<inter> R = {}"
  moreover from assms(1-3) have "finite Q" "finite R" by (auto intro: finite_subset)
  ultimately have "card Q + card R = card (Q \<union> R)" by (simp add: card_Un_disjoint)
  also have "\<dots> \<le> card S" using card_mono [of S "Q \<union> R"] assms(1-3) by simp
  finally show False using assms(4) by simp
qed

interpretation odd_cluster: quorum_system "odd_quorum S" for S
proof
  fix Q R assume Q: "odd_quorum S Q" and R: "odd_quorum S R"
  from Q R have "odd (card S)" and "card S \<le> 2 * card Q" and "card S \<le> 2 * card R"
    unfolding odd_quorum_def is_quorum_iff by blast+
  then have "card S < card Q + card R" by presburger
  with Q R show "Q \<inter> R \<noteq> {}"
    unfolding odd_quorum_def is_quorum_iff by (intro cards_intersect) auto
qed

text \<open>With an even number of replicas the test lets two disjoint halves both succeed.\<close>

lemma even_halves:
  assumes "finite S" and "even (card S)"
  obtains Q R where "is_quorum S Q" "is_quorum S R" "Q \<inter> R = {}" "Q \<union> R = S"
proof -
  obtain Q where Q: "Q \<subseteq> S" "card Q = card S div 2"
    using obtain_subset_with_card_n [of "card S div 2" S] by auto
  have "card (S - Q) = card S - card S div 2"
    using Q assms(1) by (simp add: card_Diff_subset finite_subset)
  with Q assms show thesis
    by (intro that [of Q "S - Q"]) (auto simp: is_quorum_iff elim!: evenE)
qed

end
