(* ===== verification/Paxos.thy ===== *)
theory Paxos
  imports Service Quorum
begin

text \<open>
  The proposer: \<open>Consensus::AttemptConsensus\<close> (app.cc), one definition per phase (ping,
  propose, accept, success), composed as the code composes them with its three quorum
  tests; the handler \<open>ConsensusRPC::elect_leader\<close> and the stub \<open>trigger_election\<close> (rpc.cc)
  that run it for an election.
\<close>

subsection \<open>The phases\<close>

definition not_enough :: Status where
  "not_enough = Status ABORTED ''Not enough live servers for quorum.''"

text \<open>Ping every member and keep the nodes that answer.\<close>

definition ping_phase :: "Net \<Rightarrow> nat \<Rightarrow> Node list \<Rightarrow> World \<Rightarrow> World \<times> Node list" where
  "ping_phase N p members w =
     for_nodes (stub_ping N p)
       (\<lambda>node (s, _) live_nodes. if ok s then live_nodes @ [node] else live_nodes)
       members [] w"

definition prepare_request :: "string \<Rightarrow> int \<Rightarrow> string \<Rightarrow> int \<Rightarrow> Request" where
  "prepare_request key rnd v propose_id =
     default_Request\<lparr>req_key := key, req_round := rnd, req_value := v,
       req_pserver_id := propose_id\<rparr>"

text \<open>The counter and the highest accepted proposal among the answers.\<close>

record Promises =
  num_accepted_proposals :: int
  accepted_id :: int
  prior_value :: string
  prior_op :: Operation

definition no_promises :: Promises where
  "no_promises = \<lparr>num_accepted_proposals = 0, accepted_id = 0, prior_value = '''',
     prior_op = NOT_SET\<rparr>"

definition collect_promise :: "Status \<times> Response \<Rightarrow> Promises \<Rightarrow> Promises" where
  "collect_promise res acc =
     (case res of (s, response) \<Rightarrow>
        if ok s then
          (let acc = acc\<lparr>num_accepted_proposals := num_accepted_proposals acc + 1\<rparr>
           in if resp_aserver_id response > accepted_id acc
              then acc\<lparr>accepted_id := resp_aserver_id response,
                       prior_value := resp_value response, prior_op := resp_op response\<rparr>
              else acc)
        else acc)"

definition propose_phase ::
    "Net \<Rightarrow> nat \<Rightarrow> Request \<Rightarrow> Node list \<Rightarrow> World \<Rightarrow> World \<times> Promises" where
  "propose_phase N p request live_nodes w =
     for_nodes (stub_propose N p request) (\<lambda>node res acc. collect_promise res acc)
       live_nodes no_promises w"

definition accept_request :: "Request \<Rightarrow> int \<Rightarrow> int \<Rightarrow> Promises \<Rightarrow> Request" where
  "accept_request r rnd propose_id acc =
     (let request = default_Request\<lparr>req_key := req_key r, req_round := rnd,
                      req_pserver_id := propose_id\<rparr>
      in if accepted_id acc > 0
         then request\<lparr>req_op := prior_op acc, req_value := prior_value acc,
                      req_aserver_id := accepted_id acc\<rparr>
         else request\<lparr>req_op := req_op r, req_value := req_value r\<rparr>)"

definition accept_phase ::
    "Net \<Rightarrow> nat \<Rightarrow> Request \<Rightarrow> Node list \<Rightarrow> World \<Rightarrow> World \<times> int \<times> Response" where
  "accept_phase N p request live_nodes w =
     for_nodes (stub_accept N p request)
       (\<lambda>node (s, response) (num, acceptance).
          if ok s then (num + 1, response) else (num, acceptance))
       live_nodes (0, default_Response) w"

definition success_request :: "string \<Rightarrow> Response \<Rightarrow> Request" where
  "success_request key acceptance =
     \<lparr>req_key = key, req_value = resp_value acceptance,
      req_pserver_id = resp_pserver_id acceptance, req_aserver_id = resp_aserver_id acceptance,
      req_round = resp_round acceptance, req_op = resp_op acceptance\<rparr>"

definition success_phase :: "Net \<Rightarrow> nat \<Rightarrow> Request \<Rightarrow> Node list \<Rightarrow> World \<Rightarrow> World" where
  "success_phase N p request members w =
     fst (for_nodes (stub_success N p request) (\<lambda>node res u. u) members () w)"

subsection \<open>The whole attempt\<close>

definition AttemptConsensus ::
    "Net \<Rightarrow> nat \<Rightarrow> Request \<Rightarrow> World \<Rightarrow> World \<times> Status \<times> Response" where
  "AttemptConsensus N p r w =
     (let members = map snd (memberList (procs w p));
          num_replicas = int_of_size (length members);
          rnd = int_of_size
                    (length (smap_index [] (Get_Log_all (pax_log (procs w p))) (req_key r)));
          propose_id = 1;
          (w, live_nodes) = ping_phase N p members w
      in if quorum_missed (int_of_size (length live_nodes)) num_replicas
         then (w, not_enough, default_Response)
         else
           (let (w, promises) =
                  propose_phase N p (prepare_request (req_key r) rnd (req_value r) propose_id)
                    live_nodes w
            in if quorum_missed (num_accepted_proposals promises) num_replicas
               then (w, not_enough, default_Response)
               else
                 (let (w, num_final, acceptance) =
                        accept_phase N p (accept_request r rnd propose_id promises)
                          live_nodes w
                  in if quorum_missed num_final num_replicas
                     then (w, not_enough, default_Response)
                     else (success_phase N p (success_request (req_key r) acceptance) members w,
                           Status_OK, acceptance))))"

definition elect_leader :: "Net \<Rightarrow> ElectLeaderRequest \<Rightarrow> unit handler" where
  "elect_leader N request cancelled q w =
     (let w = update q (count_in ''ConsensusRPC::elect_leader'') w
      in if cancelled then (w, Status CANCELLED ''Request timed out'', ())
         else
           (let r = default_Request\<lparr>req_value := elect_value request,
                      req_key := elect_key request, req_op := SET_LEADER\<rparr>
            in case AttemptConsensus N q r w of
                 (w, s, response) \<Rightarrow>
                   (if ok s then update q (\<lambda>P. P\<lparr>leader := resp_value response\<rparr>) w else w,
                    s, ())))"

text \<open>A process always calls this stub on its own node, to be elected itself.\<close>

definition stub_trigger_election :: "Net \<Rightarrow> nat \<Rightarrow> Node \<Rightarrow> World \<Rightarrow> World \<times> Status \<times> unit" where
  "stub_trigger_election N p node w =
     (let w = update p (count_out ''ConsensusRPCWrapperCall::trigger_election'') w;
          request = \<lparr>elect_key = ''leader'', elect_value = self_address (procs w p)\<rparr>
      in rpc_send N (consensus_route N) (consensusEndpoint node) () (elect_leader N request) w)"

end
