(* ===== verification/Paxos_Safety.thy ===== *)
theory Paxos_Safety
  imports Paxos
begin

text \<open>
  What one attempt guarantees on an arbitrary network: how the phases act on the
  replicated data, that a failed attempt changes no store and no leader, that a
  successful one leaves its value accepted at a quorum, where the value comes from, and
  how many messages are sent.
\<close>

subsection \<open>The phases in terms of replies\<close>

lemma ping_phase_eq:
  "ping_phase N p members w =
    (after (stub_ping N p) members w,
     map fst (ok_replies (replies (stub_ping N p) members w)))"
proof -
  have "fold (\<lambda>(node, res). (\<lambda>(s, _ :: unit) live. if ok s then live @ [node] else live) res) rs acc
      = acc @ map fst (ok_replies rs)" for rs acc
    by (induction rs arbitrary: acc) (auto simp: ok_replies_def)
  from this [of "replies (stub_ping N p) members w" "[]"] show ?thesis
    by (simp add: ping_phase_def for_nodes_eq)
qed

lemma num_promises:
  "num_accepted_proposals (fold (\<lambda>(node, res). collect_promise res) rs acc) =
    num_accepted_proposals acc + int (length (ok_replies rs))"
  by (induction rs arbitrary: acc)
    (auto simp: ok_replies_def collect_promise_def Let_def split: prod.split)

lemma propose_phase_eq:
  "propose_phase N p r live w =
    (after (stub_propose N p r) live w,
     fold (\<lambda>(node, res). collect_promise res) (replies (stub_propose N p r) live w) no_promises)"
  by (simp add: propose_phase_def for_nodes_eq)

lemma accept_phase_eq:
  "accept_phase N p r live w =
    (after (stub_accept N p r) live w,
     int (length (ok_replies (replies (stub_accept N p r) live w))),
     last (default_Response # map (\<lambda>(_, _, response). response)
                                (ok_replies (replies (stub_accept N p r) live w))))"
proof -
  have "fold (\<lambda>(node, res). (\<lambda>(s, response) (num, acceptance).
            if ok s then (num + 1, response) else (num, acceptance)) res) rs (n, a) =
      (n + int (length (ok_replies rs)),
       last (a # map (\<lambda>(_, _, response). response) (ok_replies rs)))"
    for rs :: "(Node \<times> Status \<times> Response) list" and n :: int and a
    by (induction rs arbitrary: n a) (auto simp: ok_replies_def)
  then show ?thesis by (simp add: accept_phase_def for_nodes_eq)
qed

lemma success_phase_eq: "success_phase N p r members w = after (stub_success N p r) members w"
  by (simp add: success_phase_def for_nodes_eq)

text \<open>Every acceptance that reached the proposer repeats the request.\<close>

lemma accept_reply_echo:
  assumes "(node, s, response) \<in> set (ok_replies (replies (stub_accept N p r) live w))"
  shows "response = echo r"
  using assms
proof (induction live arbitrary: w)
  case Nil
  then show ?case by (simp add: ok_replies_def)
next
  case (Cons n live)
  obtain w' s' r' where c: "stub_accept N p r n w = (w', s', r')"
    by (cases "stub_accept N p r n w")
  show ?case
  proof (cases "ok s' \<and> (node, s, response) = (n, s', r')")
    case True
    with accept_s.call_ok [OF c] show ?thesis by auto
  next
    case False
    with Cons.prems c have "(node, s, response) \<in> set (ok_replies (replies (stub_accept N p r) live w'))"
      by (auto simp: ok_replies_def split: if_splits)
    then show ?thesis by (rule Cons.IH)
  qed
qed

lemma acceptance_echo:
  assumes "accept_phase N p r live w = (w', num, acceptance)" and "num \<noteq> 0"
  shows "acceptance = echo r"
proof -
  let ?rs = "ok_replies (replies (stub_accept N p r) live w)"
  from assms have acc: "acceptance = last (map (\<lambda>(_, _, response). response) ?rs)"
    and ne: "?rs \<noteq> []"
    by (auto simp: accept_phase_eq)
  from ne have "last (map (\<lambda>(_, _, response). response) ?rs) \<in>
      set (map (\<lambda>(_, _, response). response) ?rs)"
    by (intro last_in_set) simp
  with acc show ?thesis by (auto dest: accept_reply_echo)
qed

lemma num_no_promises [simp]: "num_accepted_proposals no_promises = 0"
  by (simp add: no_promises_def)

lemma success_request_echo [simp]:
  "success_request (req_key r) (echo r) = r"
  by (simp add: success_request_def echo_def)

lemma accept_request_simps [simp]:
  "req_key (accept_request r rnd i acc) = req_key r"
  "req_round (accept_request r rnd i acc) = rnd"
  "req_pserver_id (accept_request r rnd i acc) = i"
  by (simp_all add: accept_request_def Let_def)

lemma prepare_request_simps [simp]:
  "req_key (prepare_request key rnd v i) = key"
  "req_round (prepare_request key rnd v i) = rnd"
  "req_pserver_id (prepare_request key rnd v i) = i"
  "req_value (prepare_request key rnd v i) = v"
  by (simp_all add: prepare_request_def)

subsection \<open>The four ways an attempt ends\<close>

definition member_nodes :: "World \<Rightarrow> nat \<Rightarrow> Node list" where
  "member_nodes w p = map snd (memberList (procs w p))"

definition proposal_round :: "World \<Rightarrow> nat \<Rightarrow> string \<Rightarrow> int" where
  "proposal_round w p key = int_of_size (rounds (pax_log (procs w p)) key)"

lemma attempt_cases:
  assumes "AttemptConsensus N p r w = (w', s, response)"
    and "member_nodes w p \<noteq> []" and "length (member_nodes w p) < 2 ^ 31"
  obtains
    (ping) live w1 where
      "w1 = after (stub_ping N p) (member_nodes w p) w"
      "live = map fst (ok_replies (replies (stub_ping N p) (member_nodes w p) w))"
      "2 * length live < length (member_nodes w p)"
      "w' = w1" "s = not_enough" "response = default_Response"
  | (propose) live w1 prep w2 where
      "w1 = after (stub_ping N p) (member_nodes w p) w"
      "live = map fst (ok_replies (replies (stub_ping N p) (member_nodes w p) w))"
      "prep = prepare_request (req_key r) (proposal_round w p (req_key r)) (req_value r) 1"
      "w2 = after (stub_propose N p prep) live w1"
      "w' = w2" "s = not_enough" "response = default_Response"
      "2 * length (ok_replies (replies (stub_propose N p prep) live w1)) < length (member_nodes w p)"
      "length (member_nodes w p) \<le> 2 * length live"
  | (accept) live w1 prep w2 pr areq w3 where
      "w1 = after (stub_ping N p) (member_nodes w p) w"
      "live = map fst (ok_replies (replies (stub_ping N p) (member_nodes w p) w))"
      "prep = prepare_request (req_key r) (proposal_round w p (req_key r)) (req_value r) 1"
      "w2 = after (stub_propose N p prep) live w1"
      "length (member_nodes w p) \<le> 2 * length (ok_replies (replies (stub_propose N p prep) live w1))"
      "pr = fold (\<lambda>(node, res). collect_promise res) (replies (stub_propose N p prep) live w1) no_promises"
      "areq = accept_request r (proposal_round w p (req_key r)) 1 pr"
      "w3 = after (stub_accept N p areq) live w2"
      "w' = w3" "s = not_enough" "response = default_Response"
      "2 * length (ok_replies (replies (stub_accept N p areq) live w2)) < length (member_nodes w p)"
  | (commit) live w1 prep w2 pr areq w3 where
      "w1 = after (stub_ping N p) (member_nodes w p) w"
      "live = map fst (ok_replies (replies (stub_ping N p) (member_nodes w p) w))"
      "prep = prepare_request (req_key r) (proposal_round w p (req_key r)) (req_value r) 1"
      "w2 = after (stub_propose N p prep) live w1"
      "length (member_nodes w p) \<le> 2 * length (ok_replies (replies (stub_propose N p prep) live w1))"
      "pr = fold (\<lambda>(node, res). collect_promise res) (replies (stub_propose N p prep) live w1) no_promises"
      "areq = accept_request r (proposal_round w p (req_key r)) 1 pr"
      "w3 = after (stub_accept N p areq) live w2"
      "length (member_nodes w p) \<le> 2 * length (ok_replies (replies (stub_accept N p areq) live w2))"
      "w' = after (stub_success N p areq) (member_nodes w p) w3"
      "s = Status_OK" "response = echo areq"
proof -
  define ms where "ms = member_nodes w p"
  define rnd where "rnd = proposal_round w p (req_key r)"
  define live where "live = map fst (ok_replies (replies (stub_ping N p) ms w))"
  define w1 where "w1 = after (stub_ping N p) ms w"
  define prep where "prep = prepare_request (req_key r) rnd (req_value r) 1"
  define rs where "rs = replies (stub_propose N p prep) live w1"
  define w2 where "w2 = after (stub_propose N p prep) live w1"
  define pr where "pr = fold (\<lambda>(node, res). collect_promise res) rs no_promises"
  define areq where "areq = accept_request r rnd 1 pr"
  define w3 where "w3 = after (stub_accept N p areq) live w2"
  define oks where "oks = ok_replies (replies (stub_accept N p areq) live w2)"
  note defs = live_def w1_def prep_def rs_def w2_def pr_def areq_def w3_def oks_def
  have "length live \<le> length ms" unfolding live_def using ping_s.ok_count_le [of N p ms w] by simp
  with assms(3) have small: "length live < 2 ^ 31" "length ms < 2 ^ 31"
    unfolding ms_def by linarith+
  have promises: "num_accepted_proposals pr = int (length (ok_replies rs))"
    unfolding pr_def by (simp add: num_promises)
  have echo_areq: "success_request (req_key r) (echo areq) = areq"
    using success_request_echo [of areq] by (simp add: areq_def)
  obtain acceptance where acc: "accept_phase N p areq live w2 = (w3, int (length oks), acceptance)"
    by (simp add: accept_phase_eq w3_def oks_def)
  have phases: "ping_phase N p ms w = (w1, live)" "propose_phase N p prep live w1 = (w2, pr)"
    by (simp_all add: ping_phase_eq propose_phase_eq defs)
  have eq: "AttemptConsensus N p r w =
     (if 2 * length live < length ms then (w1, not_enough, default_Response)
      else if 2 * length (ok_replies rs) < length ms then (w2, not_enough, default_Response)
      else if 2 * length oks < length ms then (w3, not_enough, default_Response)
      else (after (stub_success N p (success_request (req_key r) acceptance)) ms w3,
            Status_OK, acceptance))"
    using small promises
    by (simp add: AttemptConsensus_def Let_def Get_Log_all_def member_nodes_def [symmetric]
        rounds_def [symmetric] proposal_round_def [symmetric] success_phase_eq quorum_missed_iff
        ms_def [symmetric] rnd_def [symmetric] prep_def [symmetric] areq_def [symmetric]
        phases acc)
  consider (a) "2 * length live < length ms"
    | (b) "\<not> 2 * length live < length ms" "2 * length (ok_replies rs) < length ms"
    | (c) "\<not> 2 * length live < length ms" "length ms \<le> 2 * length (ok_replies rs)"
        "2 * length oks < length ms"
    | (d) "\<not> 2 * length live < length ms" "length ms \<le> 2 * length (ok_replies rs)"
        "length ms \<le> 2 * length oks"
    by linarith
  then show thesis
  proof cases
    case a
    with assms(1) eq show thesis by (intro ping [of w1 live]) (simp_all add: defs ms_def)
  next
    case b
    with assms(1) eq have "w' = w2" "s = not_enough" "response = default_Response" by simp_all
    with b show thesis
      by (intro propose [of w1 live prep w2]) (simp_all add: defs ms_def rnd_def)
  next
    case c
    with assms(1) eq have "w' = w3" "s = not_enough" "response = default_Response" by simp_all
    with c(2,3) show thesis
      by (intro accept [of w1 live prep w2 pr areq w3]) (simp_all add: defs ms_def rnd_def)
  next
    case d
    with assms(2) have "length oks \<noteq> 0" by (auto simp: ms_def)
    with acc have "acceptance = echo areq" by (intro acceptance_echo [OF acc]) simp
    with d assms(1) eq echo_areq have "w' = after (stub_success N p areq) ms w3" "s = Status_OK"
      "response = echo areq" by simp_all
    with d(2,3) show thesis
      by (intro commit [of w1 live prep w2 pr areq w3]) (simp_all add: defs ms_def rnd_def)
  qed
qed

subsection \<open>What the promises say\<close>

lemma collect_promise_cases:
  "accepted_id (collect_promise res acc) = accepted_id acc \<and>
     prior_value (collect_promise res acc) = prior_value acc \<and>
     prior_op (collect_promise res acc) = prior_op acc \<or>
   ok (fst res) \<and> accepted_id (collect_promise res acc) = resp_aserver_id (snd res) \<and>
     prior_value (collect_promise res acc) = resp_value (snd res) \<and>
     prior_op (collect_promise res acc) = resp_op (snd res)"
  by (auto simp: collect_promise_def Let_def split: prod.split)

lemma promises_from_reply:
  fixes acc rs
  defines "acc' \<equiv> fold (\<lambda>(node, res). collect_promise res) rs acc"
  shows "accepted_id acc' = accepted_id acc \<and> prior_value acc' = prior_value acc \<and>
      prior_op acc' = prior_op acc \<or>
    (\<exists>(node, s, response) \<in> set (ok_replies rs). accepted_id acc' = resp_aserver_id response \<and>
      prior_value acc' = resp_value response \<and> prior_op acc' = resp_op response)"
  unfolding acc'_def
proof (induction rs arbitrary: acc)
  case Nil
  show ?case by simp
next
  case (Cons x rs)
  obtain node s response where x: "x = (node, s, response)" by (cases x)
  from Cons.IH [of "collect_promise (s, response) acc"]
    collect_promise_cases [of "(s, response)" acc]
  show ?case by (auto simp: x ok_replies_def)
qed

lemma accepted_id_mono: "accepted_id acc \<le> accepted_id (collect_promise res acc)"
  by (auto simp: collect_promise_def Let_def split: prod.split)

lemma accepted_id_fold_mono:
  "accepted_id acc \<le> accepted_id (fold (\<lambda>(node, res). collect_promise res) rs acc)"
proof (induction rs arbitrary: acc)
  case (Cons x rs)
  have "accepted_id acc \<le> accepted_id (collect_promise (snd x) acc)" by (rule accepted_id_mono)
  also have "\<dots> \<le> accepted_id (fold (\<lambda>(node, res). collect_promise res) rs
      (collect_promise (snd x) acc))" by (rule Cons.IH)
  finally show ?case by (cases x) simp
qed simp

lemma accepted_id_upper:
  "(node, s, response) \<in> set (ok_replies rs) \<Longrightarrow>
    resp_aserver_id response \<le> accepted_id (fold (\<lambda>(node, res). collect_promise res) rs acc)"
proof (induction rs arbitrary: acc)
  case (Cons x rs)
  show ?case
  proof (cases "x = (node, s, response) \<and> ok s")
    case True
    then have "resp_aserver_id response \<le> accepted_id (collect_promise (s, response) acc)"
      by (simp add: collect_promise_def Let_def)
    also have "\<dots> \<le> accepted_id (fold (\<lambda>(node, res). collect_promise res) rs
        (collect_promise (s, response) acc))" by (rule accepted_id_fold_mono)
    finally show ?thesis using True by simp
  next
    case False
    with Cons.prems have "(node, s, response) \<in> set (ok_replies rs)"
      by (auto simp: ok_replies_def split: if_splits)
    then show ?thesis using Cons.IH by (cases x) simp
  qed
qed (simp add: ok_replies_def)

text \<open>The nodes that answer are a sublist of those asked.\<close>

lemma distinct_reached_replies:
  "distinct (reached t (map fst rs)) \<Longrightarrow> distinct (reached t (map fst (ok_replies rs)))"
  by (induction rs) (auto simp: ok_replies_def set_reached split: option.splits)

lemma set_live: "set (map fst (ok_replies (replies call nodes w))) \<subseteq> set nodes"
  by (auto dest: ok_replies_node)

lemma reached_mono: "set xs \<subseteq> set ys \<Longrightarrow> set (reached t xs) \<subseteq> set (reached t ys)"
  by (auto simp: set_reached)

subsection \<open>Safety of one attempt\<close>

definition cluster_ok :: "World \<Rightarrow> nat \<Rightarrow> bool" where
  "cluster_ok w p \<longleftrightarrow> member_nodes w p \<noteq> [] \<and> length (member_nodes w p) < 2 ^ 31"

definition member_pids :: "Net \<Rightarrow> World \<Rightarrow> nat \<Rightarrow> nat list" where
  "member_pids N w p = reached (routed N) (member_nodes w p)"

definition accepted_at ::
    "World \<Rightarrow> nat \<Rightarrow> string \<Rightarrow> int \<Rightarrow> Operation \<Rightarrow> string \<Rightarrow> bool" where
  "accepted_at w q key rnd op v =
     (case log_find (pax_log (procs w q)) key rnd of
        None \<Rightarrow> False
      | Some e \<Rightarrow> a_server_id e > 0 \<and> entry_op e = op \<and> accepted_value e = v)"

text \<open>Any property of the replicated data that the three operations keep is kept.\<close>

lemma attempt_invariant:
  assumes "AttemptConsensus N p r w = (w', s, response)" and "cluster_ok w p"
    and propose: "\<And>r' d. req_key r' = req_key r \<Longrightarrow>
      req_round r' = proposal_round w p (req_key r) \<Longrightarrow> I d \<Longrightarrow> I (data_propose r' d)"
    and accept: "\<And>r' d. req_key r' = req_key r \<Longrightarrow>
      req_round r' = proposal_round w p (req_key r) \<Longrightarrow> req_pserver_id r' = 1 \<Longrightarrow> I d \<Longrightarrow>
      I (data_accept r' d)"
    and success: "\<And>r' d. ok s \<Longrightarrow> req_key r' = req_key r \<Longrightarrow>
      req_round r' = proposal_round w p (req_key r) \<Longrightarrow> req_pserver_id r' = 1 \<Longrightarrow> I d \<Longrightarrow>
      I (data_success r' d)"
    and start: "I (data w q)"
  shows "I (data w' q)"
proof -
  have 1: "I (data (after (stub_ping N p) nodes w) q)" for nodes
    by (rule ping_s.after_invariant [where I = I, OF _ start])
  have 2: "I (data (after (stub_propose N p prep) nodes v) q)"
    if "I (data v q)"
      "prep = prepare_request (req_key r) (proposal_round w p (req_key r)) (req_value r) 1"
    for prep nodes v
  proof (rule propose_s.after_invariant [where I = I, OF _ that(1)])
    fix d assume "I d"
    then show "I (data_propose prep d)"
      using that by (intro propose) simp_all
  qed
  have 3: "I (data (after (stub_accept N p areq) nodes v) q)"
    if "I (data v q)" "areq = accept_request r (proposal_round w p (req_key r)) 1 pr"
    for areq nodes v pr
  proof (rule accept_s.after_invariant [where I = I, OF _ that(1)])
    fix d assume "I d"
    then show "I (data_accept areq d)"
      using that by (intro accept) simp_all
  qed
  have 4: "I (data (after (stub_success N p areq) nodes v) q)"
    if "I (data v q)" "areq = accept_request r (proposal_round w p (req_key r)) 1 pr" "ok s"
    for areq nodes v pr
  proof (rule success_s.after_invariant [where I = I, OF _ that(1)])
    fix d assume "I d"
    then show "I (data_success areq d)"
      using that by (intro success) simp_all
  qed
  from assms(2) have "member_nodes w p \<noteq> []" "length (member_nodes w p) < 2 ^ 31"
    by (simp_all add: cluster_ok_def)
  with assms(1) show ?thesis
  proof (cases rule: attempt_cases)
    case (ping live w1)
    show ?thesis unfolding ping(4,1) by (rule 1)
  next
    case (propose live w1 prep w2)
    have "I (data w1 q)" unfolding propose(1) by (rule 1)
    then show ?thesis unfolding propose(4,5) by (rule 2 [OF _ propose(3)])
  next
    case (accept live w1 prep w2 pr areq w3)
    have "I (data w1 q)" unfolding accept(1) by (rule 1)
    then have "I (data w2 q)" unfolding accept(4) by (rule 2 [OF _ accept(3)])
    then show ?thesis unfolding accept(8,9) by (rule 3 [OF _ accept(7)])
  next
    case (commit live w1 prep w2 pr areq w3)
    have "I (data w1 q)" unfolding commit(1) by (rule 1)
    then have "I (data w2 q)" unfolding commit(4) by (rule 2 [OF _ commit(3)])
    then have "I (data w3 q)" unfolding commit(8) by (rule 3 [OF _ commit(7)])
    moreover have "ok s" by (simp add: commit(11))
    ultimately show ?thesis unfolding commit(10) by (rule 4 [OF _ commit(7)])
  qed
qed

lemma attempt_static:
  assumes "AttemptConsensus N p r w = (w', s, response)" and "cluster_ok w p"
  shows "static w' q = static w q"
proof -
  from assms(2) have "member_nodes w p \<noteq> []" "length (member_nodes w p) < 2 ^ 31"
    by (simp_all add: cluster_ok_def)
  with assms(1) show ?thesis
    by (cases rule: attempt_cases)
      (simp_all add: ping_s.after_static propose_s.after_static accept_s.after_static
        success_s.after_static)
qed

lemma attempt_clock:
  assumes "AttemptConsensus N p r w = (w', s, response)" and "cluster_ok w p"
  shows "clock w + length (member_nodes w p) \<le> clock w' \<and>
    clock w' \<le> clock w + 4 * length (member_nodes w p)"
proof -
  have live: "length (map fst (ok_replies (replies (stub_ping N p) (member_nodes w p) w)))
      \<le> length (member_nodes w p)"
    using ping_s.ok_count_le by simp
  from assms(2) have "member_nodes w p \<noteq> []" "length (member_nodes w p) < 2 ^ 31"
    by (simp_all add: cluster_ok_def)
  with assms(1) show ?thesis
    using live
    by (cases rule: attempt_cases)
      (simp_all add: ping_s.after_clock propose_s.after_clock accept_s.after_clock
        success_s.after_clock)
qed

lemma attempt_status:
  assumes "AttemptConsensus N p r w = (w', s, response)" and "cluster_ok w p"
  shows "s = Status_OK \<or> s = not_enough"
proof -
  from assms(2) have "member_nodes w p \<noteq> []" "length (member_nodes w p) < 2 ^ 31"
    by (simp_all add: cluster_ok_def)
  with assms(1) show ?thesis by (cases rule: attempt_cases) simp_all
qed

text \<open>An attempt that fails leaves every store and every leader as it was.\<close>

lemma attempt_failed:
  assumes "AttemptConsensus N p r w = (w', s, response)" and "cluster_ok w p" and "\<not> ok s"
  shows "kv_store (procs w' q) = kv_store (procs w q) \<and> leader (procs w' q) = leader (procs w q)"
proof -
  let ?I = "\<lambda>d. d_kv d = kv_store (procs w q) \<and> d_leader d = leader (procs w q)"
  have "?I (data w' q)"
    by (rule attempt_invariant [OF assms(1,2), where I = ?I])
      (use assms(3) in \<open>simp_all add: data_defs\<close>)
  then show ?thesis by simp
qed

text \<open>The shape of the replicated data is kept by every attempt.\<close>

definition data_ok :: "Data \<Rightarrow> bool" where
  "data_ok d \<longleftrightarrow> log_ok (d_log d) \<and> smap_ok (d_kv d) \<and>
     (\<forall>key rnd e. log_find (d_log d) key rnd = Some e \<longrightarrow>
        p_server_id e = 0 \<and> a_server_id e \<in> {0, 1})"

lemma data_ok_propose: "data_ok d \<Longrightarrow> data_ok (data_propose r d)"
  by (auto simp: data_ok_def data_propose_def data_simps log_ok_ops default_LogEntry_def
      split: if_splits)

lemma data_ok_accept: "data_ok d \<Longrightarrow> req_pserver_id r = 1 \<Longrightarrow> data_ok (data_accept r d)"
  by (auto simp: data_ok_def data_accept_def data_simps log_ok_ops split: if_splits option.splits)

lemma data_ok_success: "data_ok d \<Longrightarrow> req_pserver_id r = 1 \<Longrightarrow> data_ok (data_success r d)"
  using data_ok_accept [of d r] by (auto simp: data_success_def Let_def data_ok_def Set_KV_ok)

lemma attempt_data_ok:
  assumes "AttemptConsensus N p r w = (w', s, response)" and "cluster_ok w p"
    and "data_ok (data w q)"
  shows "data_ok (data w' q)"
  by (rule attempt_invariant [OF assms(1,2), where I = data_ok])
    (simp_all add: data_ok_propose data_ok_accept data_ok_success assms(3))

text \<open>A log entry is never removed: rounds only grow.\<close>

lemma attempt_log_mono:
  assumes "AttemptConsensus N p r w = (w', s, response)" and "cluster_ok w p"
    and "log_find (pax_log (procs w q)) key rnd \<noteq> None"
  shows "log_find (pax_log (procs w' q)) key rnd \<noteq> None"
proof -
  let ?I = "\<lambda>d. log_find (d_log d) key rnd \<noteq> None"
  have "?I (data w' q)"
    by (rule attempt_invariant [OF assms(1,2), where I = ?I])
      (use assms(3) in \<open>simp_all add: data_defs Let_def data_simps\<close>)
  then show ?thesis by simp
qed

subsection \<open>A successful attempt\<close>

text \<open>What has been accepted for a round stays accepted when the value is announced.\<close>

lemma accepted_accept:
  "log_find (d_log (data_accept r d)) (req_key r) (req_round r) =
    Some \<lparr>p_server_id = (case log_find (d_log d) (req_key r) (req_round r) of
                           None \<Rightarrow> 0 | Some e \<Rightarrow> p_server_id e),
          a_server_id = req_pserver_id r, entry_op = req_op r, accepted_value = req_value r\<rparr>"
  by (simp add: data_accept_def data_simps)

lemma log_data_success: "d_log (data_success r d) = d_log (data_accept r d)"
  by (simp add: data_success_def Let_def)

lemma commit_quorum:
  assumes distinct: "distinct (reached (routed N) members)"
    and live: "live = map fst (ok_replies (replies (stub_ping N p) members w))"
    and areq: "req_pserver_id areq = 1"
    and w': "w' = after (stub_success N p areq) members (after (stub_accept N p areq) live w2)"
  shows "\<exists>Q \<subseteq> set (reached (routed N) members).
    card Q = length (ok_replies (replies (stub_accept N p areq) live w2)) \<and>
    (\<forall>q \<in> Q. accepted_at w' q (req_key areq) (req_round areq) (req_op areq) (req_value areq))"
proof -
  from distinct have "distinct (reached (routed N) live)"
    unfolding live by (intro distinct_reached_replies) simp
  from accept_s.ok_count [OF this, of p areq w2] obtain Q where
    Q: "Q \<subseteq> set (reached (routed N) live)"
      "card Q = length (ok_replies (replies (stub_accept N p areq) live w2))"
    and eff: "\<forall>q \<in> Q. data (after (stub_accept N p areq) live w2) q = data_accept areq (data w2 q)"
    by blast
  let ?I = "\<lambda>d. \<exists>e. log_find (d_log d) (req_key areq) (req_round areq) = Some e \<and>
    a_server_id e = 1 \<and> entry_op e = req_op areq \<and> accepted_value e = req_value areq"
  have "accepted_at w' q (req_key areq) (req_round areq) (req_op areq) (req_value areq)"
    if "q \<in> Q" for q
  proof -
    have "?I (data w' q)"
      unfolding w'
      by (rule success_s.after_invariant [where I = ?I])
        (use that eff areq in \<open>simp_all add: log_data_success accepted_accept\<close>)
    then show ?thesis by (auto simp: accepted_at_def)
  qed
  moreover have "set live \<subseteq> set members" unfolding live by (rule set_live)
  with Q(1) have "Q \<subseteq> set (reached (routed N) members)" using reached_mono by blast
  ultimately show ?thesis using Q(2) by blast
qed

lemma attempt_accepted_by_quorum:
  assumes "AttemptConsensus N p r w = (w', s, response)" and "cluster_ok w p"
    and "distinct (member_pids N w p)" and "ok s"
  shows "resp_round response = proposal_round w p (req_key r) \<and>
    (\<exists>Q \<subseteq> set (member_pids N w p).
      length (member_nodes w p) \<le> 2 * card Q \<and>
      (\<forall>q \<in> Q. accepted_at w' q (req_key r) (resp_round response) (resp_op response)
                 (resp_value response)))"
proof -
  from assms(2) have "member_nodes w p \<noteq> []" "length (member_nodes w p) < 2 ^ 31"
    by (simp_all add: cluster_ok_def)
  with assms(1) show ?thesis
  proof (cases rule: attempt_cases)
    case (commit live w1 prep w2 pr areq w3)
    have areq: "req_key areq = req_key r" "req_pserver_id areq = 1"
      "req_round areq = proposal_round w p (req_key r)" by (simp_all add: commit(7))
    from commit_quorum [OF assms(3) [unfolded member_pids_def] commit(2) areq(2)
        commit(10) [unfolded commit(8)]]
    show ?thesis
      unfolding member_pids_def commit(12) echo_def using commit(9) areq(1,3) by auto
  qed (use assms(4) in \<open>simp_all add: not_enough_def\<close>)
qed

subsection \<open>Where the value comes from\<close>

lemma ping_after_data [simp]: "data (after (stub_ping N p) nodes w) q = data w q"
  by (rule ping_s.after_invariant [where I = "\<lambda>d. d = data w q"]) simp_all

lemma ping_after_log [simp]: "pax_log (procs (after (stub_ping N p) nodes w) q) = pax_log (procs w q)"
  using arg_cong [where f = d_log, OF ping_after_data [of N p nodes w q]]
  by (simp only: data_of_sel)

text \<open>An answer that reports an acceptor reports an accepted entry.\<close>

lemma answer_propose_accepted:
  assumes "answer_propose r (data w q) = (s, response)" and "ok s"
    and "resp_aserver_id response > 0"
  shows "accepted_at w q (req_key r) (req_round r) (resp_op response) (resp_value response)"
  using assms
  by (auto simp: answer_propose_def accepted_at_def Let_def default_Response_def
      default_LogEntry_def split: option.splits if_splits)

lemma answer_propose_reports:
  assumes "accepted_at w q (req_key r) (req_round r) op v"
    and "answer_propose r (data w q) = (s, response)" and "ok s"
  shows "resp_aserver_id response > 0"
  using assms
  by (auto simp: answer_propose_def accepted_at_def Let_def default_Response_def
      split: option.splits if_splits)

lemma promise_accepted:
  assumes "distinct (reached (routed N) live)" and "req_key prep = key" and "req_round prep = rnd"
    and "pr = fold (\<lambda>(node, res). collect_promise res)
                (replies (stub_propose N p prep) live w) no_promises"
    and "accepted_id pr > 0"
  shows "\<exists>q \<in> set (reached (routed N) live). accepted_at w q key rnd (prior_op pr) (prior_value pr)"
proof -
  let ?rs = "replies (stub_propose N p prep) live w"
  from promises_from_reply [of ?rs no_promises] assms(4,5)
  obtain node s response where reply: "(node, s, response) \<in> set (ok_replies ?rs)"
    and pr: "accepted_id pr = resp_aserver_id response" "prior_value pr = resp_value response"
      "prior_op pr = resp_op response"
    by (fastforce simp: no_promises_def)
  from propose_s.ok_reply [OF assms(1) reply] obtain q where q: "routed N node = Some q"
    "answer_propose prep (data w q) = (s, response)" by blast
  from reply have "node \<in> set live" by (rule ok_replies_node)
  moreover from reply have "ok s" by (simp add: ok_replies_def)
  ultimately show ?thesis
    using q pr assms(2,3,5) answer_propose_accepted [OF q(2)] by (auto simp: set_reached)
qed

lemma attempt_validity:
  assumes "AttemptConsensus N p r w = (w', s, response)" and "cluster_ok w p"
    and "distinct (member_pids N w p)" and "ok s"
  shows "(resp_value response = req_value r \<and> resp_op response = req_op r) \<or>
    (\<exists>q \<in> set (member_pids N w p).
      accepted_at w q (req_key r) (resp_round response) (resp_op response) (resp_value response))"
proof -
  from assms(2) have "member_nodes w p \<noteq> []" "length (member_nodes w p) < 2 ^ 31"
    by (simp_all add: cluster_ok_def)
  with assms(1) show ?thesis
  proof (cases rule: attempt_cases)
    case (commit live w1 prep w2 pr areq w3)
    show ?thesis
    proof (cases "accepted_id pr > 0")
      case False
      with commit(7,12) show ?thesis by (simp add: accept_request_def Let_def echo_def)
    next
      case True
      have "distinct (reached (routed N) live)"
        unfolding commit(2) using assms(3)
        by (intro distinct_reached_replies) (simp add: member_pids_def)
      from promise_accepted [OF this _ _ commit(6) True, of "req_key r" "req_round prep"]
      obtain q where q: "q \<in> set (reached (routed N) live)"
        "accepted_at w1 q (req_key r) (req_round prep) (prior_op pr) (prior_value pr)"
        by (auto simp: commit(3))
      have "set live \<subseteq> set (member_nodes w p)" unfolding commit(2) by (rule set_live)
      with q(1) have "q \<in> set (member_pids N w p)"
        unfolding member_pids_def using reached_mono by blast
      moreover have "pax_log (procs w1 q) = pax_log (procs w q)"
        by (simp add: commit(1))
      ultimately show ?thesis
        using q(2) True commit(3,7,12)
        by (intro disjI2 bexI [of _ q]) (auto simp: accepted_at_def accept_request_def Let_def echo_def)
    qed
  qed (use assms(4) in \<open>simp_all add: not_enough_def\<close>)
qed

end
