(* ===== verification/Paxos_Agreement.thy ===== *)
theory Paxos_Agreement
  imports Paxos_Safety
begin

text \<open>
  Agreement between attempts. A round of a key is \<open>decided\<close> for a value when a quorum has
  accepted that value and no member has accepted another. With an odd number of members,
  where the quorum test makes quorums intersect, no later attempt, on any network, changes
  a decision, and an attempt at the same round can only succeed with the decided value.
\<close>

definition holds_only :: "string \<Rightarrow> int \<Rightarrow> string \<Rightarrow> Data \<Rightarrow> bool" where
  "holds_only key rnd v d =
     (case log_find (d_log d) key rnd of
        None \<Rightarrow> True
      | Some e \<Rightarrow> a_server_id e \<le> 0 \<or> accepted_value e = v)"

definition holds :: "string \<Rightarrow> int \<Rightarrow> string \<Rightarrow> Data \<Rightarrow> bool" where
  "holds key rnd v d =
     (case log_find (d_log d) key rnd of
        None \<Rightarrow> False
      | Some e \<Rightarrow> a_server_id e > 0 \<and> accepted_value e = v)"

definition decided :: "nat set \<Rightarrow> World \<Rightarrow> string \<Rightarrow> int \<Rightarrow> string \<Rightarrow> bool" where
  "decided S w key rnd v \<longleftrightarrow>
     (\<forall>q \<in> S. holds_only key rnd v (data w q)) \<and>
     (\<exists>Q. is_quorum S Q \<and> (\<forall>q \<in> Q. holds key rnd v (data w q)))"

definition members_routed :: "Net \<Rightarrow> World \<Rightarrow> nat \<Rightarrow> bool" where
  "members_routed N w p \<longleftrightarrow> distinct (member_pids N w p) \<and>
     length (member_pids N w p) = length (member_nodes w p)"

lemma card_member_pids:
  "members_routed N w p \<Longrightarrow> card (set (member_pids N w p)) = length (member_nodes w p)"
  by (simp add: members_routed_def distinct_card)

subsection \<open>What keeps an entry\<close>

text \<open>\<open>slot_safe\<close>: the request is for another slot, or carries the value of this one.\<close>

definition slot_safe :: "string \<Rightarrow> int \<Rightarrow> string \<Rightarrow> Request \<Rightarrow> bool" where
  "slot_safe key rnd v r \<longleftrightarrow> req_key r = key \<and> req_round r = rnd \<longrightarrow> req_value r = v"

lemma holds_steps:
  "holds_only key rnd v d \<Longrightarrow> holds_only key rnd v (data_propose r d)"
  "holds key rnd v d \<Longrightarrow> holds key rnd v (data_propose r d)"
  "slot_safe key rnd v r \<Longrightarrow> holds_only key rnd v d \<Longrightarrow> holds_only key rnd v (data_accept r d)"
  "slot_safe key rnd v r \<Longrightarrow> req_pserver_id r > 0 \<Longrightarrow> holds key rnd v d \<Longrightarrow>
    holds key rnd v (data_accept r d)"
  by (auto simp: holds_only_def holds_def data_propose_def data_accept_def slot_safe_def
      data_simps default_LogEntry_def split: option.splits)

lemma holds_success:
  "holds_only key rnd v (data_success r d) = holds_only key rnd v (data_accept r d)"
  "holds key rnd v (data_success r d) = holds key rnd v (data_accept r d)"
  by (simp_all add: holds_only_def holds_def log_data_success)

lemma after_propose_holds:
  "holds_only key rnd v (data w q) \<Longrightarrow> holds_only key rnd v (data (after (stub_propose N p r) nodes w) q)"
  "holds key rnd v (data w q) \<Longrightarrow> holds key rnd v (data (after (stub_propose N p r) nodes w) q)"
  by (rule propose_s.after_invariant; simp add: holds_steps)+

lemma after_accept_holds:
  assumes "slot_safe key rnd v r" and "req_pserver_id r = 1"
  shows "holds_only key rnd v (data w q) \<Longrightarrow>
      holds_only key rnd v (data (after (stub_accept N p r) nodes w) q)"
    and "holds key rnd v (data w q) \<Longrightarrow> holds key rnd v (data (after (stub_accept N p r) nodes w) q)"
  using assms by (rule_tac [!] accept_s.after_invariant; simp add: holds_steps)+

lemma after_success_holds:
  assumes "slot_safe key rnd v r" and "req_pserver_id r = 1"
  shows "holds_only key rnd v (data w q) \<Longrightarrow>
      holds_only key rnd v (data (after (stub_success N p r) nodes w) q)"
    and "holds key rnd v (data w q) \<Longrightarrow> holds key rnd v (data (after (stub_success N p r) nodes w) q)"
  using assms by (rule_tac [!] success_s.after_invariant; simp add: holds_steps holds_success)+

lemma decided_cong:
  assumes "decided S w key rnd v"
    and "\<And>q. holds_only key rnd v (data w q) \<Longrightarrow> holds_only key rnd v (data w' q)"
    and "\<And>q. holds key rnd v (data w q) \<Longrightarrow> holds key rnd v (data w' q)"
  shows "decided S w' key rnd v"
  using assms unfolding decided_def by blast

subsection \<open>A quorum of promises meets the deciding quorum\<close>

lemma adopted_value:
  assumes routed: "members_routed N w p" and odd: "odd (length (member_nodes w p))"
    and dec: "decided (set (member_pids N w p)) w (req_key r) rnd v"
    and w1: "w1 = after (stub_ping N p) (member_nodes w p) w"
    and live: "live = map fst (ok_replies (replies (stub_ping N p) (member_nodes w p) w))"
    and prep: "prep = prepare_request (req_key r) rnd v' 1"
    and quorum: "length (member_nodes w p) \<le>
      2 * length (ok_replies (replies (stub_propose N p prep) live w1))"
    and pr: "pr = fold (\<lambda>(node, res). collect_promise res)
      (replies (stub_propose N p prep) live w1) no_promises"
  shows "accepted_id pr > 0 \<and> prior_value pr = v"
proof -
  let ?S = "set (member_pids N w p)"
  let ?rs = "replies (stub_propose N p prep) live w1"
  have data_w1: "data w1 q = data w q" for q by (simp add: w1)
  have dl: "distinct (reached (routed N) live)"
    unfolding live using routed
    by (intro distinct_reached_replies) (simp add: members_routed_def member_pids_def)
  have sub: "set (reached (routed N) live) \<subseteq> ?S"
    unfolding live member_pids_def by (rule reached_mono [OF set_live])
  from propose_s.ok_count [OF dl, of p prep w1] obtain R where
    R: "R \<subseteq> set (reached (routed N) live)" "card R = length (ok_replies ?rs)"
      "\<forall>q \<in> R. answer_propose prep (data w1 q) \<in> snd ` set (ok_replies ?rs)" by blast
  from dec obtain Q where Q: "is_quorum ?S Q" "\<forall>q \<in> Q. holds (req_key r) rnd v (data w q)"
    and only: "\<forall>q \<in> ?S. holds_only (req_key r) rnd v (data w q)"
    by (auto simp: decided_def)
  have "odd_quorum ?S Q" "odd_quorum ?S R"
    using Q(1) R sub quorum odd card_member_pids [OF routed]
    by (auto simp: odd_quorum_def is_quorum_iff)
  then have "Q \<inter> R \<noteq> {}" by (rule odd_cluster.intersect)
  then obtain q where q: "q \<in> Q" "q \<in> R" by blast
  with Q(2) obtain op where acc: "accepted_at w q (req_key r) rnd op v"
    by (fastforce simp: holds_def accepted_at_def split: option.splits)
  from q(2) R(3) obtain node s response where
    reply: "(node, s, response) \<in> set (ok_replies ?rs)"
    and ans: "answer_propose prep (data w q) = (s, response)"
    by (force simp: data_w1)
  have "ok s" using reply by (simp add: ok_replies_def)
  with ans acc have "resp_aserver_id response > 0"
    by (intro answer_propose_reports [OF _ ans]) (simp_all add: prep)
  with accepted_id_upper [OF reply, of no_promises] have id: "accepted_id pr > 0"
    by (simp add: pr)
  from promise_accepted [OF dl _ _ pr id, of "req_key r" rnd]
  obtain q' where q': "q' \<in> set (reached (routed N) live)"
    "accepted_at w1 q' (req_key r) rnd (prior_op pr) (prior_value pr)"
    by (auto simp: prep)
  with only sub have "holds_only (req_key r) rnd v (data w1 q')" by (auto simp: data_w1)
  with q'(2) have "prior_value pr = v"
    by (auto simp: holds_only_def accepted_at_def split: option.splits)
  with id show ?thesis by simp
qed

lemma areq_safe:
  assumes routed: "members_routed N w p" and odd: "odd (length (member_nodes w p))"
    and dec: "decided (set (member_pids N w p)) w key rnd v"
    and w1: "w1 = after (stub_ping N p) (member_nodes w p) w"
    and live: "live = map fst (ok_replies (replies (stub_ping N p) (member_nodes w p) w))"
    and prep: "prep = prepare_request (req_key r) rnd' (req_value r) 1"
    and quorum: "length (member_nodes w p) \<le>
      2 * length (ok_replies (replies (stub_propose N p prep) live w1))"
    and pr: "pr = fold (\<lambda>(node, res). collect_promise res)
      (replies (stub_propose N p prep) live w1) no_promises"
    and areq: "areq = accept_request r rnd' 1 pr"
  shows "slot_safe key rnd v areq"
proof (cases "req_key r = key \<and> rnd' = rnd")
  case True
  with adopted_value [OF routed odd _ w1 live prep quorum pr, of v] dec
  show ?thesis by (simp add: areq slot_safe_def accept_request_def Let_def)
next
  case False
  then show ?thesis by (auto simp: areq slot_safe_def)
qed

lemma attempt_decision:
  assumes att: "AttemptConsensus N p r w = (w', s, response)" and cl: "cluster_ok w p"
    and hyps: "members_routed N w p" "odd (length (member_nodes w p))"
      "decided (set (member_pids N w p)) w key rnd v"
  shows "decided (set (member_pids N w p)) w' key rnd v \<and>
    (ok s \<and> req_key r = key \<and> proposal_round w p key = rnd \<longrightarrow> resp_value response = v)"
proof -
  let ?S = "set (member_pids N w p)"
  from cl have "member_nodes w p \<noteq> []" "length (member_nodes w p) < 2 ^ 31"
    by (simp_all add: cluster_ok_def)
  with att show ?thesis
  proof (cases rule: attempt_cases)
    case (ping live w1)
    have "decided ?S w1 key rnd v"
      by (rule decided_cong [OF hyps(3)]) (simp_all add: ping(1))
    then show ?thesis by (simp add: ping(4,5) not_enough_def)
  next
    case (propose live w1 prep w2)
    have "decided ?S w2 key rnd v"
      by (rule decided_cong [OF hyps(3)]) (simp_all add: propose(1,4) after_propose_holds)
    then show ?thesis by (simp add: propose(5,6) not_enough_def)
  next
    case (accept live w1 prep w2 pr areq w3)
    have safe: "slot_safe key rnd v areq" by (rule areq_safe [OF hyps accept(1,2,3,5,6,7)])
    have id: "req_pserver_id areq = 1" by (simp add: accept(7))
    have "decided ?S w3 key rnd v"
      by (rule decided_cong [OF hyps(3)])
        (simp_all add: accept(1,4,8) after_propose_holds after_accept_holds [OF safe id])
    then show ?thesis by (simp add: accept(9,10) not_enough_def)
  next
    case (commit live w1 prep w2 pr areq w3)
    have safe: "slot_safe key rnd v areq" by (rule areq_safe [OF hyps commit(1,2,3,5,6,7)])
    have id: "req_pserver_id areq = 1" by (simp add: commit(7))
    have "decided ?S w' key rnd v"
      by (rule decided_cong [OF hyps(3)])
        (simp_all add: commit(1,4,8,10) after_propose_holds after_accept_holds [OF safe id]
          after_success_holds [OF safe id])
    moreover have "resp_value response = v"
      if "req_key r = key \<and> proposal_round w p key = rnd"
      using safe that by (auto simp: slot_safe_def commit(7,12) echo_def)
    ultimately show ?thesis by blast
  qed
qed

text \<open>A first success at a round nobody has accepted anything for decides the round.\<close>

lemma attempt_decides:
  assumes att: "AttemptConsensus N p r w = (w', s, response)" and cl: "cluster_ok w p"
    and routed: "members_routed N w p" and okay: "ok s"
    and fresh: "\<forall>q \<in> set (member_pids N w p).
      \<forall>u. holds_only (req_key r) (proposal_round w p (req_key r)) u (data w q)"
  shows "decided (set (member_pids N w p)) w' (req_key r) (proposal_round w p (req_key r))
    (resp_value response)"
proof -
  let ?S = "set (member_pids N w p)" and ?rnd = "proposal_round w p (req_key r)"
  from routed have distinct: "distinct (member_pids N w p)" by (simp add: members_routed_def)
  from attempt_accepted_by_quorum [OF att cl distinct okay] obtain Q where
    Q: "Q \<subseteq> ?S" "length (member_nodes w p) \<le> 2 * card Q"
      "\<forall>q \<in> Q. holds (req_key r) ?rnd (resp_value response) (data w' q)"
    by (fastforce simp: holds_def accepted_at_def split: option.splits)
  have only: "holds_only (req_key r) ?rnd (resp_value response) (data w' q)" if "q \<in> ?S" for q
  proof -
    from cl have "member_nodes w p \<noteq> []" "length (member_nodes w p) < 2 ^ 31"
      by (simp_all add: cluster_ok_def)
    with att show ?thesis
    proof (cases rule: attempt_cases)
      case (commit live w1 prep w2 pr areq w3)
      have "slot_safe (req_key r) ?rnd (resp_value response) areq"
        and id: "req_pserver_id areq = 1"
        by (simp_all add: commit(7,12) slot_safe_def echo_def)
      note steps = after_propose_holds after_accept_holds [OF this] after_success_holds [OF this]
      show ?thesis
        unfolding commit(10,8,4,1) using fresh that by (simp add: steps)
    qed (use okay in \<open>simp_all add: not_enough_def\<close>)
  qed
  with Q show ?thesis
    unfolding decided_def is_quorum_iff by (auto simp: card_member_pids [OF routed])
qed

end
