(* ===== verification/Paxos_Data.thy ===== *)
theory Paxos_Data
  imports Paxos_Agreement
begin

text \<open>
  An attempt seen on the replicated data alone. \<open>data_attempt\<close> runs the four phases on
  the list of the processes' \<open>Data\<close> and the number of calls sent so far, with each remote
  call replaced by the operation its handler implements. \<open>AttemptConsensus\<close> refines it:
  configuration, member lists and counters play no part once the list of members is read.
  The scenarios of the findings are executed on this machine.
\<close>

type_synonym data_state = "Data list \<times> nat"

definition data_call ::
    "Net \<Rightarrow> (Data \<Rightarrow> Data) \<Rightarrow> (Data \<Rightarrow> Status \<times> 'r) \<Rightarrow> 'r \<Rightarrow> Node \<Rightarrow> data_state \<Rightarrow>
     data_state \<times> Status \<times> 'r" where
  "data_call N effect answer d node st =
     (case st of (ds, t) \<Rightarrow>
       (case routed N node of
          None \<Rightarrow> ((ds, Suc t), unavailable, d)
        | Some q \<Rightarrow>
            (case fate N t q of
               Drop \<Rightarrow> ((ds, Suc t), unavailable, d)
             | Lose \<Rightarrow> ((ds[q := effect (ds ! q)], Suc t), deadline_exceeded, d)
             | Cancel \<Rightarrow> ((ds, Suc t), client_cancelled, d)
             | Deliver \<Rightarrow>
                 (case answer (ds ! q) of
                    (s, r) \<Rightarrow> ((ds[q := effect (ds ! q)], Suc t), s, if ok s then r else d)))))"

definition data_attempt ::
    "Net \<Rightarrow> Node list \<Rightarrow> nat \<Rightarrow> Request \<Rightarrow> data_state \<Rightarrow> data_state \<times> Status \<times> Response" where
  "data_attempt N members p r st =
     (let n = int_of_size (length members);
          rnd = int_of_size (rounds (d_log (fst st ! p)) (req_key r));
          (st, live) = for_nodes (data_call N (\<lambda>d. d) (\<lambda>_. (Status_OK, ())) ())
            (\<lambda>node (s, _) live. if ok s then live @ [node] else live) members [] st
      in if 2 * int_of_size (length live) < n then (st, not_enough, default_Response)
         else
           (let prep = prepare_request (req_key r) rnd (req_value r) 1;
                (st, promises) = for_nodes
                  (data_call N (data_propose prep) (answer_propose prep) default_Response)
                  (\<lambda>node res acc. collect_promise res acc) live no_promises st
            in if 2 * num_accepted_proposals promises < n then (st, not_enough, default_Response)
               else
                 (let areq = accept_request r rnd 1 promises;
                      (st, num, acceptance) = for_nodes
                        (data_call N (data_accept areq) (\<lambda>_. (Status_OK, echo areq)) default_Response)
                        (\<lambda>node (s, response) (num, acceptance).
                           if ok s then (num + 1, response) else (num, acceptance))
                        live (0, default_Response) st
                  in if 2 * num < n then (st, not_enough, default_Response)
                     else
                       (let sreq = success_request (req_key r) acceptance
                        in (fst (for_nodes
                              (data_call N (data_success sreq) (answer_success sreq) ())
                              (\<lambda>node res u. u) members () st),
                            Status_OK, acceptance)))))"

lemma length_data_call [simp]:
  "length (fst (fst (data_call N effect answer d node st))) = length (fst st)"
  by (auto simp: data_call_def split: prod.split option.split fate.split)

lemma length_data_loop:
  assumes "\<And>node st. length (fst (fst (call node st))) = length (fst st)"
  shows "length (fst (fst (for_nodes call body nodes acc st))) = length (fst st)"
  by (induction nodes arbitrary: acc st) (simp_all add: assms split: prod.split, metis assms fst_conv)

lemma data_attempt_length: "length (fst (fst (data_attempt N members p r st))) = length (fst st)"
  unfolding data_attempt_def Let_def
  by (simp add: case_prod_beta length_data_loop)

subsection \<open>Simulation of a loop\<close>

locale simulation =
  fixes R :: "'w \<Rightarrow> 'a \<Rightarrow> bool"
    and call :: "Node \<Rightarrow> 'w \<Rightarrow> 'w \<times> Status \<times> 'r"
    and call' :: "Node \<Rightarrow> 'a \<Rightarrow> 'a \<times> Status \<times> 'r"
  assumes step: "R w a \<Longrightarrow> R (fst (call node w)) (fst (call' node a)) \<and>
    snd (call node w) = snd (call' node a)"
begin

lemma loop:
  "R w a \<Longrightarrow> R (fst (for_nodes call body nodes acc w)) (fst (for_nodes call' body nodes acc a)) \<and>
    snd (for_nodes call body nodes acc w) = snd (for_nodes call' body nodes acc a)"
proof (induction nodes arbitrary: acc w a)
  case Nil
  then show ?case by simp
next
  case (Cons node nodes)
  obtain w' res where c: "call node w = (w', res)" by (cases "call node w")
  obtain a' where c': "call' node a = (a', res)" "R w' a'"
    using step [OF Cons.prems, of node] c by (cases "call' node a") auto
  from Cons.IH [OF c'(2)] show ?case by (simp add: c c'(1))
qed

end

text \<open>\<open>mirrors\<close>: the list holds the data of the first processes, which are all that can be
  called, and the call count is the clock.\<close>

definition mirrors :: "Net \<Rightarrow> World \<Rightarrow> data_state \<Rightarrow> bool" where
  "mirrors N w st \<longleftrightarrow> clock w = snd st \<and> (\<forall>q < length (fst st). data w q = fst st ! q) \<and>
     (\<forall>node q. routed N node = Some q \<longrightarrow> q < length (fst st))"

lemma mirrors_frame:
  "mirrors N (update p (count_out s) w) st = mirrors N w st"
  by (simp add: mirrors_def)

lemma mirrors_tick: "mirrors N w (ds, t) \<Longrightarrow> mirrors N (tick w) (ds, Suc t)"
  by (simp add: mirrors_def)

context handler
begin

lemma mirrors_at_process:
  assumes "mirrors N w (ds, t)" and "q < length ds"
  shows "mirrors N (fst (at_process h False q w)) (ds[q := effect (ds ! q)], t)"
    and "mirrors N (fst (at_process h True q w)) (ds, t)"
    and "snd (at_process h False q w) = answer (ds ! q)"
  using assms by (simp_all add: mirrors_def at_process_simps at_process_frame nth_list_update)

lemma mirrors_call:
  assumes "mirrors N w st"
  shows "mirrors N (fst (stub N p name d node w)) (fst (data_call N effect answer d node st)) \<and>
    snd (stub N p name d node w) = snd (data_call N effect answer d node st)"
proof -
  obtain ds t where st: "st = (ds, t)" by (cases st)
  let ?w = "tick (update p (count_out name) w)"
  have m: "mirrors N ?w (ds, Suc t)"
    using assms by (intro mirrors_tick) (simp add: st mirrors_frame)
  have t: "clock w = t" using assms by (simp add: st mirrors_def)
  show ?thesis
  proof (cases "routed N node")
    case None
    with m show ?thesis by (simp add: st data_call_def rpc_send_def routed_def)
  next
    case (Some q)
    then have "q < length ds" using assms by (auto simp: mirrors_def st)
    note run = mirrors_at_process [OF m this]
    show ?thesis
      using m run Some t
      by (cases "fate N t q")
        (simp_all add: st data_call_def rpc_send_def routed_def case_prod_beta)
  qed
qed

end

interpretation ping_sim: simulation "mirrors N" "stub_ping N p"
  "data_call N (\<lambda>d. d) (\<lambda>_. (Status_OK, ())) ()" for N p
  by unfold_locales (simp only: stub_ping_def ping_h.mirrors_call)

interpretation propose_sim: simulation "mirrors N" "stub_propose N p r"
  "data_call N (data_propose r) (answer_propose r) default_Response" for N p r
  by unfold_locales (simp only: stub_propose_def propose_h.mirrors_call)

interpretation accept_sim: simulation "mirrors N" "stub_accept N p r"
  "data_call N (data_accept r) (\<lambda>_. (Status_OK, echo r)) default_Response" for N p r
  by unfold_locales (simp only: stub_accept_def accept_h.mirrors_call)

interpretation success_sim: simulation "mirrors N" "stub_success N p r"
  "data_call N (data_success r) (answer_success r) ()" for N p r
  by unfold_locales (simp only: stub_success_def success_h.mirrors_call)

subsection \<open>The attempt refines its data-level form\<close>

lemma attempt_mirrors:
  assumes m: "mirrors N w st" and p: "p < length (fst st)"
  shows "mirrors N (fst (AttemptConsensus N p r w)) (fst (data_attempt N (member_nodes w p) p r st)) \<and>
    snd (AttemptConsensus N p r w) = snd (data_attempt N (member_nodes w p) p r st)"
proof -
  let ?ms = "member_nodes w p"
  have rnd: "rounds (d_log (fst st ! p)) (req_key r) =
      length (smap_index [] (Get_Log_all (pax_log (procs w p))) (req_key r))"
  proof -
    have "fst st ! p = data w p" using m p by (simp add: mirrors_def)
    then show ?thesis by (simp add: rounds_def Get_Log_all_def)
  qed
  define ping_body where "ping_body =
    (\<lambda>(node :: Node) (s, _ :: unit) live. if ok s then live @ [node] else live)"
  define acc_body where "acc_body = (\<lambda>(node :: Node) (s, response :: Response) (num :: int, acceptance).
    if ok s then (num + 1, response) else (num, acceptance))"
  obtain w1 live where a1: "for_nodes (stub_ping N p) ping_body ?ms [] w = (w1, live)" by fastforce
  with ping_sim.loop [OF m, of p ping_body ?ms "[]"] obtain st1 where
    b1: "for_nodes (data_call N (\<lambda>d. d) (\<lambda>_. (Status_OK, ())) ()) ping_body ?ms [] st = (st1, live)"
    and m1: "mirrors N w1 st1" by (metis fst_conv prod.collapse snd_conv)
  define prep where "prep = prepare_request (req_key r)
    (int_of_size (length (smap_index [] (Get_Log_all (pax_log (procs w p))) (req_key r))))
    (req_value r) 1"
  obtain w2 pr where a2: "for_nodes (stub_propose N p prep) (\<lambda>node. collect_promise) live
      no_promises w1 = (w2, pr)" by fastforce
  with propose_sim.loop [OF m1, of p prep "\<lambda>node. collect_promise" live no_promises] obtain st2 where
    b2: "for_nodes (data_call N (data_propose prep) (answer_propose prep) default_Response)
      (\<lambda>node. collect_promise) live no_promises st1 = (st2, pr)"
    and m2: "mirrors N w2 st2" by (metis fst_conv prod.collapse snd_conv)
  define areq where "areq = accept_request r
    (int_of_size (length (smap_index [] (Get_Log_all (pax_log (procs w p))) (req_key r)))) 1 pr"
  obtain w3 num acc where a3: "for_nodes (stub_accept N p areq) acc_body live (0, default_Response) w2
      = (w3, num, acc)" by (metis prod_cases3)
  with accept_sim.loop [OF m2, of p areq acc_body live "(0, default_Response)"] obtain st3 where
    b3: "for_nodes (data_call N (data_accept areq) (\<lambda>_. (Status_OK, echo areq)) default_Response)
      acc_body live (0, default_Response) st2 = (st3, num, acc)"
    and m3: "mirrors N w3 st3" by (metis fst_conv prod.collapse snd_conv)
  note m4 = success_sim.loop [OF m3, of p "success_request (req_key r) acc" "\<lambda>node res u. u" ?ms "()"]
  show ?thesis
    unfolding AttemptConsensus_def data_attempt_def ping_phase_def propose_phase_def
      accept_phase_def success_phase_def rnd member_nodes_def [symmetric] quorum_missed_iff
    using m1 m2 m3 m4
    by (simp add: Let_def a1 [unfolded ping_body_def] b1 [unfolded ping_body_def] a2 [unfolded prep_def]
        b2 [unfolded prep_def] a3 [unfolded acc_body_def areq_def] b3 [unfolded acc_body_def areq_def])
qed

end
