(* ===== verification/Database_RPC.thy ===== *)
theory Database_RPC
  imports Paxos_Data
begin

text \<open>
  The service the user talks to, \<open>DatabaseRPC\<close> (rpc.cc). \<open>get\<close> and \<open>set\<close> serve the
  request at the leader and forward it to the leader elsewhere; when the leader does not
  answer with OK the process elects itself and forwards to whatever leader it then has.
  A forwarded request runs the same handler at another process, which may forward again,
  so the definitions recurse. The recursion follows the chain of forwards and is bounded
  by \<open>fuel\<close>: \<open>None\<close> means that the chain is longer than the fuel, never that the request
  failed. \<open>Database_get_mono\<close> and \<open>Database_set_mono\<close> say that more fuel never changes a
  result; how much is enough is shown with the properties of the cluster.

  \<open>memberList->at\<close> throws when the key is missing; gRPC turns an exception that leaves a
  handler into a status that is not OK.
\<close>

type_synonym 'r fuel_handler = "bool \<Rightarrow> nat \<Rightarrow> World \<Rightarrow> (World \<times> Status \<times> 'r) option"

text \<open>A call of a handler that may run out of fuel; otherwise \<open>rpc_send\<close>.\<close>

definition rpc_forward ::
    "Net \<Rightarrow> (string \<Rightarrow> nat option) \<Rightarrow> string \<Rightarrow> 'r \<Rightarrow> 'r fuel_handler \<Rightarrow> World \<Rightarrow>
     (World \<times> Status \<times> 'r) option" where
  "rpc_forward N route addr d h w =
     (case route addr of
        None \<Rightarrow> Some (tick w, unavailable, d)
      | Some q \<Rightarrow>
          (case fate N (clock w) q of
             Drop \<Rightarrow> Some (tick w, unavailable, d)
           | Lose \<Rightarrow>
               Option.bind (h False q (tick w)) (\<lambda>(w', s, r). Some (w', deadline_exceeded, d))
           | Cancel \<Rightarrow>
               Option.bind (h True q (tick w)) (\<lambda>(w', s, r). Some (w', client_cancelled, d))
           | Deliver \<Rightarrow>
               Option.bind (h False q (tick w))
                 (\<lambda>(w', s, r). Some (w', s, if ok s then r else d))))"

definition no_leader :: Status where
  "no_leader = Status ABORTED ''No leader set''"

definition no_suitable_leader :: Status where
  "no_suitable_leader = Status ABORTED ''Could not find a suitable leader.''"

definition new_leader_failed :: Status where
  "new_leader_failed = Status ABORTED ''New leader was not able to get value.''"

definition trigger_election :: "Net \<Rightarrow> nat \<Rightarrow> World \<Rightarrow> World \<times> Status \<times> unit" where
  "trigger_election N p w = stub_trigger_election N p (currentNode (procs w p)) w"

text \<open>The body of \<open>get\<close> at the leader.\<close>

definition local_get :: "GetRequest \<Rightarrow> Process \<Rightarrow> GetResponse" where
  "local_get request P =
     (case Get_KV (get_key request) (kv_store P) of
        (v, err) \<Rightarrow>
          if err \<noteq> 0 then default_GetResponse\<lparr>get_value := '''', get_error := 1\<rparr>
          else default_GetResponse\<lparr>get_value := v\<rparr>)"

text \<open>The answer of the leader is copied field by field.\<close>

definition relay :: "GetResponse \<Rightarrow> GetResponse" where
  "relay leader_response =
     default_GetResponse\<lparr>get_value := get_value leader_response,
       get_error := get_error leader_response\<rparr>"

text \<open>What happens after the leader did not answer; \<open>forward\<close> is the call of \<open>get\<close> at a
  database endpoint.\<close>

definition get_failover ::
    "Net \<Rightarrow> (string \<Rightarrow> World \<Rightarrow> (World \<times> Status \<times> GetResponse) option) \<Rightarrow> nat \<Rightarrow> World \<Rightarrow>
     (World \<times> Status \<times> GetResponse) option" where
  "get_failover N forward p w =
     (case trigger_election N p w of
        (w, election_status, _) \<Rightarrow>
          if \<not> ok election_status then Some (w, no_suitable_leader, default_GetResponse)
          else
            (case map_of (memberList (procs w p)) (leader (procs w p)) of
               None \<Rightarrow> Some (w, uncaught_exception, default_GetResponse)
             | Some node \<Rightarrow>
                 Option.bind (forward (databaseEndpoint node) w)
                   (\<lambda>(w, new_leader_status, leader_response).
                      if \<not> ok new_leader_status
                      then Some (w, new_leader_failed, default_GetResponse)
                      else Some (w, Status_OK, relay leader_response))))"

definition get_step ::
    "Net \<Rightarrow> (string \<Rightarrow> World \<Rightarrow> (World \<times> Status \<times> GetResponse) option) \<Rightarrow> GetRequest \<Rightarrow>
     GetResponse fuel_handler" where
  "get_step N forward request cancelled p w =
     (let w = update p (count_in ''DatabaseRPC::get'') w;
          addr = leader (procs w p)
      in if cancelled then Some (w, cancelled_status, default_GetResponse)
         else if addr = '''' then Some (w, no_leader, default_GetResponse)
         else if addr = self_address (procs w p)
         then Some (w, Status_OK, local_get request (procs w p))
         else
           (case map_of (memberList (procs w p)) (leader (procs w p)) of
              None \<Rightarrow> Some (w, uncaught_exception, default_GetResponse)
            | Some node \<Rightarrow>
                Option.bind (forward (databaseEndpoint node) w)
                  (\<lambda>(w, leader_status, leader_response).
                     if \<not> ok leader_status then get_failover N forward p w
                     else Some (w, Status_OK, relay leader_response))))"

fun Database_get :: "nat \<Rightarrow> Net \<Rightarrow> GetRequest \<Rightarrow> GetResponse fuel_handler" where
  "Database_get 0 N request cancelled p w = None"
| "Database_get (Suc fuel) N request cancelled p w =
     get_step N
       (\<lambda>addr w. rpc_forward N (database_route N) addr default_GetResponse
          (\<lambda>c q w. Database_get fuel N \<lparr>get_key = get_key request\<rparr> c q w) w)
       request cancelled p w"

text \<open>At the leader a set request is one attempt; its \<open>op\<close> stays unset.\<close>

definition set_request :: "SetRequest \<Rightarrow> Request" where
  "set_request request =
     default_Request\<lparr>req_key := set_key request, req_value := set_value request\<rparr>"

definition set_failover ::
    "Net \<Rightarrow> (string \<Rightarrow> World \<Rightarrow> (World \<times> Status \<times> unit) option) \<Rightarrow> nat \<Rightarrow> World \<Rightarrow>
     (World \<times> Status \<times> unit) option" where
  "set_failover N forward p w =
     (case trigger_election N p w of
        (w, election_status, _) \<Rightarrow>
          if \<not> ok election_status then Some (w, no_suitable_leader, ())
          else
            (case map_of (memberList (procs w p)) (leader (procs w p)) of
               None \<Rightarrow> Some (w, uncaught_exception, ())
             | Some node \<Rightarrow>
                 Option.bind (forward (databaseEndpoint node) w)
                   (\<lambda>(w, new_leader_status, _).
                      if \<not> ok new_leader_status then Some (w, new_leader_failed, ())
                      else Some (w, Status_OK, ()))))"

definition set_step ::
    "Net \<Rightarrow> (string \<Rightarrow> World \<Rightarrow> (World \<times> Status \<times> unit) option) \<Rightarrow> SetRequest \<Rightarrow>
     unit fuel_handler" where
  "set_step N forward request cancelled p w =
     (let w = update p (count_in ''DatabaseRPC::set'') w;
          addr = leader (procs w p)
      in if cancelled then Some (w, cancelled_status, ())
         else if addr = '''' then Some (w, no_leader, ())
         else if addr = self_address (procs w p)
         then (case AttemptConsensus N p (set_request request) w of (w, s, _) \<Rightarrow> Some (w, s, ()))
         else
           (case map_of (memberList (procs w p)) (leader (procs w p)) of
              None \<Rightarrow> Some (w, uncaught_exception, ())
            | Some node \<Rightarrow>
                Option.bind (forward (databaseEndpoint node) w)
                  (\<lambda>(w, leader_status, _).
                     if \<not> ok leader_status then set_failover N forward p w
                     else Some (w, Status_OK, ()))))"

fun Database_set :: "nat \<Rightarrow> Net \<Rightarrow> SetRequest \<Rightarrow> unit fuel_handler" where
  "Database_set 0 N request cancelled p w = None"
| "Database_set (Suc fuel) N request cancelled p w =
     set_step N
       (\<lambda>addr w. rpc_forward N (database_route N) addr ()
          (\<lambda>c q w. Database_set fuel N
             \<lparr>set_key = set_key request, set_value = set_value request\<rparr> c q w) w)
       request cancelled p w"

declare Database_get.simps [simp del] Database_set.simps [simp del]

text \<open>The snapshot used by recovery and tests; this handler ignores cancellation.\<close>

definition Database_get_db :: "bool \<Rightarrow> Process \<Rightarrow> Process \<times> Status \<times> Store" where
  "Database_get_db cancelled P =
     (let P = count_in ''DatabaseRPC::get_db'' P in (P, Status_OK, Get_DB (kv_store P)))"

subsection \<open>The stubs of the database service\<close>

text \<open>The snapshot stub drops the status: a failed call yields the empty map.\<close>

definition stub_get_db :: "Net \<Rightarrow> nat \<Rightarrow> Node \<Rightarrow> World \<Rightarrow> World \<times> Store" where
  "stub_get_db N p node w =
     (case rpc_send N (database_route N) (databaseEndpoint node) [] (at_process Database_get_db)
             (update p (count_out ''DatabaseRPCWrapperCall::get_db'') w) of
        (w, s, db) \<Rightarrow> (w, db))"

definition stub_get :: "nat \<Rightarrow> Net \<Rightarrow> nat \<Rightarrow> string \<Rightarrow> string \<Rightarrow> World \<Rightarrow> (World \<times> string) option"
  where
  "stub_get fuel N p addr key w =
     (case rpc_forward N (database_route N) addr default_GetResponse
             (\<lambda>c q w. Database_get fuel N \<lparr>get_key = key\<rparr> c q w)
             (update p (count_out ''DatabaseRPCWrapperCall::get'') w) of
        None \<Rightarrow> None
      | Some (w, s, response) \<Rightarrow>
          Some (w, if ok s then get_value response else ''RPC failed !''))"

definition stub_set ::
    "nat \<Rightarrow> Net \<Rightarrow> nat \<Rightarrow> string \<Rightarrow> string \<Rightarrow> string \<Rightarrow> World \<Rightarrow> (World \<times> Status) option" where
  "stub_set fuel N p addr key v w =
     (case rpc_forward N (database_route N) addr ()
             (\<lambda>c q w. Database_set fuel N \<lparr>set_key = key, set_value = v\<rparr> c q w)
             (update p (count_out ''DatabaseRPCWrapperCall::set'') w) of
        None \<Rightarrow> None
      | Some (w, s, _) \<Rightarrow> Some (w, s))"

subsection \<open>More fuel never changes a result\<close>

definition defines_more :: "'a option \<Rightarrow> 'a option \<Rightarrow> bool" where
  "defines_more x y \<longleftrightarrow> (x = None \<or> y = x)"

lemma defines_more_refl [simp]: "defines_more x x" "defines_more None x"
  by (simp_all add: defines_more_def)

lemma defines_more_bind:
  "defines_more x y \<Longrightarrow> (\<And>a. defines_more (f a) (g a)) \<Longrightarrow>
    defines_more (Option.bind x f) (Option.bind y g)"
  by (cases x) (auto simp: defines_more_def)

lemma defines_moreD: "defines_more x y \<Longrightarrow> x = Some r \<Longrightarrow> y = Some r"
  by (simp add: defines_more_def)

lemma rpc_forward_more:
  assumes "\<And>c q w. defines_more (h c q w) (h' c q w)"
  shows "defines_more (rpc_forward N route addr d h w) (rpc_forward N route addr d h' w)"
  using assms unfolding rpc_forward_def
  by (auto intro!: defines_more_bind split: option.split fate.split)

lemma get_step_more:
  assumes "\<And>addr w. defines_more (forward addr w) (forward' addr w)"
  shows "defines_more (get_step N forward r c p w) (get_step N forward' r c p w)"
  using assms unfolding get_step_def get_failover_def Let_def
  by (auto intro!: defines_more_bind split: option.split prod.split)

lemma set_step_more:
  assumes "\<And>addr w. defines_more (forward addr w) (forward' addr w)"
  shows "defines_more (set_step N forward r c p w) (set_step N forward' r c p w)"
  using assms unfolding set_step_def set_failover_def Let_def
  by (auto intro!: defines_more_bind split: option.split prod.split)

lemma Database_get_more: "defines_more (Database_get fuel N r c p w) (Database_get (Suc fuel) N r c p w)"
proof (induction fuel arbitrary: r c p w)
  case 0
  show ?case by (simp add: Database_get.simps)
next
  case (Suc fuel)
  show ?case
    unfolding Database_get.simps(2) [of fuel N r c p w] Database_get.simps(2) [of "Suc fuel" N r c p w]
    by (intro get_step_more rpc_forward_more Suc.IH)
qed

lemma Database_set_more: "defines_more (Database_set fuel N r c p w) (Database_set (Suc fuel) N r c p w)"
proof (induction fuel arbitrary: r c p w)
  case 0
  show ?case by (simp add: Database_set.simps)
next
  case (Suc fuel)
  show ?case
    unfolding Database_set.simps(2) [of fuel N r c p w] Database_set.simps(2) [of "Suc fuel" N r c p w]
    by (intro set_step_more rpc_forward_more Suc.IH)
qed

lemma Database_get_mono:
  "Database_get fuel N r c p w = Some res \<Longrightarrow> Database_get (fuel + k) N r c p w = Some res"
  by (induction k) (auto dest: defines_moreD [OF Database_get_more])

lemma Database_set_mono:
  "Database_set fuel N r c p w = Some res \<Longrightarrow> Database_set (fuel + k) N r c p w = Some res"
  by (induction k) (auto dest: defines_moreD [OF Database_set_more])

end
