(* ===== verification/Coordinate.thy ===== *)
theory Coordinate
  imports Database_RPC
begin

text \<open>
  Start-up of a node, \<open>Consensus::coordinate\<close> (app.cc): a node started with the leader flag
  declares itself leader; any other asks every member who the leader is, adopts the answer
  when exactly one leader is named and that leader is alive, and otherwise (with the
  election flag) elects itself. A node that is not the leader then copies the leader's
  store. The random sleep and the printing are left out. \<open>memberList->at\<close> throws outside
  of any handler here, which ends the process: the result \<open>None\<close>.

  The \<open>std::set\<close>s of addresses are maps to \<open>unit\<close>.
\<close>

record Survey =
  leaders :: "(string, unit) smap"
  live_replicas :: "(string, unit) smap"

definition survey_reply :: "string \<Rightarrow> Status \<times> string \<Rightarrow> Survey \<Rightarrow> Survey" where
  "survey_reply key res acc =
     (case res of (s, l) \<Rightarrow>
        if ok s then
          (let acc = acc\<lparr>live_replicas := smap_emplace key () (live_replicas acc)\<rparr>
           in if l \<noteq> '''' then acc\<lparr>leaders := smap_emplace l () (leaders acc)\<rparr> else acc)
        else acc)"

text \<open>The loop runs over the pairs of the member list; the key names the replica.\<close>

fun survey :: "Net \<Rightarrow> nat \<Rightarrow> (string \<times> Node) list \<Rightarrow> Survey \<Rightarrow> World \<Rightarrow> World \<times> Survey" where
  "survey N p [] acc w = (w, acc)"
| "survey N p ((key, node) # members) acc w =
     (case stub_get_leader N p node w of
        (w', res) \<Rightarrow> survey N p members (survey_reply key res acc) w')"

definition no_survey :: Survey where
  "no_survey = \<lparr>leaders = [], live_replicas = []\<rparr>"

text \<open>The part of \<open>coordinate\<close> that settles the leader; the flag tells whether it goes on.\<close>

definition find_leader :: "Net \<Rightarrow> nat \<Rightarrow> World \<Rightarrow> World \<times> bool" where
  "find_leader N p w =
     (if flag_leader (flag (config (procs w p)))
      then (update p (\<lambda>P. P\<lparr>leader := self_address P\<rparr>) w, True)
      else
        (case survey N p (memberList (procs w p)) no_survey w of
           (w, s) \<Rightarrow>
             if length (leaders s) = 1 \<and> map_of (live_replicas s) (fst (hd (leaders s))) \<noteq> None
             then (update p (\<lambda>P. P\<lparr>leader := fst (hd (leaders s))\<rparr>) w, True)
             else if flag_election (flag (config (procs w p)))
             then (case trigger_election N p w of
                     (w, election_status, _) \<Rightarrow> (w, ok election_status))
             else (w, True)))"

definition recover :: "Net \<Rightarrow> nat \<Rightarrow> World \<Rightarrow> World option" where
  "recover N p w =
     (if leader (procs w p) = '''' then Some w
      else if leader (procs w p) \<noteq> self_address (procs w p)
      then (case map_of (memberList (procs w p)) (leader (procs w p)) of
              None \<Rightarrow> None
            | Some node \<Rightarrow>
                (case stub_get_db N p node w of
                   (w, leader_db) \<Rightarrow>
                     Some (update p (\<lambda>P. P\<lparr>kv_store := restore leader_db (kv_store P)\<rparr>) w)))
      else Some w)"

definition coordinate :: "Net \<Rightarrow> nat \<Rightarrow> World \<Rightarrow> World option" where
  "coordinate N p w =
     (case find_leader N p w of (w, go_on) \<Rightarrow> if go_on then recover N p w else Some w)"

end
