(* ===== verification/Crash_Cluster.thy ===== *)
theory Crash_Cluster
  imports Coordinate
begin

text \<open>
  The cluster when the only faults are crashes: the processes in \<open>D\<close> receive nothing, all
  other calls are answered (\<open>crash_net N D\<close>). As long as half of the members are alive, an
  attempt commits at every live process, an election elects its initiator, and the user's
  \<open>get\<close> and \<open>set\<close> succeed at every live process, so the live processes stay replicas of
  one state. \<open>connected\<close> collects what initialisation establishes about addresses and the
  member list, \<open>replicas\<close> says that the live processes hold the same data, and
  \<open>log_full\<close> that the rounds of a key are numbered without gaps.
\<close>

subsection \<open>Logs without gaps\<close>

definition log_full :: "Log \<Rightarrow> bool" where
  "log_full lg \<longleftrightarrow> log_ok lg \<and>
     (\<forall>key rnd. log_find lg key rnd \<noteq> None \<longleftrightarrow> 0 \<le> rnd \<and> rnd < int (rounds lg key))"

lemma log_full_empty [simp]: "log_full []"
  by (simp add: log_full_def log_find_def smap_index_def)

lemma log_full_next: "log_full lg \<Longrightarrow> log_find lg key (int (rounds lg key)) = None"
  unfolding log_full_def by (metis less_irrefl)

lemma log_full_accept:
  assumes "log_full lg"
  shows "log_full (Set_Log_accept key (int (rounds lg key)) a op v lg)"
    and "rounds (Set_Log_accept key (int (rounds lg key)) a op v lg) key' =
      (if key' = key then Suc (rounds lg key) else rounds lg key')"
proof -
  have ok: "log_ok lg" using assms by (simp add: log_full_def)
  show r: "rounds (Set_Log_accept key (int (rounds lg key)) a op v lg) key' =
      (if key' = key then Suc (rounds lg key) else rounds lg key')" for key'
    by (simp add: rounds_accept [OF ok] log_full_next [OF assms])
  show "log_full (Set_Log_accept key (int (rounds lg key)) a op v lg)"
    using assms unfolding log_full_def by (auto simp: data_simps log_ok_accept r)
qed

lemma largest_round_le:
  assumes "\<And>rnd e. (rnd, e) \<in> set m \<Longrightarrow> rnd \<le> n" and "INT_MIN \<le> n"
  shows "largest_round m \<le> n"
proof -
  have "foldl (\<lambda>largest entry. max largest (fst entry)) i m \<le> n" if "i \<le> n" for i
    using that assms(1)
  proof (induction m arbitrary: i)
    case (Cons x m)
    have "fst x \<le> n" using Cons.prems(2) [of "fst x" "snd x"] by simp
    with Cons.prems(1) have "max i (fst x) \<le> n" by simp
    moreover have "rnd \<le> n" if "(rnd, e) \<in> set m" for rnd e
      using Cons.prems(2) [of rnd e] that by simp
    ultimately have "foldl (\<lambda>largest entry. max largest (fst entry)) (max i (fst x)) m \<le> n"
      by (rule Cons.IH)
    then show ?case by simp
  qed simp
  with assms(2) show ?thesis by (simp add: largest_round_def)
qed

lemma log_full_newest:
  assumes "log_full lg"
  shows "\<not> largest_round
    (smap_index [] (Set_Log_accept key (int (rounds lg key)) a op v lg) key)
      > int (rounds lg key)"
proof -
  let ?lg = "Set_Log_accept key (int (rounds lg key)) a op v lg"
  note full = log_full_accept [OF assms, of key a op v]
  have "rnd \<le> int (rounds lg key)" if "(rnd, e) \<in> set (smap_index [] ?lg key)" for rnd e
  proof -
    have "smap_ok (smap_index [] ?lg key)" using full(1) by (simp add: log_full_def log_ok_index)
    with that have "log_find ?lg key rnd \<noteq> None" by (simp add: log_find_def smap_in_iff)
    with full show ?thesis by (simp add: log_full_def)
  qed
  then show ?thesis by (simp add: not_less largest_round_le INT_MIN_def)
qed

subsection \<open>The data a commit leaves\<close>

definition commit_data :: "Request \<Rightarrow> Data \<Rightarrow> Data" where
  "commit_data r d =
     (let d' = d\<lparr>d_log := Set_Log_accept (req_key r) (int (rounds (d_log d) (req_key r))) 1
                            (req_op r) (req_value r) (d_log d)\<rparr>
      in if req_key r = ''leader'' then d'\<lparr>d_leader := req_value r\<rparr>
         else d'\<lparr>d_kv := Set_KV (req_key r) (req_value r) (d_kv d)\<rparr>)"

lemma commit_data_simps [simp]:
  "d_log (commit_data r d) = Set_Log_accept (req_key r) (int (rounds (d_log d) (req_key r))) 1
     (req_op r) (req_value r) (d_log d)"
  "d_leader (commit_data r d) =
     (if req_key r = ''leader'' then req_value r else d_leader d)"
  "d_kv (commit_data r d) =
     (if req_key r = ''leader'' then d_kv d else Set_KV (req_key r) (req_value r) (d_kv d))"
  by (simp_all add: commit_data_def Let_def)

lemma commit_steps:
  assumes "log_full (d_log d)" and "req_key prep = req_key areq"
    and "req_round prep = req_round areq" and "req_key areq = req_key r"
    and "req_round areq = int (rounds (d_log d) (req_key r))"
    and "req_pserver_id areq = 1" and "req_op areq = req_op r" and "req_value areq = req_value r"
  shows "data_success areq (data_accept areq (data_propose prep d)) = commit_data r d"
    and "answer_propose prep d =
      (if req_pserver_id prep < 0 then (Status ABORTED ''Proposal is out of date.'', default_Response)
       else (Status_OK, default_Response\<lparr>resp_round := req_round prep,
               resp_pserver_id := req_pserver_id prep\<rparr>))"
  using log_full_newest [OF assms(1)] log_full_next [OF assms(1)] assms(2-)
  by (simp_all add: data_success_def commit_data_def outdated_def Let_def data_propose_def
      data_accept_def accept_proposal accept_accept answer_propose_def default_LogEntry_def)

subsection \<open>Live processes\<close>

definition live_nodes :: "Net \<Rightarrow> nat set \<Rightarrow> Node list \<Rightarrow> Node list" where
  "live_nodes N D nodes = filter (alive (routed N) D) nodes"

lemma alive_iff: "alive t D node \<longleftrightarrow> (\<exists>q. t node = Some q \<and> q \<notin> D)"
  by (simp add: alive_def split: option.split)

lemma set_reached_live:
  "set (reached (routed N) (live_nodes N D nodes)) = set (reached (routed N) nodes) - D"
  by (auto simp: set_reached live_nodes_def alive_iff)

lemma length_live:
  assumes "distinct (reached (routed N) nodes)"
  shows "length (live_nodes N D nodes) = card (set (reached (routed N) nodes) - D)"
proof -
  have "length (reached (routed N) (live_nodes N D nodes)) = length (live_nodes N D nodes)"
    unfolding live_nodes_def by (induction nodes) (auto simp: alive_iff)
  moreover have "distinct (reached (routed N) (live_nodes N D nodes))"
    unfolding live_nodes_def by (rule distinct_reached_filter [OF assms])
  ultimately show ?thesis by (metis distinct_card set_reached_live)
qed

lemma live_live [simp]: "filter (alive (routed N) D) (live_nodes N D nodes) = live_nodes N D nodes"
  by (simp add: live_nodes_def)

subsection \<open>An attempt commits everywhere it can\<close>

definition replicas :: "nat set \<Rightarrow> World \<Rightarrow> Data \<Rightarrow> bool" where
  "replicas L w d \<longleftrightarrow> (\<forall>q \<in> L. data w q = d)"

lemma promises_none:
  assumes "\<And>node s response. (node, s, response) \<in> set (ok_replies rs) \<Longrightarrow>
    resp_aserver_id response = 0"
  shows "accepted_id (fold (\<lambda>(node, res). collect_promise res) rs no_promises) = 0"
  using promises_from_reply [of rs no_promises] assms
  by (fastforce simp: no_promises_def)

lemma crash_live:
  assumes "distinct (reached (routed N) ms)"
  shows "map fst (ok_replies (replies (stub_ping (crash_net N D) p) ms w)) = live_nodes N D ms"
  by (subst ping_c.crash_replies [OF assms, where a = "(Status_OK, ())"])
    (simp_all add: live_nodes_def comp_def)

text \<open>The effect of the four loops on the replicas that are alive.\<close>

lemma crash_commit:
  assumes dist: "distinct (reached (routed N) ms)" and set: "set (reached (routed N) ms) = S"
    and rep: "replicas (S - D) w d" and full: "log_full (d_log d)"
    and prep: "req_key prep = req_key r" "req_round prep = int (rounds (d_log d) (req_key r))"
    and areq: "req_op areq = req_op r" "req_value areq = req_value r" "req_key areq = req_key r"
      "req_round areq = int (rounds (d_log d) (req_key r))" "req_pserver_id areq = 1"
  shows "replicas (S - D) (after (stub_success (crash_net N D) p areq) ms
    (after (stub_accept (crash_net N D) p areq) (live_nodes N D ms)
      (after (stub_propose (crash_net N D) p prep) (live_nodes N D ms)
        (after (stub_ping (crash_net N D) p) ms w)))) (commit_data r d)"
  unfolding replicas_def
proof
  fix q assume q: "q \<in> S - D"
  have live: "distinct (reached (routed N) (live_nodes N D ms))"
    unfolding live_nodes_def by (rule distinct_reached_filter [OF dist])
  have "set (reached (routed N) (live_nodes N D ms)) = S - D" by (simp add: set_reached_live set)
  then have "data (after (stub_success (crash_net N D) p areq) ms
      (after (stub_accept (crash_net N D) p areq) (live_nodes N D ms)
        (after (stub_propose (crash_net N D) p prep) (live_nodes N D ms)
          (after (stub_ping (crash_net N D) p) ms w)))) q =
      data_success areq (data_accept areq (data_propose prep d))"
    unfolding success_c.crash_after [OF dist] accept_c.crash_after [OF live]
      propose_c.crash_after [OF live]
    using q rep set by (auto simp: replicas_def)
  also have "\<dots> = commit_data r d" by (rule commit_steps(1) [OF full]) (simp_all add: areq prep)
  finally show "data (after (stub_success (crash_net N D) p areq) ms
      (after (stub_accept (crash_net N D) p areq) (live_nodes N D ms)
        (after (stub_propose (crash_net N D) p prep) (live_nodes N D ms)
          (after (stub_ping (crash_net N D) p) ms w)))) q = commit_data r d" .
qed

text \<open>Every live replica answers the proposal of a fresh round, and reports no accepted value.\<close>

lemma crash_promises:
  assumes "distinct (reached (routed N) ms)" and "set (reached (routed N) ms) = S"
    and "replicas (S - D) w d" and "log_full (d_log d)"
    and "req_key prep = key" "req_round prep = int (rounds (d_log d) key)" "req_pserver_id prep = 1"
    and rs: "rs = replies (stub_propose (crash_net N D) p prep) (live_nodes N D ms)
      (after (stub_ping (crash_net N D) p) ms w)"
  shows "length (ok_replies rs) = length (live_nodes N D ms)"
    "accepted_id (fold (\<lambda>(node, res). collect_promise res) rs no_promises) = 0"
proof -
  let ?a = "(Status_OK, default_Response\<lparr>resp_round := req_round prep, resp_pserver_id := 1\<rparr>)"
  have "distinct (reached (routed N) (live_nodes N D ms))"
    unfolding live_nodes_def by (rule distinct_reached_filter [OF assms(1)])
  moreover have "answer_propose prep (data (after (stub_ping (crash_net N D) p) ms w) q) = ?a"
    if "q \<in> S - D" for q
    using assms(3) that
    by (simp add: replicas_def answer_propose_def log_full_next [OF assms(4)] assms(5-7)
        default_LogEntry_def Let_def)
  ultimately have ok: "ok_replies rs = map (\<lambda>node. (node, ?a)) (live_nodes N D ms)"
    unfolding rs
    by (subst propose_c.crash_replies [where a = ?a]) (simp_all add: set_reached_live assms(2))
  then show "length (ok_replies rs) = length (live_nodes N D ms)" by simp
  show "accepted_id (fold (\<lambda>(node, res). collect_promise res) rs no_promises) = 0"
    by (rule promises_none) (auto simp: ok default_Response_def)
qed

lemma attempt_crash:
  assumes cl: "cluster_ok w p" and dist: "distinct (member_pids N w p)"
    and att: "AttemptConsensus (crash_net N D) p r w = (w', s, response)"
    and p: "p \<in> set (member_pids N w p) - D"
    and quorum: "length (member_nodes w p) \<le> 2 * card (set (member_pids N w p) - D)"
    and rep: "replicas (set (member_pids N w p) - D) w d"
    and full: "log_full (d_log d)" and small: "rounds (d_log d) (req_key r) < 2 ^ 31"
  shows "s = Status_OK \<and> resp_value response = req_value r \<and>
    replicas (set (member_pids N w p) - D) w' (commit_data r d)"
proof -
  let ?ms = "member_nodes w p" and ?S = "set (member_pids N w p)"
  let ?live = "live_nodes N D ?ms"
  have distms: "distinct (reached (routed N) ?ms)" using dist by (simp add: member_pids_def)
  have distlive: "distinct (reached (routed N) ?live)"
    unfolding live_nodes_def by (rule distinct_reached_filter [OF distms])
  have set: "set (reached (routed N) ?ms) = ?S" by (simp add: member_pids_def)
  have len: "length ?live = card (?S - D)" by (simp add: length_live distms member_pids_def)
  have "data w p = d" using rep p by (simp add: replicas_def)
  then have rnd: "proposal_round w p (req_key r) = int (rounds (d_log d) (req_key r))"
    using small by (auto simp: proposal_round_def)
  define w1 where "w1 = after (stub_ping (crash_net N D) p) ?ms w"
  define prep where "prep = prepare_request (req_key r) (proposal_round w p (req_key r))
    (req_value r) 1"
  define w2 where "w2 = after (stub_propose (crash_net N D) p prep) ?live w1"
  define rs where "rs = replies (stub_propose (crash_net N D) p prep) ?live w1"
  define areq where "areq = accept_request r (proposal_round w p (req_key r)) 1
    (fold (\<lambda>(node, res). collect_promise res) rs no_promises)"
  define w3 where "w3 = after (stub_accept (crash_net N D) p areq) ?live w2"
  note live = crash_live [OF distms, of D p w]
  have prep: "req_key prep = req_key r" "req_round prep = int (rounds (d_log d) (req_key r))"
    "req_pserver_id prep = 1" by (simp_all add: prep_def rnd)
  note promises = crash_promises [OF distms set rep full prep rs_def [unfolded w1_def]]
  have areq: "req_op areq = req_op r" "req_value areq = req_value r"
    "req_key areq = req_key r" "req_round areq = int (rounds (d_log d) (req_key r))"
    "req_pserver_id areq = 1"
    using promises(2) by (simp_all add: areq_def accept_request_def Let_def rnd)
  have acc: "length (ok_replies (replies (stub_accept (crash_net N D) p areq) ?live w2)) = length ?live"
    by (subst accept_c.crash_replies [OF distlive, where a = "(Status_OK, echo areq)"])
      (simp_all add: set_reached_live set)
  from cl have "?ms \<noteq> []" "length ?ms < 2 ^ 31" by (simp_all add: cluster_ok_def)
  with att show ?thesis
  proof (cases rule: attempt_cases)
    case (ping live w1)
    with quorum len show ?thesis by (simp add: live)
  next
    case (propose live' w1' prep' w2')
    then show ?thesis using quorum len promises(1) by (simp add: live rs_def w1_def prep_def)
  next
    case (accept live' w1' prep' w2' pr areq' w3')
    then show ?thesis using quorum len acc by (simp add: live rs_def w1_def w2_def prep_def areq_def)
  next
    case (commit live' w1' prep' w2' pr areq' w3')
    then have "areq' = areq" "w' = after (stub_success (crash_net N D) p areq) ?ms w3"
      by (simp_all add: live rs_def w1_def w2_def w3_def prep_def areq_def)
    with crash_commit [OF distms set rep full prep(1,2) areq] areq(2) commit(11,12) show ?thesis
      by (simp add: w1_def w2_def w3_def echo_def)
  qed
qed

subsection \<open>Addresses that lead where they should\<close>

definition connected :: "Net \<Rightarrow> nat set \<Rightarrow> World \<Rightarrow> bool" where
  "connected N S w \<longleftrightarrow> finite S \<and>
     (\<forall>p \<in> S. cluster_ok w p \<and> members_routed N w p \<and> set (member_pids N w p) = S \<and>
        routed N (currentNode (procs w p)) = Some p \<and> self_address (procs w p) \<noteq> '''' \<and>
        (\<forall>q \<in> S. case map_of (memberList (procs w p)) (self_address (procs w q)) of
             None \<Rightarrow> False
           | Some node \<Rightarrow> routed N node = Some q \<and>
               database_route N (databaseEndpoint node) = Some q))"

lemma static_eq:
  "static w' q = static w q \<longleftrightarrow> config (procs w' q) = config (procs w q) \<and>
    memberList (procs w' q) = memberList (procs w q) \<and>
    currentNode (procs w' q) = currentNode (procs w q)"
  by (simp add: static_of_def)

lemma self_address_static: "static w' q = static w q \<Longrightarrow> self_address (procs w' q) = self_address (procs w q)"
  by (simp add: static_eq self_address_def)

lemma members_static:
  assumes "static w' p = static w p"
  shows "member_nodes w' p = member_nodes w p" "cluster_ok w' p = cluster_ok w p"
    "member_pids N w' p = member_pids N w p" "members_routed N w' p = members_routed N w p"
  using assms by (simp_all add: static_eq member_nodes_def cluster_ok_def member_pids_def
      members_routed_def)

lemma connected_static:
  assumes "\<And>q. static w' q = static w q"
  shows "connected N S w' = connected N S w"
  unfolding connected_def
  using assms [THEN members_static(2)] assms [THEN members_static(3)]
    assms [THEN members_static(4)] assms [THEN self_address_static] assms [unfolded static_eq]
  by simp

lemma replicas_data:
  "(\<And>q. data w' q = data w q) \<Longrightarrow> replicas L w' d = replicas L w d"
  by (simp add: replicas_def)

lemma connectedD:
  assumes "connected N S w" and "p \<in> S"
  shows "cluster_ok w p" "members_routed N w p" "distinct (member_pids N w p)"
    "set (member_pids N w p) = S" "length (member_nodes w p) = card S"
    "routed N (currentNode (procs w p)) = Some p" "self_address (procs w p) \<noteq> ''''"
  using assms card_member_pids [of N w p] by (auto simp: connected_def members_routed_def)

lemma connected_lookup:
  assumes "connected N S w" and "p \<in> S" and "q \<in> S"
  obtains node where "map_of (memberList (procs w p)) (self_address (procs w q)) = Some node"
    "routed N node = Some q" "database_route N (databaseEndpoint node) = Some q"
  using assms unfolding connected_def by (fastforce split: option.splits)

lemma self_address_inject:
  assumes "connected N S w" and "p \<in> S" and "q \<in> S"
    and "self_address (procs w p) = self_address (procs w q)"
  shows "p = q"
proof -
  from assms obtain n1 where n1: "map_of (memberList (procs w p)) (self_address (procs w p)) = Some n1"
    "routed N n1 = Some p" by (metis connected_lookup)
  from assms obtain n2 where "map_of (memberList (procs w p)) (self_address (procs w q)) = Some n2"
    "routed N n2 = Some q" by (metis connected_lookup)
  with n1 assms(4) show ?thesis by simp
qed

subsection \<open>A healthy cluster\<close>

text \<open>\<open>bounded n\<close>: no key has more than \<open>n\<close> rounds yet, so round numbers stay exact.\<close>

definition bounded :: "nat \<Rightarrow> Data \<Rightarrow> bool" where
  "bounded n d \<longleftrightarrow> (\<forall>key. rounds (d_log d) key \<le> n)"

definition healthy :: "Net \<Rightarrow> nat set \<Rightarrow> nat set \<Rightarrow> nat \<Rightarrow> World \<Rightarrow> Data \<Rightarrow> bool" where
  "healthy N S D n w d \<longleftrightarrow> connected N S w \<and> card S \<le> 2 * card (S - D) \<and>
     replicas (S - D) w d \<and> log_full (d_log d) \<and> bounded n d \<and>
     (\<exists>q \<in> S. d_leader d = self_address (procs w q))"

lemma healthy_same:
  assumes "healthy N S D n w d" and "\<And>q. static w' q = static w q" and "\<And>q. data w' q = data w q"
  shows "healthy N S D n w' d"
  using assms(1) connected_static [OF assms(2)] replicas_data [OF assms(3)]
    assms(2) [THEN self_address_static]
  by (simp add: healthy_def)

lemma bounded_commit:
  assumes "log_full (d_log d)" and "bounded n d"
  shows "bounded (Suc n) (commit_data r d)"
  using assms by (auto simp: bounded_def log_full_accept(2) le_SucI)

lemma healthy_attempt:
  assumes h: "healthy N S D n w d" and n: "n < 2 ^ 31" and p: "p \<in> S - D"
    and att: "AttemptConsensus (crash_net N D) p r w = (w', s, response)"
    and leader: "req_key r = ''leader'' \<Longrightarrow> \<exists>q \<in> S. req_value r = self_address (procs w q)"
  shows "s = Status_OK \<and> resp_value response = req_value r \<and>
    healthy N S D (Suc n) w' (commit_data r d) \<and> (\<forall>q. static w' q = static w q)"
proof -
  from h have con: "connected N S w" and full: "log_full (d_log d)" and b: "bounded n d"
    and rep: "replicas (S - D) w d" and maj: "card S \<le> 2 * card (S - D)"
    and lead: "\<exists>q \<in> S. d_leader d = self_address (procs w q)" by (auto simp: healthy_def)
  from p have pS: "p \<in> S" by simp
  note c = connectedD [OF con pS]
  have "s = Status_OK \<and> resp_value response = req_value r \<and> replicas (S - D) w' (commit_data r d)"
  proof (rule attempt_crash [OF c(1,3) att, unfolded c(4,5)])
    show "rounds (d_log d) (req_key r) < 2 ^ 31"
      using b n by (simp add: bounded_def) (meson le_less_trans)
  qed (use p maj rep full in auto)
  moreover have st: "static w' q = static w q" for q by (rule attempt_static [OF att c(1)])
  ultimately show ?thesis
    using con maj lead leader bounded_commit [OF full b, of r] log_full_accept(1) [OF full]
    by (auto simp: healthy_def connected_static [OF st] self_address_static [OF st])
qed

subsection \<open>Elections\<close>

definition election_request :: "string \<Rightarrow> Request" where
  "election_request a = default_Request\<lparr>req_value := a, req_key := ''leader'', req_op := SET_LEADER\<rparr>"

lemma data_update_leader:
  "data (update p (\<lambda>P. P\<lparr>leader := a\<rparr>) w) q =
    (if q = p then (data w p)\<lparr>d_leader := a\<rparr> else data w q)"
  "static (update p (\<lambda>P. P\<lparr>leader := a\<rparr>) w) q = static w q"
  by (simp_all add: procs_update data_of_def)

lemma healthy_election:
  assumes h: "healthy N S D n w d" and n: "n < 2 ^ 31" and p: "p \<in> S - D"
    and el: "trigger_election (crash_net N D) p w = (w', s, u)"
  shows "s = Status_OK \<and>
    healthy N S D (Suc n) w' (commit_data (election_request (self_address (procs w p))) d) \<and>
    (\<forall>q. static w' q = static w q)"
proof -
  let ?a = "self_address (procs w p)"
  define w1 where "w1 = update p (count_in ''ConsensusRPC::elect_leader'')
    (tick (update p (count_out ''ConsensusRPCWrapperCall::trigger_election'') w))"
  have d1: "data w1 q = data w q" and s1: "static w1 q = static w q" for q
    by (simp_all add: w1_def data_simps frame_simps)
  have h1: "healthy N S D n w1 d" by (rule healthy_same [OF h s1 d1])
  obtain w2 s2 response where
    att: "AttemptConsensus (crash_net N D) p (election_request ?a) w1 = (w2, s2, response)"
    by (cases "AttemptConsensus (crash_net N D) p (election_request ?a) w1")
  have "\<exists>q \<in> S. req_value (election_request ?a) = self_address (procs w1 q)"
    using p by (intro bexI [of _ p]) (simp_all add: election_request_def self_address_static [OF s1])
  from healthy_attempt [OF h1 n p att this] have
    s2: "s2 = Status_OK" "resp_value response = ?a"
    and h2: "healthy N S D (Suc n) w2 (commit_data (election_request ?a) d)"
    and st2: "\<And>q. static w2 q = static w1 q"
    by (simp_all add: election_request_def)
  have "p \<in> S" using p by simp
  from h connectedD(6) [OF _ this]
  have "consensus_route N (consensusEndpoint (currentNode (procs w p))) = Some p"
    by (auto simp: healthy_def routed_def)
  moreover have "self_address (procs (update p (count_out f) w) p) = ?a" for f
    by (simp add: self_address_def procs_update)
  ultimately have res: "w' = update p (\<lambda>P. P\<lparr>leader := ?a\<rparr>) w2" "s = Status_OK"
    using el p att s2
    by (simp_all add: trigger_election_def stub_trigger_election_def Let_def rpc_send_def
        elect_leader_def w1_def election_request_def)
  have st: "static w' q = static w2 q" for q by (simp add: res data_update_leader)
  have "data w2 p = commit_data (election_request ?a) d"
    using h2 p by (simp add: healthy_def replicas_def)
  then have "(data w2 p)\<lparr>d_leader := ?a\<rparr> = data w2 p"
    by (simp add: commit_data_def election_request_def Let_def)
  then have dt: "data w' q = data w2 q" for q by (simp add: res data_update_leader)
  have "static w' q = static w q" for q by (simp only: st st2 s1)
  with healthy_same [OF h2 st dt] res(2) show ?thesis by blast
qed

subsection \<open>Reading\<close>

text \<open>What \<open>get\<close> answers from a store, whichever way the request takes.\<close>

definition answer_get :: "GetRequest \<Rightarrow> Store \<Rightarrow> GetResponse" where
  "answer_get request kv =
     (case map_of kv (get_key request) of
        None \<Rightarrow> \<lparr>get_error = 1, get_value = ''''\<rparr>
      | Some v \<Rightarrow> \<lparr>get_error = 0, get_value = v\<rparr>)"

lemma local_get_answer: "local_get request P = answer_get request (kv_store P)"
  by (simp add: local_get_def answer_get_def Get_KV_def default_GetResponse_def split: option.split)

lemma relay_id [simp]: "relay r = r"
  by (simp add: relay_def default_GetResponse_def)

lemma healthy_kv: "healthy N S D n w d \<Longrightarrow> q \<in> S - D \<Longrightarrow> kv_store (procs w q) = d_kv d"
  by (auto simp: healthy_def replicas_def data_of_def)

lemma healthy_leader: "healthy N S D n w d \<Longrightarrow> q \<in> S - D \<Longrightarrow> leader (procs w q) = d_leader d"
  by (auto simp: healthy_def replicas_def data_of_def)

lemma get_at_leader:
  assumes h: "healthy N S D n w d" and p: "p \<in> S - D"
    and l: "d_leader d = self_address (procs w p)"
  shows "Database_get (Suc fuel) M request False p w =
    Some (update p (count_in ''DatabaseRPC::get'') w, Status_OK, answer_get request (d_kv d))"
proof -
  from h p have "self_address (procs w p) \<noteq> ''''" by (auto simp: healthy_def dest: connectedD(7))
  moreover have "self_address (procs (update p (count_in f) w) p) = self_address (procs w p)" for f
    by (simp add: self_address_def procs_update)
  ultimately show ?thesis
    using healthy_leader [OF h p] healthy_kv [OF h p] l
    by (simp add: Database_get.simps get_step_def Let_def procs_update local_get_answer)
qed

end

