(* ===== verification/Cluster_Spec.thy ===== *)
theory Cluster_Spec
  imports Crash_Cluster
begin

text \<open>
  What the cluster promises its users when processes only crash: it is one map. This theory
  follows a user's \<open>get\<close> and \<open>set\<close> along the three ways a handler can go (at the leader,
  forwarded to a live leader, after an election because the leader is dead), shows that
  three calls deep is as far as a request travels, and then runs whole histories of
  crashes and requests against the abstract map.
\<close>

subsection \<open>Forwarding\<close>

lemma forward_dead:
  assumes "route addr = Some q" and "q \<in> D"
  shows "rpc_forward (crash_net N D) route addr d h w = Some (tick w, unavailable, d)"
  using assms by (simp add: rpc_forward_def)

lemma forward_live:
  assumes "route addr = Some q" and "q \<notin> D" and "h False q (tick w) = Some (w', Status_OK, r)"
  shows "rpc_forward (crash_net N D) route addr d h w = Some (w', Status_OK, r)"
  using assms by (simp add: rpc_forward_def)

lemma healthy_count_in: "healthy N S D n w d \<Longrightarrow> healthy N S D n (update p (count_in s) w) d"
  by (erule healthy_same) (simp_all add: data_simps frame_simps)

lemma healthy_count_out: "healthy N S D n w d \<Longrightarrow> healthy N S D n (update p (count_out s) w) d"
  by (erule healthy_same) (simp_all add: data_simps frame_simps)

lemma healthy_tick: "healthy N S D n w d \<Longrightarrow> healthy N S D n (tick w) d"
  by (erule healthy_same) simp_all

lemma healthy_mono: "healthy N S D n w d \<Longrightarrow> n \<le> m \<Longrightarrow> healthy N S D m w d"
  by (fastforce simp: healthy_def bounded_def intro: le_trans)

text \<open>The leader of a healthy cluster, and where its name leads.\<close>

lemma healthy_route:
  assumes "healthy N S D n w d" and "p \<in> S - D"
  obtains q node where "q \<in> S" "d_leader d = self_address (procs w q)"
    "leader (procs w p) = self_address (procs w q)" "self_address (procs w q) \<noteq> ''''"
    "map_of (memberList (procs w p)) (self_address (procs w q)) = Some node"
    "database_route N (databaseEndpoint node) = Some q"
    "self_address (procs w q) = self_address (procs w p) \<longleftrightarrow> q = p"
proof -
  from assms(1) have con: "connected N S w" by (simp add: healthy_def)
  from assms(1) obtain q where q: "q \<in> S" "d_leader d = self_address (procs w q)"
    by (auto simp: healthy_def)
  from assms(2) have p: "p \<in> S" by simp
  from connected_lookup [OF con p q(1)] obtain node where
    "map_of (memberList (procs w p)) (self_address (procs w q)) = Some node"
    "database_route N (databaseEndpoint node) = Some q" by blast
  moreover have "leader (procs w p) = self_address (procs w q)"
    using healthy_leader [OF assms] q(2) by simp
  moreover have "self_address (procs w q) = self_address (procs w p) \<longleftrightarrow> q = p"
    using self_address_inject [OF con q(1) p] by blast
  ultimately show thesis using that q connectedD(7) [OF con q(1)] by blast
qed

lemma update_count_in_simps [simp]:
  "self_address (procs (update p (count_in s) w) q) = self_address (procs w q)"
  "leader (procs (update p (count_in s) w) q) = leader (procs w q)"
  "memberList (procs (update p (count_in s) w) q) = memberList (procs w q)"
  "kv_store (procs (update p (count_in s) w) q) = kv_store (procs w q)"
  by (simp_all add: self_address_def procs_update)

subsection \<open>Reading at any live process\<close>

lemma get_at_leader_healthy:
  fixes request :: GetRequest
  assumes h: "healthy N S D n w d" and p: "p \<in> S - D"
    and l: "d_leader d = self_address (procs w p)"
  shows "\<exists>w'. Database_get (Suc fuel) M request False p w =
      Some (w', Status_OK, answer_get request (d_kv d)) \<and> healthy N S D n w' d \<and>
    d_leader d = self_address (procs w' p)"
  using get_at_leader [OF h p l, of fuel M request] healthy_count_in [OF h] l
  by (metis update_count_in_simps(1))

lemma get_forwarded:
  fixes request :: GetRequest
  assumes h: "healthy N S D n w d" and p: "p \<in> S - D"
    and l: "d_leader d = self_address (procs w p)"
    and route: "database_route N addr = Some p"
  shows "\<exists>w'. rpc_forward (crash_net N D) (database_route N) addr default_GetResponse
        (\<lambda>c q w. Database_get (Suc fuel) (crash_net N D) \<lparr>get_key = get_key request\<rparr> c q w) w =
      Some (w', Status_OK, answer_get request (d_kv d)) \<and> healthy N S D n w' d \<and>
    d_leader d = self_address (procs w' p)"
proof -
  have "d_leader d = self_address (procs (tick w) p)" using l by simp
  from get_at_leader_healthy [OF healthy_tick [OF h] p this, of fuel "crash_net N D"
      "\<lparr>get_key = get_key request\<rparr>"]
  obtain w' where w': "Database_get (Suc fuel) (crash_net N D) \<lparr>get_key = get_key request\<rparr> False p
      (tick w) = Some (w', Status_OK, answer_get request (d_kv d))" "healthy N S D n w' d"
    "d_leader d = self_address (procs w' p)"
    by (auto simp: answer_get_def)
  have "p \<notin> D" using p by simp
  from forward_live [where route = "database_route N" and h = "\<lambda>c q w. Database_get (Suc fuel)
      (crash_net N D) \<lparr>get_key = get_key request\<rparr> c q w", OF route this w'(1)] w'(2,3)
  show ?thesis by blast
qed

text \<open>After an election the initiator is the leader and its own endpoint serves it.\<close>

lemma election_serves:
  assumes h: "healthy N S D n w d" and n: "n < 2 ^ 31" and p: "p \<in> S - D"
  obtains w' d' node where "trigger_election (crash_net N D) p w = (w', Status_OK, ())"
    "healthy N S D (Suc n) w' d'" "d_leader d' = self_address (procs w' p)" "d_kv d' = d_kv d"
    "leader (procs w' p) = self_address (procs w' p)"
    "map_of (memberList (procs w' p)) (self_address (procs w' p)) = Some node"
    "database_route N (databaseEndpoint node) = Some p"
proof -
  obtain w' s u where el: "trigger_election (crash_net N D) p w = (w', s, u)"
    by (cases "trigger_election (crash_net N D) p w")
  let ?r = "election_request (self_address (procs w p))"
  from healthy_election [OF h n p el] have s: "s = Status_OK"
    and h': "healthy N S D (Suc n) w' (commit_data ?r d)" and st: "static w' q = static w q" for q
    by auto
  have a: "self_address (procs w' p) = self_address (procs w p)"
    by (rule self_address_static [OF st])
  have l: "d_leader (commit_data ?r d) = self_address (procs w' p)"
    by (simp add: election_request_def a)
  from healthy_leader [OF h' p] l have lp: "leader (procs w' p) = self_address (procs w' p)" by simp
  from h' have "connected N S w'" by (simp add: healthy_def)
  moreover have "p \<in> S" using p by simp
  ultimately obtain node where
    "map_of (memberList (procs w' p)) (self_address (procs w' p)) = Some node"
    "database_route N (databaseEndpoint node) = Some p" by (metis connected_lookup)
  with el s h' l lp show thesis by (intro that [of w' "commit_data ?r d" node])
      (simp_all add: election_request_def)
qed

lemma get_failover_healthy:
  fixes request :: GetRequest
  assumes h: "healthy N S D n w d" and n: "n < 2 ^ 31" and p: "p \<in> S - D"
  shows "\<exists>w' d'. get_failover (crash_net N D)
       (\<lambda>addr w. rpc_forward (crash_net N D) (database_route (crash_net N D)) addr
          default_GetResponse (\<lambda>c q w. Database_get (Suc fuel) (crash_net N D)
             \<lparr>get_key = get_key request\<rparr> c q w) w) p w =
      Some (w', Status_OK, answer_get request (d_kv d)) \<and>
    healthy N S D (Suc n) w' d' \<and> d_kv d' = d_kv d \<and> d_leader d' = self_address (procs w' p)"
proof -
  from election_serves [OF assms] obtain w1 d1 node where
    el: "trigger_election (crash_net N D) p w = (w1, Status_OK, ())"
    and h1: "healthy N S D (Suc n) w1 d1" and l: "d_leader d1 = self_address (procs w1 p)"
    and kv: "d_kv d1 = d_kv d" and lp: "leader (procs w1 p) = self_address (procs w1 p)"
    and node: "map_of (memberList (procs w1 p)) (self_address (procs w1 p)) = Some node"
    and route: "database_route N (databaseEndpoint node) = Some p" by blast
  from get_forwarded [OF h1 p l route, of fuel request] obtain w2 where
    "rpc_forward (crash_net N D) (database_route N) (databaseEndpoint node) default_GetResponse
        (\<lambda>c q w. Database_get (Suc fuel) (crash_net N D) \<lparr>get_key = get_key request\<rparr> c q w) w1 =
      Some (w2, Status_OK, answer_get request (d_kv d1))" "healthy N S D (Suc n) w2 d1"
    "d_leader d1 = self_address (procs w2 p)" by blast
  with kv show ?thesis
    by (intro exI [of _ w2] exI [of _ d1]) (simp add: get_failover_def el lp node)
qed

text \<open>Afterwards the leader that all live processes name is alive, too.\<close>

definition live_leader :: "nat set \<Rightarrow> World \<Rightarrow> Data \<Rightarrow> bool" where
  "live_leader L w d \<longleftrightarrow> (\<exists>l \<in> L. d_leader d = self_address (procs w l))"

lemma get_cluster:
  fixes request :: GetRequest
  assumes h: "healthy N S D n w d" and n: "n < 2 ^ 31" and p: "p \<in> S - D"
  shows "\<exists>w' d'. Database_get (Suc (Suc fuel)) (crash_net N D) request False p w =
      Some (w', Status_OK, answer_get request (d_kv d)) \<and>
    healthy N S D (Suc n) w' d' \<and> d_kv d' = d_kv d \<and> live_leader (S - D) w' d'"
proof -
  let ?w = "update p (count_in ''DatabaseRPC::get'') w"
  have h1: "healthy N S D n ?w d" by (rule healthy_count_in [OF h])
  from healthy_route [OF h p] obtain q node where q: "q \<in> S"
    "d_leader d = self_address (procs w q)" "leader (procs w p) = self_address (procs w q)"
    "self_address (procs w q) \<noteq> ''''"
    "map_of (memberList (procs w p)) (self_address (procs w q)) = Some node"
    "database_route N (databaseEndpoint node) = Some q"
    "self_address (procs w q) = self_address (procs w p) \<longleftrightarrow> q = p" by blast
  consider (self) "q = p" | (live) "q \<noteq> p" "q \<notin> D" | (dead) "q \<noteq> p" "q \<in> D" by blast
  then show ?thesis
  proof cases
    case self
    with q(2) get_at_leader_healthy [OF h p, of "Suc fuel"] healthy_mono [of N S D n _ d "Suc n"]
      p
    show ?thesis unfolding live_leader_def by (metis le_SucI order_refl)
  next
    case live
    then have qL: "q \<in> S - D" using q(1) by simp
    have "d_leader d = self_address (procs ?w q)" using q(2) by simp
    from get_forwarded [OF h1 qL this q(6), of fuel request] obtain w' where
      "rpc_forward (crash_net N D) (database_route N) (databaseEndpoint node) default_GetResponse
        (\<lambda>c q w. Database_get (Suc fuel) (crash_net N D) \<lparr>get_key = get_key request\<rparr> c q w) ?w =
       Some (w', Status_OK, answer_get request (d_kv d))" "healthy N S D n w' d"
      "d_leader d = self_address (procs w' q)" by blast
    moreover from this qL have "live_leader (S - D) w' d" unfolding live_leader_def by blast
    ultimately show ?thesis
      unfolding Database_get.simps(2) [of "Suc fuel"] using live q
      by (intro exI [of _ w'] exI [of _ d]) (simp add: get_step_def Let_def healthy_mono)
  next
    case dead
    from get_failover_healthy [OF healthy_tick [OF h1] n p, of fuel request] dead q p
    show ?thesis
      unfolding Database_get.simps(2) [of "Suc fuel"] live_leader_def
      by (simp add: get_step_def Let_def forward_dead) blast
  qed
qed

subsection \<open>Writing at any live process\<close>

definition client_write :: "SetRequest \<Rightarrow> Data \<Rightarrow> Data" where
  "client_write request d = commit_data (set_request request) d"

lemma client_write_simps [simp]:
  "set_key request \<noteq> ''leader'' \<Longrightarrow>
    d_kv (client_write request d) = Set_KV (set_key request) (set_value request) (d_kv d)"
  "set_key request \<noteq> ''leader'' \<Longrightarrow> d_leader (client_write request d) = d_leader d"
  by (simp_all add: client_write_def set_request_def)

lemma set_at_leader:
  fixes request :: SetRequest
  assumes h: "healthy N S D n w d" and n: "n < 2 ^ 31" and p: "p \<in> S - D"
    and l: "d_leader d = self_address (procs w p)" and key: "set_key request \<noteq> ''leader''"
  shows "\<exists>w'. Database_set (Suc fuel) (crash_net N D) request False p w = Some (w', Status_OK, ())
    \<and> healthy N S D (Suc n) w' (client_write request d)
    \<and> d_leader (client_write request d) = self_address (procs w' p)"
proof -
  let ?w = "update p (count_in ''DatabaseRPC::set'') w"
  obtain w' s response where
    att: "AttemptConsensus (crash_net N D) p (set_request request) ?w = (w', s, response)"
    by (cases "AttemptConsensus (crash_net N D) p (set_request request) ?w")
  from healthy_attempt [OF healthy_count_in [OF h] n p att] key
  have s: "s = Status_OK" "healthy N S D (Suc n) w' (client_write request d)"
    and st: "static w' p = static ?w p" by (simp_all add: set_request_def client_write_def)
  have "self_address (procs w' p) = self_address (procs ?w p)" using st by (rule self_address_static)
  with l key have led: "d_leader (client_write request d) = self_address (procs w' p)" by simp
  from h p have "self_address (procs w p) \<noteq> ''''" by (auto simp: healthy_def dest: connectedD(7))
  with att s healthy_leader [OF h p] l led show ?thesis
    by (intro exI [of _ w']) (simp add: Database_set.simps(2) set_step_def Let_def)
qed

lemma set_forwarded:
  fixes request :: SetRequest
  assumes h: "healthy N S D n w d" and n: "n < 2 ^ 31" and p: "p \<in> S - D"
    and l: "d_leader d = self_address (procs w p)" and key: "set_key request \<noteq> ''leader''"
    and route: "database_route N addr = Some p"
  shows "\<exists>w'. rpc_forward (crash_net N D) (database_route N) addr ()
        (\<lambda>c q w. Database_set (Suc fuel) (crash_net N D)
           \<lparr>set_key = set_key request, set_value = set_value request\<rparr> c q w) w =
      Some (w', Status_OK, ()) \<and> healthy N S D (Suc n) w' (client_write request d) \<and>
    d_leader (client_write request d) = self_address (procs w' p)"
proof -
  have "d_leader d = self_address (procs (tick w) p)" using l by simp
  from set_at_leader [OF healthy_tick [OF h] n p this, of
      "\<lparr>set_key = set_key request, set_value = set_value request\<rparr>" fuel] key
  obtain w' where w': "Database_set (Suc fuel) (crash_net N D)
      \<lparr>set_key = set_key request, set_value = set_value request\<rparr> False p (tick w) =
      Some (w', Status_OK, ())" "healthy N S D (Suc n) w' (client_write request d)"
      "d_leader (client_write request d) = self_address (procs w' p)"
    by (auto simp: client_write_def set_request_def)
  have "p \<notin> D" using p by simp
  from forward_live [where route = "database_route N" and h = "\<lambda>c q w. Database_set (Suc fuel)
      (crash_net N D) \<lparr>set_key = set_key request, set_value = set_value request\<rparr> c q w",
      OF route this w'(1)] w'(2,3)
  show ?thesis by blast
qed

lemma set_failover_healthy:
  fixes request :: SetRequest
  assumes h: "healthy N S D n w d" and n: "Suc n < 2 ^ 31" and p: "p \<in> S - D"
    and key: "set_key request \<noteq> ''leader''"
  shows "\<exists>w' d'. set_failover (crash_net N D)
       (\<lambda>addr w. rpc_forward (crash_net N D) (database_route (crash_net N D)) addr ()
          (\<lambda>c q w. Database_set (Suc fuel) (crash_net N D)
             \<lparr>set_key = set_key request, set_value = set_value request\<rparr> c q w) w) p w =
      Some (w', Status_OK, ()) \<and> healthy N S D (n + 2) w' d' \<and>
    d_kv d' = Set_KV (set_key request) (set_value request) (d_kv d) \<and>
    d_leader d' = self_address (procs w' p)"
proof -
  from n have "n < 2 ^ 31" by simp
  from election_serves [OF h this p] obtain w1 d1 node where
    el: "trigger_election (crash_net N D) p w = (w1, Status_OK, ())"
    and h1: "healthy N S D (Suc n) w1 d1" and l: "d_leader d1 = self_address (procs w1 p)"
    and kv: "d_kv d1 = d_kv d" and lp: "leader (procs w1 p) = self_address (procs w1 p)"
    and node: "map_of (memberList (procs w1 p)) (self_address (procs w1 p)) = Some node"
    and route: "database_route N (databaseEndpoint node) = Some p" by blast
  from set_forwarded [OF h1 n p l key route, of fuel] obtain w2 where
    "rpc_forward (crash_net N D) (database_route N) (databaseEndpoint node) ()
        (\<lambda>c q w. Database_set (Suc fuel) (crash_net N D)
           \<lparr>set_key = set_key request, set_value = set_value request\<rparr> c q w) w1 =
      Some (w2, Status_OK, ())" "healthy N S D (Suc (Suc n)) w2 (client_write request d1)"
    "d_leader (client_write request d1) = self_address (procs w2 p)" by blast
  with kv key show ?thesis
    by (intro exI [of _ w2] exI [of _ "client_write request d1"])
      (simp add: set_failover_def el lp node)
qed

lemma set_cluster:
  fixes request :: SetRequest
  assumes h: "healthy N S D n w d" and n: "Suc n < 2 ^ 31" and p: "p \<in> S - D"
    and key: "set_key request \<noteq> ''leader''"
  shows "\<exists>w' d'. Database_set (Suc (Suc fuel)) (crash_net N D) request False p w =
      Some (w', Status_OK, ()) \<and> healthy N S D (n + 2) w' d' \<and>
    d_kv d' = Set_KV (set_key request) (set_value request) (d_kv d) \<and> live_leader (S - D) w' d'"
proof -
  let ?w = "update p (count_in ''DatabaseRPC::set'') w"
  have h1: "healthy N S D n ?w d" by (rule healthy_count_in [OF h])
  from n have n': "n < 2 ^ 31" by simp
  from healthy_route [OF h p] obtain q node where q: "q \<in> S"
    "d_leader d = self_address (procs w q)" "leader (procs w p) = self_address (procs w q)"
    "self_address (procs w q) \<noteq> ''''"
    "map_of (memberList (procs w p)) (self_address (procs w q)) = Some node"
    "database_route N (databaseEndpoint node) = Some q"
    "self_address (procs w q) = self_address (procs w p) \<longleftrightarrow> q = p" by blast
  have kv: "d_kv (client_write request d) = Set_KV (set_key request) (set_value request) (d_kv d)"
    using key by simp
  consider (self) "q = p" | (live) "q \<noteq> p" "q \<notin> D" | (dead) "q \<noteq> p" "q \<in> D" by blast
  then show ?thesis
  proof cases
    case self
    with q(2) have "d_leader d = self_address (procs w p)" by simp
    from set_at_leader [OF h n' p this key, of "Suc fuel"] kv p
    show ?thesis
      using healthy_mono [of N S D "Suc n" _ _ "n + 2"] unfolding live_leader_def by fastforce
  next
    case live
    then have qL: "q \<in> S - D" using q(1) by simp
    have "d_leader d = self_address (procs ?w q)" using q(2) by simp
    from set_forwarded [OF h1 n' qL this key q(6), of fuel] obtain w' where
      "rpc_forward (crash_net N D) (database_route N) (databaseEndpoint node) ()
        (\<lambda>c q w. Database_set (Suc fuel) (crash_net N D)
           \<lparr>set_key = set_key request, set_value = set_value request\<rparr> c q w) ?w =
       Some (w', Status_OK, ())" "healthy N S D (Suc n) w' (client_write request d)"
      "d_leader (client_write request d) = self_address (procs w' q)" by blast
    moreover from this qL have "live_leader (S - D) w' (client_write request d)"
      unfolding live_leader_def by blast
    ultimately show ?thesis
      unfolding Database_set.simps(2) [of "Suc fuel"] using live q kv
      by (intro exI [of _ w'] exI [of _ "client_write request d"])
        (simp add: set_step_def Let_def healthy_mono)
  next
    case dead
    from set_failover_healthy [OF healthy_tick [OF h1] n p key, of fuel] dead q p
    show ?thesis
      unfolding Database_set.simps(2) [of "Suc fuel"] live_leader_def
      by (simp add: set_step_def Let_def forward_dead) blast
  qed
qed

end
