(* ===== verification/History.thy ===== *)
theory History
  imports Cluster_Spec
begin

text \<open>
  Whole histories: processes crash one after another while a user process \<open>u\<close> calls
  \<open>get\<close> and \<open>set\<close> through its stubs at any database address. \<open>run\<close> executes a history on
  the model of the code, \<open>spec_run\<close> on the abstract machine: a set of crashed processes
  and one map. The refinement says that the outcomes are the same, as long as half of the
  members are alive at the end and the key reserved for the leader is not written.
\<close>

datatype event =
    Crash nat
  | Client_get string string
  | Client_set string string string

datatype outcome = Crashed | Value string | Result Status

subsection \<open>The model of the code\<close>

fun run_event ::
    "nat \<Rightarrow> Net \<Rightarrow> nat \<Rightarrow> event \<Rightarrow> nat set \<times> World \<Rightarrow> ((nat set \<times> World) \<times> outcome) option" where
  "run_event fuel N u (Crash q) (D, w) = Some ((insert q D, w), Crashed)"
| "run_event fuel N u (Client_get addr key) (D, w) =
     (case stub_get fuel (crash_net N D) u addr key w of
        None \<Rightarrow> None
      | Some (w', v) \<Rightarrow> Some ((D, w'), Value v))"
| "run_event fuel N u (Client_set addr key v) (D, w) =
     (case stub_set fuel (crash_net N D) u addr key v w of
        None \<Rightarrow> None
      | Some (w', s) \<Rightarrow> Some ((D, w'), Result s))"

fun run ::
    "nat \<Rightarrow> Net \<Rightarrow> nat \<Rightarrow> event list \<Rightarrow> nat set \<times> World \<Rightarrow>
     ((nat set \<times> World) \<times> outcome list) option" where
  "run fuel N u [] st = Some (st, [])"
| "run fuel N u (e # es) st =
     (case run_event fuel N u e st of
        None \<Rightarrow> None
      | Some (st', out) \<Rightarrow>
          (case run fuel N u es st' of
             None \<Rightarrow> None
           | Some (st'', outs) \<Rightarrow> Some (st'', out # outs)))"

subsection \<open>The abstract machine\<close>

definition serving :: "Net \<Rightarrow> nat set \<Rightarrow> string \<Rightarrow> bool" where
  "serving N D addr =
     (case database_route N addr of None \<Rightarrow> False | Some q \<Rightarrow> q \<notin> D)"

type_synonym spec_state = "nat set \<times> (string \<Rightarrow> string option)"

fun spec_event :: "Net \<Rightarrow> event \<Rightarrow> spec_state \<Rightarrow> spec_state \<times> outcome" where
  "spec_event N (Crash q) (D, m) = ((insert q D, m), Crashed)"
| "spec_event N (Client_get addr key) (D, m) =
     ((D, m), Value (if serving N D addr then (case m key of None \<Rightarrow> '''' | Some v \<Rightarrow> v)
                     else ''RPC failed !''))"
| "spec_event N (Client_set addr key v) (D, m) =
     (if serving N D addr then ((D, m(key \<mapsto> v)), Result Status_OK)
      else ((D, m), Result unavailable))"

fun spec_run :: "Net \<Rightarrow> event list \<Rightarrow> spec_state \<Rightarrow> spec_state \<times> outcome list" where
  "spec_run N [] st = (st, [])"
| "spec_run N (e # es) st =
     (case spec_event N e st of
        (st', out) \<Rightarrow> (case spec_run N es st' of (st'', outs) \<Rightarrow> (st'', out # outs)))"

text \<open>The members a history crashes, and the events it may contain.\<close>

fun crashes :: "event list \<Rightarrow> nat set" where
  "crashes [] = {}"
| "crashes (Crash q # es) = insert q (crashes es)"
| "crashes (_ # es) = crashes es"

fun event_ok :: "Net \<Rightarrow> nat set \<Rightarrow> event \<Rightarrow> bool" where
  "event_ok N S (Crash q) = True"
| "event_ok N S (Client_get addr key) =
     (case database_route N addr of None \<Rightarrow> True | Some q \<Rightarrow> q \<in> S)"
| "event_ok N S (Client_set addr key v) =
     (key \<noteq> ''leader'' \<and>
      (case database_route N addr of None \<Rightarrow> True | Some q \<Rightarrow> q \<in> S))"

subsection \<open>Refinement\<close>

lemma healthy_crash:
  assumes h: "healthy N S D n w d" and maj: "card S \<le> 2 * card (S - insert q D)"
  shows "healthy N S (insert q D) n w d"
  using assms by (auto simp: healthy_def replicas_def)

lemma unreachable_forward:
  assumes "\<not> serving N D addr"
  shows "rpc_forward (crash_net N D) (database_route N) addr d h w = Some (tick w, unavailable, d)"
  using assms by (auto simp: rpc_forward_def serving_def split: option.splits)

lemma map_of_Set_KV: "map_of (Set_KV k v kv) = (map_of kv)(k \<mapsto> v)"
  by (auto simp: Set_KV_def fun_eq_iff)

lemma get_value_answer:
  "get_value (answer_get \<lparr>get_key = key\<rparr> kv) = (case map_of kv key of None \<Rightarrow> '''' | Some v \<Rightarrow> v)"
  by (simp add: answer_get_def split: option.split)

text \<open>\<open>rel\<close> relates the two machines: a healthy cluster whose store is the map.\<close>

definition rel :: "Net \<Rightarrow> nat set \<Rightarrow> nat \<Rightarrow> nat set \<times> World \<Rightarrow> spec_state \<Rightarrow> bool" where
  "rel N S n st a \<longleftrightarrow> fst a = fst st \<and>
     (\<exists>d. healthy N S (fst st) n (snd st) d \<and> snd a = map_of (d_kv d))"

text \<open>What a user sees of a reachable process.\<close>

lemma user_get:
  assumes h: "healthy N S D n w d" and n: "n < 2 ^ 31" and a: "serving N D addr"
    and q: "\<forall>q. database_route N addr = Some q \<longrightarrow> q \<in> S"
  shows "\<exists>w' d'. stub_get (Suc (Suc fuel)) (crash_net N D) u addr key w =
      Some (w', case map_of (d_kv d) key of None \<Rightarrow> '''' | Some v \<Rightarrow> v) \<and>
    healthy N S D (n + 2) w' d' \<and> d_kv d' = d_kv d"
proof -
  have h1: "healthy N S D n (tick (update u (count_out ''DatabaseRPCWrapperCall::get'') w)) d"
    by (intro healthy_tick healthy_count_out h)
  from a obtain p where p: "database_route N addr = Some p" "p \<notin> D"
    by (auto simp: serving_def split: option.splits)
  with q have "p \<in> S - D" by simp
  from get_cluster [OF h1 n this, of fuel "\<lparr>get_key = key\<rparr>"]
  obtain w' d' where res: "Database_get (Suc (Suc fuel)) (crash_net N D) \<lparr>get_key = key\<rparr> False p
      (tick (update u (count_out ''DatabaseRPCWrapperCall::get'') w)) =
        Some (w', Status_OK, answer_get \<lparr>get_key = key\<rparr> (d_kv d))"
    and h': "healthy N S D (Suc n) w' d'" "d_kv d' = d_kv d" by blast
  have "stub_get (Suc (Suc fuel)) (crash_net N D) u addr key w =
      Some (w', get_value (answer_get \<lparr>get_key = key\<rparr> (d_kv d)))"
    using forward_live [where route = "database_route N" and h = "\<lambda>c q w. Database_get
        (Suc (Suc fuel)) (crash_net N D) \<lparr>get_key = key\<rparr> c q w", OF p res]
    by (simp add: stub_get_def)
  moreover have "healthy N S D (n + 2) w' d'" using h'(1) healthy_mono by fastforce
  ultimately show ?thesis using h'(2) by (auto simp: get_value_answer)
qed

lemma user_set:
  assumes h: "healthy N S D n w d" and n: "Suc n < 2 ^ 31" and a: "serving N D addr"
    and q: "\<forall>q. database_route N addr = Some q \<longrightarrow> q \<in> S" and key: "key \<noteq> ''leader''"
  shows "\<exists>w' d'. stub_set (Suc (Suc fuel)) (crash_net N D) u addr key v w = Some (w', Status_OK) \<and>
    healthy N S D (n + 2) w' d' \<and> d_kv d' = Set_KV key v (d_kv d)"
proof -
  have h1: "healthy N S D n (tick (update u (count_out ''DatabaseRPCWrapperCall::set'') w)) d"
    by (intro healthy_tick healthy_count_out h)
  from a obtain p where p: "database_route N addr = Some p" "p \<notin> D"
    by (auto simp: serving_def split: option.splits)
  with q have "p \<in> S - D" by simp
  with set_cluster [OF h1 n this, of "\<lparr>set_key = key, set_value = v\<rparr>" fuel] key
  obtain w' d' where res: "Database_set (Suc (Suc fuel)) (crash_net N D)
      \<lparr>set_key = key, set_value = v\<rparr> False p
      (tick (update u (count_out ''DatabaseRPCWrapperCall::set'') w)) = Some (w', Status_OK, ())"
    and h': "healthy N S D (n + 2) w' d'" "d_kv d' = Set_KV key v (d_kv d)" by auto
  have "stub_set (Suc (Suc fuel)) (crash_net N D) u addr key v w = Some (w', Status_OK)"
    using forward_live [where route = "database_route N" and h = "\<lambda>c q w. Database_set
        (Suc (Suc fuel)) (crash_net N D) \<lparr>set_key = key, set_value = v\<rparr> c q w", OF p res]
    by (simp add: stub_set_def)
  then show ?thesis using h' by blast
qed

lemma rel_step:
  assumes r: "rel N S n st a" and n: "Suc n < 2 ^ 31" and e: "event_ok N S e"
    and maj: "card S \<le> 2 * card (S - (fst st \<union> crashes [e]))"
  shows "\<exists>st'. run_event (Suc (Suc fuel)) N u e st = Some (st', snd (spec_event N e a)) \<and>
    fst st' = fst st \<union> crashes [e] \<and> rel N S (n + 2) st' (fst (spec_event N e a))"
proof -
  obtain D w where st: "st = (D, w)" by (cases st)
  from r obtain d where a: "a = (D, map_of (d_kv d))" and h: "healthy N S D n w d"
    by (cases a) (auto simp: rel_def st)
  have later: "healthy N S D (n + 2) (tick (update u (count_out c) w)) d" for c
    by (rule healthy_mono [OF healthy_tick [OF healthy_count_out [OF h]]]) simp
  show ?thesis
  proof (cases e)
    case (Crash q)
    with maj have "card S \<le> 2 * card (S - insert q D)" by (simp add: st)
    then have "healthy N S (insert q D) (n + 2) w d"
      using healthy_mono [OF healthy_crash [OF h]] by simp
    then show ?thesis by (auto simp: Crash st a rel_def)
  next
    case (Client_get addr key)
    show ?thesis
    proof (cases "serving N D addr")
      case False
      with later show ?thesis
        by (fastforce simp: Client_get st a rel_def stub_get_def unreachable_forward)
    next
      case True
      have "\<forall>q. database_route N addr = Some q \<longrightarrow> q \<in> S" using e Client_get by auto
      with user_get [OF h Suc_lessD [OF n] True] obtain w' d' where
        "stub_get (Suc (Suc fuel)) (crash_net N D) u addr key w =
          Some (w', case map_of (d_kv d) key of None \<Rightarrow> '''' | Some v \<Rightarrow> v)"
        "healthy N S D (n + 2) w' d'" "d_kv d' = d_kv d" by blast
      with True show ?thesis by (auto simp: Client_get st a rel_def)
    qed
  next
    case (Client_set addr key v)
    show ?thesis
    proof (cases "serving N D addr")
      case False
      with later show ?thesis
        by (fastforce simp: Client_set st a rel_def stub_set_def unreachable_forward)
    next
      case True
      have "\<forall>q. database_route N addr = Some q \<longrightarrow> q \<in> S" "key \<noteq> ''leader''"
        using e Client_set by auto
      with user_set [OF h n True] obtain w' d' where
        "stub_set (Suc (Suc fuel)) (crash_net N D) u addr key v w = Some (w', Status_OK)"
        "healthy N S D (n + 2) w' d'" "d_kv d' = Set_KV key v (d_kv d)" by blast
      with True show ?thesis by (auto simp: Client_set st a rel_def map_of_Set_KV)
    qed
  qed
qed

lemma crashes_Cons: "crashes (e # es) = crashes [e] \<union> crashes es"
  by (cases e) auto

lemma rel_run:
  assumes "rel N S n st a" and "n + 2 * length es < 2 ^ 31" and "\<forall>e \<in> set es. event_ok N S e"
    and "card S \<le> 2 * card (S - (fst st \<union> crashes es))" and "finite S"
  shows "\<exists>st'. run (Suc (Suc fuel)) N u es st = Some (st', snd (spec_run N es a)) \<and>
    rel N S (n + 2 * length es) st' (fst (spec_run N es a))"
  using assms
proof (induction es arbitrary: n st a)
  case Nil
  then show ?case by simp
next
  case (Cons e es)
  have "card (S - (fst st \<union> crashes (e # es))) \<le> card (S - (fst st \<union> crashes [e]))"
    using Cons.prems(5) by (intro card_mono) (auto simp: crashes_Cons [of e es])
  with Cons.prems(4) have "card S \<le> 2 * card (S - (fst st \<union> crashes [e]))" by simp
  with rel_step [of N S n st a e fuel u] Cons.prems(1-3)
  obtain st1 where s1: "run_event (Suc (Suc fuel)) N u e st = Some (st1, snd (spec_event N e a))"
    "fst st1 = fst st \<union> crashes [e]" "rel N S (n + 2) st1 (fst (spec_event N e a))" by auto
  have "card S \<le> 2 * card (S - (fst st1 \<union> crashes es))"
    using Cons.prems(4) by (simp add: s1(2) crashes_Cons [of e es] Un_assoc)
  from Cons.IH [OF s1(3) _ _ this Cons.prems(5)] Cons.prems(2,3)
  obtain st2 where s2: "run (Suc (Suc fuel)) N u es st1 =
      Some (st2, snd (spec_run N es (fst (spec_event N e a))))"
    "rel N S (n + 2 + 2 * length es) st2 (fst (spec_run N es (fst (spec_event N e a))))" by auto
  then show ?case
    by (intro exI [of _ st2]) (simp add: s1(1) case_prod_beta add.assoc)
qed

end
