(* ===== verification/Startup.thy ===== *)
theory Startup
  imports Crash_Cluster
begin

text \<open>
  From the command line to a cluster: \<open>initializeStaticInstance\<close> at every process gives
  the member lists that \<open>connected\<close> asks for, and \<open>coordinate\<close> lets a process that starts
  late adopt the leader the others agree on and copy its store.
\<close>

subsection \<open>Addresses as strings\<close>

lemma colon_split:
  assumes "xs @ '':'' @ as = ys @ '':'' @ bs" and "CHR '':'' \<notin> set as" and "CHR '':'' \<notin> set bs"
  shows "xs = ys \<and> as = bs"
proof -
  have eq: "rev as @ CHR '':'' # rev xs = rev bs @ CHR '':'' # rev ys"
    using arg_cong [OF assms(1), of rev] by simp
  moreover have "takeWhile (\<lambda>c. c \<noteq> CHR '':'') (rev as @ CHR '':'' # rev xs) = rev as"
    using assms(2) by (subst takeWhile_append2) auto
  moreover have "takeWhile (\<lambda>c. c \<noteq> CHR '':'') (rev bs @ CHR '':'' # rev ys) = rev bs"
    using assms(3) by (subst takeWhile_append2) auto
  ultimately have "rev as = rev bs" by metis
  with eq show ?thesis by simp
qed

lemma toString_inject: "toString a = toString b \<longleftrightarrow> a = b"
proof
  assume "toString a = toString b"
  then have "address a = address b \<and> to_string (unat (port a)) = to_string (unat (port b))"
    unfolding toString_def by (intro colon_split) (simp_all add: to_string_no_colon)
  then have "address a = address b \<and> port a = port b"
    by (auto dest: to_string_inject simp: word_unat_eq_iff)
  then show "a = b" by simp
qed simp

lemma toString_not_Nil [simp]: "toString a \<noteq> ''''"
  by (simp add: toString_def)

lemma member_node_inject: "member_node a = member_node b \<longleftrightarrow> a = b"
  by (auto simp: member_node_def toString_inject)

subsection \<open>The member list\<close>

lemma smap_ok_insert_members: "smap_ok (insert_members l)"
proof -
  have "smap_ok m \<Longrightarrow> smap_ok (fold (\<lambda>a. smap_emplace (toString a) (member_node a)) l m)" for m
    by (induction l arbitrary: m) simp_all
  then show ?thesis by (simp add: insert_members_def)
qed

lemma map_of_insert_members:
  "map_of (insert_members l) k = Some node \<longleftrightarrow> (\<exists>a \<in> set l. k = toString a \<and> node = member_node a)"
proof -
  have "map_of (fold (\<lambda>a. smap_emplace (toString a) (member_node a)) l m) k = Some node \<longleftrightarrow>
      map_of m k = Some node \<or>
      map_of m k = None \<and> (\<exists>a \<in> set l. k = toString a \<and> node = member_node a)" for m
    by (induction l arbitrary: m) (auto simp: toString_inject)
  then show ?thesis by (simp add: insert_members_def)
qed

lemma insert_members_set:
  "set (insert_members l) = (\<lambda>a. (toString a, member_node a)) ` set l"
  using map_of_insert_members [of l] smap_in_iff [OF smap_ok_insert_members, of _ _ l]
  by auto

lemma insert_members_length:
  assumes "distinct l"
  shows "length (insert_members l) = length l"
proof -
  have "distinct (insert_members l)"
    using smap.distinct_keys [OF smap_ok_insert_members, of l] by (simp add: distinct_map)
  then have "length (insert_members l) = card (set (insert_members l))"
    by (simp add: distinct_card)
  also have "\<dots> = card (set l)"
    unfolding insert_members_set by (rule card_image) (simp add: inj_on_def toString_inject)
  also have "\<dots> = length l" by (rule distinct_card [OF assms])
  finally show ?thesis .
qed

subsection \<open>A cluster after start-up\<close>

text \<open>The transport delivers to process \<open>i\<close> what is sent to the \<open>i\<close>-th address, where \<open>main\<close> starts
  its consensus server, and what is sent to the port 1000 above it on the same host, where its
  database server listens by the convention that \<open>member_node\<close> relies on. The addresses are
  written out here, so that the entries of the member list have to agree with them.\<close>

definition listening :: "Net \<Rightarrow> Address list \<Rightarrow> bool" where
  "listening N as \<longleftrightarrow> (\<forall>i < length as.
     consensus_route N (toString (as ! i)) = Some i \<and>
     database_route N (address (as ! i) @ '':'' @ to_string (unat (port (as ! i)) + 1000)) = Some i)"

lemma listening_members:
  assumes "listening N as" and "i < length as"
  shows "routed N (member_node (as ! i)) = Some i"
    and "database_route N (databaseEndpoint (member_node (as ! i))) = Some i"
  using assms by (simp_all add: listening_def routed_def member_node_def)

definition started ::
    "(string \<Rightarrow> string list) \<Rightarrow> (string \<Rightarrow> 16 word option) \<Rightarrow> Address list \<Rightarrow> World \<Rightarrow> bool" where
  "started split cast as w \<longleftrightarrow> (\<forall>i < length as. \<exists>c P.
     getAddress Consensus_Service c = as ! i \<and> \<not> flag_local_ubuntu (flag c) \<and>
     initializeStaticInstance split cast (map toString as) c P = Inr (procs w i))"

text \<open>What the library functions do on the addresses of the cluster.\<close>

definition tokenizes ::
    "(string \<Rightarrow> string list) \<Rightarrow> (string \<Rightarrow> 16 word option) \<Rightarrow> Address \<Rightarrow> bool" where
  "tokenizes split cast a \<longleftrightarrow>
     split (toString a) = [address a, to_string (unat (port a))] \<and>
     cast (to_string (unat (port a))) = Some (port a)"

lemma make_address_toString: "tokenizes split cast a \<Longrightarrow> make_address split cast (toString a) = Inr a"
  by (simp add: tokenizes_def make_address_def)

lemma make_addresses_toString:
  "\<forall>a \<in> set as. tokenizes split cast a \<Longrightarrow> make_addresses split cast (map toString as) = Inr as"
  by (induction as) (simp_all add: make_address_toString)

lemma initialize_member:
  assumes "\<forall>a \<in> set as. tokenizes split cast a" and "\<not> flag_local_ubuntu (flag c)"
    and "getAddress Consensus_Service c \<in> set as"
    and "initializeStaticInstance split cast (map toString as) c P = Inr P'"
  shows "config P' = c" "memberList P' = insert_members as" "leader P' = ''''"
    "currentNode P' = member_node (getAddress Consensus_Service c)"
    "pax_log P' = pax_log P" "kv_store P' = kv_store P"
proof -
  have "map_of (insert_members as) (toString (getAddress Consensus_Service c)) =
      Some (member_node (getAddress Consensus_Service c))"
    unfolding map_of_insert_members using assms(3) by blast
  with assms(2,4) show "config P' = c" "memberList P' = insert_members as" "leader P' = ''''"
    "currentNode P' = member_node (getAddress Consensus_Service c)"
    "pax_log P' = pax_log P" "kv_store P' = kv_store P"
    by (auto simp: initializeStaticInstance_def make_addresses_toString [OF assms(1)]
        local_address_def Let_def)
qed

lemma initialize_total:
  assumes "\<forall>a \<in> set as. tokenizes split cast a" and "\<not> flag_local_ubuntu (flag c)"
    and "getAddress Consensus_Service c \<in> set as"
  shows "\<exists>P'. initializeStaticInstance split cast (map toString as) c P = Inr P'"
  using assms(2)
  by (simp add: initializeStaticInstance_def make_addresses_toString [OF assms(1)]
      local_address_def Let_def)

lemma set_member_pids:
  assumes "listening N as"
  shows "set (reached (routed N) (map snd (insert_members as))) = {..<length as}"
proof -
  have "set (map snd (insert_members as)) = member_node ` set as"
    by (simp add: insert_members_set image_image)
  then have "set (reached (routed N) (map snd (insert_members as))) =
      {q. \<exists>a \<in> set as. routed N (member_node a) = Some q}"
    by (simp add: set_reached)
  also have "\<dots> = {q. \<exists>i < length as. routed N (member_node (as ! i)) = Some q}"
    by (metis in_set_conv_nth)
  also have "\<dots> = {..<length as}" using listening_members(1) [OF assms] by auto
  finally show ?thesis .
qed

lemma length_reached: "length (reached t nodes) \<le> length nodes"
  by (induction nodes) (auto split: option.split)

definition knows :: "Address list \<Rightarrow> Process \<Rightarrow> Address \<Rightarrow> bool" where
  "knows as P a \<longleftrightarrow> memberList P = insert_members as \<and> currentNode P = member_node a \<and>
     self_address P = toString a"

lemma members_connected:
  assumes P: "\<forall>i < length as. knows as (procs w i) (as ! i)" and net: "listening N as"
    and d: "distinct as" and len: "as \<noteq> []" "length as < 2 ^ 31"
  shows "connected N {..<length as} w"
proof -
  let ?pids = "reached (routed N) (map snd (insert_members as))"
  have len': "length (insert_members as) = length as" by (rule insert_members_length [OF d])
  have set: "set ?pids = {..<length as}" by (rule set_member_pids [OF net])
  have "length as = card (set ?pids)" by (simp add: set)
  also have "\<dots> \<le> length ?pids" by (rule card_length)
  finally have lp: "length ?pids = length as"
    using length_reached [of "routed N" "map snd (insert_members as)"] by (simp add: len')
  then have dist: "distinct ?pids" by (intro card_distinct) (simp add: set)
  have lookup: "map_of (insert_members as) (toString (as ! i)) = Some (member_node (as ! i))"
    if "i < length as" for i
    unfolding map_of_insert_members using that by auto
  show ?thesis
    unfolding connected_def using listening_members [OF net] len dist lp set len' P
    by (auto simp: knows_def lookup cluster_ok_def members_routed_def member_pids_def
        member_nodes_def)
qed

lemma startup_knows:
  assumes "started split cast as w" and "\<forall>a \<in> set as. tokenizes split cast a" and "i < length as"
  shows "knows as (procs w i) (as ! i) \<and> leader (procs w i) = ''''"
proof -
  from assms(1,3) obtain c P where c: "getAddress Consensus_Service c = as ! i"
    "\<not> flag_local_ubuntu (flag c)"
    "initializeStaticInstance split cast (map toString as) c P = Inr (procs w i)"
    by (auto simp: started_def)
  from initialize_member [OF assms(2) c(2) _ c(3)] assms(3) show ?thesis
    by (simp add: knows_def c(1) self_address_def)
qed

subsection \<open>Adopting a leader\<close>

interpretation get_leader_h: handler get_leader "\<lambda>d. d" "\<lambda>d. (Status_OK, d_leader d)"
  by unfold_locales (simp_all add: data_simps frame_simps)

interpretation get_leader_c: crash_service "stub_get_leader (crash_net N D) p" "routed N" "\<lambda>d. d"
  "\<lambda>d. (Status_OK, d_leader d)" D for N D p
  using get_leader_h.rpc_crash_service [OF crash_only_net [of N D]]
  unfolding stub_get_leader_def [abs_def] routed_def [abs_def] crash_net_simps .

lemma get_leader_call:
  assumes "stub_get_leader (crash_net N D) p node w = (w', res)"
  shows "data w' q = data w q" "static w' q = static w q"
    "routed N node = Some x \<Longrightarrow> x \<notin> D \<Longrightarrow> res = (Status_OK, leader (procs w x))"
    "\<not> alive (routed N) D node \<Longrightarrow> \<not> ok (fst res)"
  using get_leader_c.call_once [of N D p node w q] get_leader_c.call_static [of N D p node w q]
    get_leader_c.live_answer [of N node x D w p] get_leader_c.call_dead [of N D node p w q] assms
  by (auto simp: Status_OK_def)

text \<open>The names that the live members give, and the live members.\<close>

definition named :: "Net \<Rightarrow> nat set \<Rightarrow> (string \<times> Node) list \<Rightarrow> World \<Rightarrow> string set" where
  "named N D ms w = {l. l \<noteq> '''' \<and>
     (\<exists>key node x. (key, node) \<in> set ms \<and> routed N node = Some x \<and> x \<notin> D \<and>
        leader (procs w x) = l)}"

definition answering :: "Net \<Rightarrow> nat set \<Rightarrow> (string \<times> Node) list \<Rightarrow> string set" where
  "answering N D ms = fst ` {(key, node). (key, node) \<in> set ms \<and> alive (routed N) D node}"

lemma survey_result:
  assumes "survey (crash_net N D) p ms acc w = (w', acc')"
  shows "(\<forall>q. data w' q = data w q \<and> static w' q = static w q) \<and>
    {k. map_of (leaders acc') k \<noteq> None} = {k. map_of (leaders acc) k \<noteq> None} \<union> named N D ms w \<and>
    {k. map_of (live_replicas acc') k \<noteq> None} =
      {k. map_of (live_replicas acc) k \<noteq> None} \<union> answering N D ms \<and>
    (smap_ok (leaders acc) \<longrightarrow> smap_ok (leaders acc'))"
  using assms
proof (induction ms arbitrary: acc w)
  case Nil
  then show ?case by (simp add: named_def answering_def)
next
  case (Cons m ms)
  obtain key node where m: "m = (key, node)" by (cases m)
  obtain w1 s l where w1: "stub_get_leader (crash_net N D) p node w = (w1, s, l)"
    by (cases "stub_get_leader (crash_net N D) p node w")
  note call = get_leader_call [OF w1]
  have "leader (procs w1 x) = leader (procs w x)" for x
    using arg_cong [where f = d_leader, OF call(1) [of x]] by simp
  then have named: "named N D ms w1 = named N D ms w" by (simp add: named_def)
  from Cons.prems w1 have "survey (crash_net N D) p ms (survey_reply key (s, l) acc) w1 = (w', acc')"
    by (simp add: m)
  note IH = Cons.IH [OF this]
  show ?case
  proof (cases "alive (routed N) D node")
    case True
    then obtain x where x: "routed N node = Some x" "x \<notin> D" by (auto simp: alive_iff)
    with call(3) have sl: "s = Status_OK" "l = leader (procs w x)" by simp_all
    have "named N D (m # ms) w = (if l = '''' then {} else {l}) \<union> named N D ms w"
      using x by (auto simp: named_def m sl)
    moreover have "answering N D (m # ms) = insert key (answering N D ms)"
      using True by (auto simp: answering_def m image_def)
    ultimately show ?thesis
      using IH call(1,2) by (auto simp: survey_reply_def Let_def sl(1) named)
  next
    case False
    with call(4) have "\<not> ok s" by simp
    moreover have "named N D (m # ms) w = named N D ms w"
      using False by (auto simp: named_def m alive_iff)
    moreover have "answering N D (m # ms) = answering N D ms"
      using False by (auto simp: answering_def m image_def)
    ultimately show ?thesis using IH call(1,2) by (simp add: survey_reply_def named)
  qed
qed

lemma singleton_keys:
  assumes "smap_ok (m :: (string, unit) smap)" and "{k. map_of m k \<noteq> None} = {l}"
  shows "length m = 1 \<and> fst (hd m) = l"
proof -
  have "length m = 1" using smap.size_eq_card [OF assms(1)] unfolding assms(2) by simp
  then obtain k u where "m = [(k, u)]" by (cases m) auto
  with assms(2) show ?thesis by (auto split: if_splits)
qed

text \<open>The members that answer name one leader, and it is among them.\<close>

definition agreed :: "Net \<Rightarrow> nat set \<Rightarrow> nat set \<Rightarrow> World \<Rightarrow> nat \<Rightarrow> bool" where
  "agreed N S D w l \<longleftrightarrow> l \<in> S - D \<and>
     (\<forall>q \<in> S - D. leader (procs w q) \<in> {'''', self_address (procs w l)}) \<and>
     (\<exists>q \<in> S - D. leader (procs w q) \<noteq> '''')"

lemma connected_members:
  assumes "connected N S w" and "p \<in> S"
  shows "{x. \<exists>key node. (key, node) \<in> set (memberList (procs w p)) \<and> routed N node = Some x} = S"
proof -
  have "S = set (member_pids N w p)" using connectedD(4) [OF assms] by simp
  then show ?thesis
    unfolding member_pids_def member_nodes_def set_reached by force
qed

lemma find_leader_adopts:
  assumes con: "connected N S w" and p: "p \<in> S" and ag: "agreed N S D w l"
    and flag: "\<not> flag_leader (flag (config (procs w p)))"
    and ok: "smap_ok (memberList (procs w p))"
    and fl: "find_leader (crash_net N D) p w = (w', go_on)"
  shows "go_on \<and> (\<forall>q. static w' q = static w q) \<and>
    (\<forall>q. data w' q = (if q = p then (data w p)\<lparr>d_leader := self_address (procs w l)\<rparr>
                      else data w q))"
proof -
  let ?ms = "memberList (procs w p)" and ?l = "self_address (procs w l)"
  obtain w1 s where w1: "survey (crash_net N D) p ?ms no_survey w = (w1, s)" by fastforce
  note res = survey_result [OF w1]
  from ag have l: "l \<in> S" "l \<notin> D" by (auto simp: agreed_def)
  have "?l \<noteq> ''''" using connectedD(7) [OF con l(1)] .
  have "named N D ?ms w = {?l}"
  proof -
    have "named N D ?ms w = {a. a \<noteq> '''' \<and> (\<exists>x \<in> S - D. leader (procs w x) = a)}"
      unfolding named_def using connected_members [OF con p] by blast
    with ag \<open>?l \<noteq> ''''\<close> show ?thesis by (auto simp: agreed_def)
  qed
  with res have "length (leaders s) = 1 \<and> fst (hd (leaders s)) = ?l"
    by (intro singleton_keys) (simp_all add: no_survey_def)
  moreover have "map_of (live_replicas s) ?l \<noteq> None"
  proof -
    obtain node where node: "map_of ?ms ?l = Some node" "routed N node = Some l"
      using connected_lookup [OF con p l(1)] by blast
    then have "?l \<in> answering N D ?ms"
      using l(2) map_of_SomeD [OF node(1)] by (force simp: answering_def alive_iff)
    with res show ?thesis by blast
  qed
  ultimately have "w' = update p (\<lambda>P. P\<lparr>leader := ?l\<rparr>) w1" "go_on"
    using fl flag by (auto simp: find_leader_def w1)
  with res show ?thesis by (auto simp: data_update_leader)
qed

subsection \<open>Copying the leader's store\<close>

lemma get_db_call:
  assumes "database_route N (databaseEndpoint node) = Some l" and "l \<notin> D"
  shows "\<exists>w'. stub_get_db (crash_net N D) p node w = (w', kv_store (procs w l)) \<and>
    (\<forall>q. data w' q = data w q \<and> static w' q = static w q)"
  using assms
  by (simp add: stub_get_db_def rpc_send_def at_process_def Database_get_db_def Let_def Get_DB_def
      procs_update data_simps frame_simps)

lemma coordinate_adopts:
  assumes con: "connected N S w" and p: "p \<in> S" "p \<noteq> l" and ag: "agreed N S D w l"
    and flag: "\<not> flag_leader (flag (config (procs w p)))"
    and ok: "smap_ok (memberList (procs w p))"
  shows "\<exists>w'. coordinate (crash_net N D) p w = Some w' \<and> (\<forall>q. static w' q = static w q) \<and>
    (\<forall>q. data w' q = (if q = p
       then (data w p)\<lparr>d_leader := self_address (procs w l),
                       d_kv := restore (kv_store (procs w l)) (kv_store (procs w p))\<rparr>
       else data w q))"
proof -
  obtain w1 go_on where fl: "find_leader (crash_net N D) p w = (w1, go_on)" by fastforce
  from find_leader_adopts [OF con p(1) ag flag ok fl] have go: "go_on"
    and st: "\<And>q. static w1 q = static w q"
    and d: "\<And>q. data w1 q = (if q = p then (data w p)\<lparr>d_leader := self_address (procs w l)\<rparr>
              else data w q)" by auto
  from ag have l: "l \<in> S" "l \<notin> D" by (auto simp: agreed_def)
  have con1: "connected N S w1" using con connected_static [OF st] by simp
  note self = self_address_static [OF st]
  have "leader (procs w1 p) = self_address (procs w1 l)"
    using arg_cong [where f = d_leader, OF d [of p]] by (simp add: self)
  moreover have "self_address (procs w1 l) \<noteq> ''''" using connectedD(7) [OF con1 l(1)] .
  moreover have "self_address (procs w1 l) \<noteq> self_address (procs w1 p)"
    using self_address_inject [OF con1 l(1) p(1)] p(2) by blast
  moreover obtain node where "map_of (memberList (procs w1 p)) (self_address (procs w1 l)) = Some node"
    and route: "database_route N (databaseEndpoint node) = Some l"
    using connected_lookup [OF con1 p(1) l(1)] by blast
  moreover obtain w2 where "stub_get_db (crash_net N D) p node w1 = (w2, kv_store (procs w1 l))"
    and d2: "\<And>q. data w2 q = data w1 q" "\<And>q. static w2 q = static w1 q"
    using get_db_call [OF route l(2)] by blast
  ultimately have res: "coordinate (crash_net N D) p w =
      Some (update p (\<lambda>P. P\<lparr>kv_store := restore (kv_store (procs w1 l)) (kv_store P)\<rparr>) w2)"
    by (simp add: coordinate_def fl go recover_def)
  have kv: "kv_store (procs w2 p) = kv_store (procs w p)" "kv_store (procs w1 l) = kv_store (procs w l)"
    using arg_cong [where f = d_kv, OF d2(1) [of p]] arg_cong [where f = d_kv, OF d [of p]]
      arg_cong [where f = d_kv, OF d [of l]] p(2) by simp_all
  let ?w = "update p (\<lambda>P. P\<lparr>kv_store := restore (kv_store (procs w1 l)) (kv_store P)\<rparr>) w2"
  have "data ?w q = (if q = p then (data w2 p)\<lparr>d_kv := restore (kv_store (procs w l)) (kv_store (procs w p))\<rparr>
      else data w2 q)" for q
    by (simp add: procs_update data_of_def kv)
  moreover have "static ?w q = static w q" for q
    using d2(2) st by (simp add: procs_update)
  ultimately show ?thesis using res d2(1) d by auto
qed

subsection \<open>Booting a whole cluster\<close>

text \<open>Processes that come up one after another, on a network without faults.\<close>

fun coordinate_all :: "Net \<Rightarrow> nat list \<Rightarrow> World \<Rightarrow> World option" where
  "coordinate_all N [] w = Some w"
| "coordinate_all N (p # ps) w = Option.bind (coordinate N p w) (coordinate_all N ps)"

definition blank_data :: "string \<Rightarrow> Data" where
  "blank_data l = \<lparr>d_log = [], d_kv = [], d_leader = l\<rparr>"

lemma blank_data_simps [simp]:
  "d_log (blank_data l) = []" "d_kv (blank_data l) = []" "d_leader (blank_data l) = l"
  "blank_data l\<lparr>d_leader := m\<rparr> = blank_data m" "blank_data l\<lparr>d_kv := []\<rparr> = blank_data l"
  by (simp_all add: blank_data_def)

lemma coordinate_leader:
  assumes "flag_leader (flag (config (procs w p)))"
  shows "coordinate N p w = Some (update p (\<lambda>P. P\<lparr>leader := self_address P\<rparr>) w)"
  using assms
  by (simp add: coordinate_def find_leader_def recover_def procs_update self_address_def)

text \<open>The part of the boot that follows the leader's own start.\<close>

definition booting :: "Net \<Rightarrow> nat set \<Rightarrow> nat \<Rightarrow> nat set \<Rightarrow> World \<Rightarrow> bool" where
  "booting N S l up w \<longleftrightarrow> connected N S w \<and> l \<in> up \<and> up \<subseteq> S \<and>
     (\<forall>q \<in> S. smap_ok (memberList (procs w q)) \<and>
        (flag_leader (flag (config (procs w q))) \<longleftrightarrow> q = l) \<and>
        data w q = blank_data (if q \<in> up then self_address (procs w l) else ''''))"

lemma boot_one:
  assumes b: "booting N S l up w" and p: "p \<in> S" "p \<noteq> l"
  shows "\<exists>w'. coordinate (crash_net N {}) p w = Some w' \<and> booting N S l (insert p up) w'"
proof -
  from b have con: "connected N S w" and l: "l \<in> S" "l \<in> up" by (auto simp: booting_def)
  have D: "data w q = blank_data (if q \<in> up then self_address (procs w l) else '''')"
    if "q \<in> S" for q
    using b that unfolding booting_def by blast
  have lead: "leader (procs w q) = (if q \<in> up then self_address (procs w l) else '''')"
    if "q \<in> S" for q
    using arg_cong [where f = d_leader, OF D [OF that]] by simp
  have kv: "kv_store (procs w q) = []" if "q \<in> S" for q
    using arg_cong [where f = d_kv, OF D [OF that]] by simp
  have "agreed N S {} w l"
    using l lead connectedD(7) [OF con l(1)] by (fastforce simp: agreed_def)
  moreover have "\<not> flag_leader (flag (config (procs w p)))" "smap_ok (memberList (procs w p))"
    using b p by (auto simp: booting_def)
  ultimately obtain w' where w': "coordinate (crash_net N {}) p w = Some w'"
    and st: "\<And>q. static w' q = static w q"
    and d: "\<And>q. data w' q = (if q = p then (data w p)\<lparr>d_leader := self_address (procs w l),
        d_kv := restore (kv_store (procs w l)) (kv_store (procs w p))\<rparr> else data w q)"
    using coordinate_adopts [OF con p(1,2)] by blast
  have "data w' q = blank_data (if q \<in> insert p up then self_address (procs w' l) else '''')"
    if "q \<in> S" for q
    using D [OF that] d [of q] kv [OF l(1)] kv [OF p(1)]
    by (auto simp: self_address_static [OF st] restore_def)
  moreover have "connected N S w'" using con connected_static [OF st] by simp
  ultimately have "booting N S l (insert p up) w'"
    using b p(1) st by (auto simp: booting_def static_eq)
  with w' show ?thesis by blast
qed

lemma boot_all:
  assumes "booting N S l up w" and "set ps \<subseteq> S - {l}"
  shows "\<exists>w'. coordinate_all (crash_net N {}) ps w = Some w' \<and> booting N S l (up \<union> set ps) w'"
  using assms
proof (induction ps arbitrary: w up)
  case Nil
  then show ?case by simp
next
  case (Cons p ps)
  then obtain w1 where w1: "coordinate (crash_net N {}) p w = Some w1"
    "booting N S l (insert p up) w1" using boot_one [of N S l up w p] by auto
  from Cons.IH [OF w1(2)] Cons.prems(2) show ?case by (auto simp: w1(1))
qed

lemma booted_healthy:
  assumes "booting N S l S w"
  shows "healthy N S {} 0 w (blank_data (self_address (procs w l)))"
  using assms
  by (auto simp: booting_def healthy_def replicas_def bounded_def)

text \<open>The leader's own start makes the rest of the boot possible.\<close>

lemma boot_leader:
  assumes con: "connected N S w" and l: "l \<in> S"
    and P: "\<forall>q \<in> S. smap_ok (memberList (procs w q)) \<and>
      (flag_leader (flag (config (procs w q))) \<longleftrightarrow> q = l) \<and> data w q = blank_data ''''"
  shows "\<exists>w'. coordinate (crash_net N {}) l w = Some w' \<and> booting N S l {l} w'"
proof -
  let ?w = "update l (\<lambda>P. P\<lparr>leader := self_address P\<rparr>) w"
  have w: "?w = update l (\<lambda>P. P\<lparr>leader := self_address (procs w l)\<rparr>) w"
    by (simp add: update_def)
  have st: "static ?w q = static w q" for q by (simp add: w data_update_leader)
  have "coordinate (crash_net N {}) l w = Some ?w"
    using P l by (intro coordinate_leader) blast
  moreover have "connected N S ?w" using con connected_static [OF st] by simp
  moreover have "data ?w q = blank_data (if q \<in> {l} then self_address (procs ?w l) else '''')"
    if "q \<in> S" for q
  proof -
    have "data w q = blank_data ''''" using P that by blast
    moreover have "self_address (procs ?w l) = self_address (procs w l)"
      by (rule self_address_static [OF st])
    ultimately show ?thesis by (cases "q = l") (simp_all add: w data_update_leader)
  qed
  ultimately show ?thesis using P l st by (auto simp: booting_def static_eq)
qed

end
