(* ===== verification/Example_Cluster.thy ===== *)
theory Example_Cluster
  imports History Startup
begin

text \<open>
  Small concrete clusters, built by the code's own start-up functions, on which the
  properties are applied and the scenarios of the findings are executed: \<open>n\<close> processes
  on one host whose consensus services listen at the ports 1, 2, ... and whose database
  services listen 1000 ports above, with the first process as the leader.
\<close>

definition ex_address :: "nat \<Rightarrow> Address" where
  "ex_address i = \<lparr>address = ''h'', port = of_nat (Suc i)\<rparr>"

definition ex_config :: "nat \<Rightarrow> Config" where
  "ex_config i = \<lparr>config_path = '''', ip = ''h'', port_database = of_nat (1001 + i),
     port_consensus = of_nat (Suc i), database_directory = '''', cluster = [], mode = NODE,
     flag = \<lparr>flag_debug = False, flag_leader = (i = 0), flag_local_ubuntu = False,
             flag_latency = False, flag_election = True, flag_timeout = 0, flag_failrate = 0\<rparr>\<rparr>"

definition ex_process :: "nat \<Rightarrow> nat \<Rightarrow> Process" where
  "ex_process n i = \<lparr>config = ex_config i, memberList = insert_members (map ex_address [0..<n]),
     currentNode = member_node (ex_address i), leader = toString (ex_address 0), pax_log = [],
     kv_store = [], incount = [], outcount = []\<rparr>"

definition ex_world :: "nat \<Rightarrow> World" where
  "ex_world n = \<lparr>procs = ex_process n, clock = 0\<rparr>"

definition ex_net :: "nat \<Rightarrow> Net" where
  "ex_net n = \<lparr>fate = \<lambda>t q. Deliver,
     consensus_route = map_of (map (\<lambda>i. (consensusEndpoint (member_node (ex_address i)), i)) [0..<n]),
     database_route = map_of (map (\<lambda>i. (databaseEndpoint (member_node (ex_address i)), i)) [0..<n])\<rparr>"

definition ex_data :: Data where
  "ex_data = \<lparr>d_log = [], d_kv = [], d_leader = toString (ex_address 0)\<rparr>"

text \<open>Reading the three-node cluster.\<close>

abbreviation listens :: "string \<Rightarrow> string \<Rightarrow> Node" where
  "listens c d \<equiv> \<lparr>consensusEndpoint = c, databaseEndpoint = d\<rparr>"

lemma ex_toString [simp]:
  "toString (ex_address 0) = ''h:1''" "toString (ex_address (Suc 0)) = ''h:2''"
  "toString (ex_address 2) = ''h:3''"
  by code_simp+

lemma ex_node [simp]:
  "member_node (ex_address 0) = listens ''h:1'' ''h:1001''"
  "member_node (ex_address (Suc 0)) = listens ''h:2'' ''h:1002''"
  "member_node (ex_address 2) = listens ''h:3'' ''h:1003''"
  by code_simp+

lemma ex_members: "insert_members (map ex_address [0..<3]) =
  [(''h:1'', listens ''h:1'' ''h:1001''), (''h:2'', listens ''h:2'' ''h:1002''),
   (''h:3'', listens ''h:3'' ''h:1003'')]"
  by code_simp

lemma ex_procs [simp]:
  "procs (ex_world n) q = ex_process n q"
  "clock (ex_world n) = 0"
  "memberList (ex_process n q) = insert_members (map ex_address [0..<n])"
  "currentNode (ex_process n q) = member_node (ex_address q)"
  "pax_log (ex_process n q) = []" "kv_store (ex_process n q) = []"
  "self_address (ex_process n q) = toString (ex_address q)"
  "debug (ex_process n q) = False"
  by (simp_all add: ex_world_def ex_process_def self_address_def getAddress_def ex_config_def
      ex_address_def Let_def debug_def)

lemma ex_leader [simp]: "leader (ex_process n q) = ''h:1''"
  by (simp add: ex_process_def)

lemma upt3: "[0..<3] = [0, 1, 2]"
  by (simp add: numeral_eq_Suc)

lemma ex_routes [simp]:
  "consensus_route (ex_net 3) = map_of [(''h:1'', 0), (''h:2'', 1), (''h:3'', 2)]"
  "database_route (ex_net 3) = map_of [(''h:1001'', 0), (''h:1002'', 1), (''h:1003'', 2)]"
  "fate (ex_net n) t q = Deliver"
  by (simp_all add: ex_net_def upt3)

lemma ex_member_pids: "member_pids (ex_net 3) (ex_world 3) q = [0, 1, 2]"
  by (simp add: member_pids_def member_nodes_def ex_members routed_def)

lemma ex_cluster_ok: "cluster_ok (ex_world 3) q"
  by (simp add: cluster_ok_def member_nodes_def ex_members)

lemma ex_routed: "members_routed (ex_net 3) (ex_world 3) q"
  by (simp add: members_routed_def ex_member_pids member_nodes_def ex_members)

lemma ex_data [simp]: "data_of (ex_process n q) = ex_data"
  by (simp add: data_of_def ex_data_def)

lemma ex_address_inject: "i < 1000 \<Longrightarrow> j < 1000 \<Longrightarrow> ex_address i = ex_address j \<Longrightarrow> i = j"
proof -
  assume ij: "i < 1000" "j < 1000" and eq: "ex_address i = ex_address j"
  have "unat (of_nat (Suc k) :: 16 word) = Suc k" if "k < 1000" for k
    unfolding unat_of_nat using that by simp
  with ij eq show "i = j" by (metis Address.ext_inject ex_address_def nat.inject)
qed

lemma ex_listening:
  assumes "n \<le> 1000"
  shows "listening (ex_net n) (map ex_address [0..<n])"
proof -
  have inj: "i = j" if "i < n" "j < n" "member_node (ex_address i) = member_node (ex_address j)" for i j
    using that assms ex_address_inject [of i j] by (simp add: member_node_inject)
  have c: "consensusEndpoint (member_node (ex_address i)) = consensusEndpoint (member_node (ex_address j)) \<longleftrightarrow>
      member_node (ex_address i) = member_node (ex_address j)" for i j
    by (auto simp: member_node_def toString_inject)
  have "port (ex_address i) = port (ex_address j)"
    if "databaseEndpoint (member_node (ex_address i)) = databaseEndpoint (member_node (ex_address j))"
    for i j
  proof -
    from that have "to_string (unat (port (ex_address i)) + 1000) =
        to_string (unat (port (ex_address j)) + 1000)"
      by (simp add: member_node_def ex_address_def)
    from to_string_inject [OF this] show ?thesis by (simp add: word_unat_eq_iff)
  qed
  moreover have "port (ex_address i) = port (ex_address j) \<Longrightarrow> ex_address i = ex_address j" for i j
    by (simp add: ex_address_def)
  ultimately have e: "databaseEndpoint (member_node (ex_address i)) = databaseEndpoint (member_node (ex_address j)) \<longleftrightarrow>
      member_node (ex_address i) = member_node (ex_address j)" for i j
    by metis
  have route: "map_of (map (\<lambda>i. (f i, i)) [0..<n]) (f i) = Some i"
    if "i < n" "\<And>a b. a < n \<Longrightarrow> b < n \<Longrightarrow> f a = f b \<Longrightarrow> a = b" for f :: "nat \<Rightarrow> string" and i
    using that by (intro map_of_is_SomeI) (auto simp: distinct_map comp_def intro!: inj_onI)
  have "map_of (map (\<lambda>i. (consensusEndpoint (member_node (ex_address i)), i)) [0..<n])
      (consensusEndpoint (member_node (ex_address i))) = Some i" if "i < n" for i
    by (rule route [OF that]) (use c inj in blast)
  moreover have "map_of (map (\<lambda>i. (databaseEndpoint (member_node (ex_address i)), i)) [0..<n])
      (databaseEndpoint (member_node (ex_address i))) = Some i" if "i < n" for i
    by (rule route [OF that]) (use e inj in blast)
  moreover have "consensusEndpoint (member_node a) = toString a"
    "databaseEndpoint (member_node a) = address a @ '':'' @ to_string (unat (port a) + 1000)" for a
    by (simp_all add: member_node_def)
  ultimately show ?thesis by (simp add: listening_def ex_net_def)
qed

lemma ex_connected:
  assumes "0 < n" and "n \<le> 1000"
  shows "connected (ex_net n) {..<n} (ex_world n)"
proof -
  have "distinct (map ex_address [0..<n])"
    using assms(2) ex_address_inject by (auto simp: distinct_map intro!: inj_onI)
  with members_connected [of "map ex_address [0..<n]" "ex_world n" "ex_net n"]
    ex_listening [OF assms(2)] assms
  show ?thesis by (simp add: knows_def)
qed

lemma lessThan3: "{..<3} = {0, 1, 2 :: nat}"
  by auto

lemma ex_healthy:
  assumes "D \<subseteq> {0, 1, 2}" and "card D \<le> 1"
  shows "healthy (ex_net 3) {0, 1, 2} D 0 (ex_world 3) ex_data"
proof -
  from assms(1) have "card ({0, 1, 2} - D) = 3 - card D"
    by (subst card_Diff_subset) (auto intro: finite_subset)
  with assms(2) have "card {0, 1, 2 :: nat} \<le> 2 * card ({0, 1, 2} - D)" by simp
  moreover have "\<exists>q \<in> {0, 1, 2}. d_leader ex_data = self_address (procs (ex_world 3) q)"
    by (simp add: ex_data_def)
  ultimately show ?thesis
    using ex_connected [of 3] by (simp add: lessThan3 healthy_def replicas_def bounded_def ex_data_def)
qed

subsection \<open>A tokenizer and a number parser\<close>

text \<open>Concrete functions for the two library functions that the start-up code is given.\<close>

fun tokens :: "string \<Rightarrow> string list" where
  "tokens [] = [[]]"
| "tokens (c # cs) =
     (if c = CHR '':'' then [] # tokens cs
      else (case tokens cs of [] \<Rightarrow> [[c]] | t # ts \<Rightarrow> (c # t) # ts))"

definition parse_port :: "string \<Rightarrow> 16 word option" where
  "parse_port s =
     (let n = foldl (\<lambda>n c. 10 * n + (of_char c - 48)) (0 :: int) s
      in if s \<noteq> [] \<and> list_all (\<lambda>c. 48 \<le> (of_char c :: int) \<and> (of_char c :: int) \<le> 57) s \<and> n < 65536
         then Some (of_int n) else None)"

definition ex_blank :: Process where
  "ex_blank = \<lparr>config = ex_config 0, memberList = [], currentNode = \<lparr>consensusEndpoint = '''',
     databaseEndpoint = ''''\<rparr>, leader = '''', pax_log = [], kv_store = [], incount = [], outcount = []\<rparr>"

definition ex_boot :: "nat \<Rightarrow> World" where
  "ex_boot n = \<lparr>procs = \<lambda>i.
     (case initializeStaticInstance tokens parse_port (map toString (map ex_address [0..<n]))
             (ex_config i) ex_blank of
        Inl _ \<Rightarrow> ex_blank
      | Inr P \<Rightarrow> P), clock = 0\<rparr>"

lemma ex_tokenizes: "\<forall>a \<in> set (map ex_address [0..<3]). tokenizes tokens parse_port a"
proof -
  have "tokenizes tokens parse_port (ex_address 0)" "tokenizes tokens parse_port (ex_address 1)"
    "tokenizes tokens parse_port (ex_address 2)" by code_simp+
  then show ?thesis by (simp add: upt3)
qed

lemma ex_config_simps [simp]:
  "getAddress Consensus_Service (ex_config i) = ex_address i"
  "flag_local_ubuntu (flag (ex_config i)) = False" "flag_leader (flag (ex_config i)) \<longleftrightarrow> i = 0"
  by (simp_all add: ex_config_def ex_address_def getAddress_def)

lemma ex_boot_init:
  assumes "i < 3"
  shows "initializeStaticInstance tokens parse_port (map toString (map ex_address [0..<3]))
    (ex_config i) ex_blank = Inr (procs (ex_boot 3) i)"
proof -
  have "getAddress Consensus_Service (ex_config i) \<in> set (map ex_address [0..<3])"
    using assms by auto
  from initialize_total [OF ex_tokenizes _ this, of ex_blank] show ?thesis
    by (auto simp: ex_boot_def)
qed

lemma ex_started: "started tokens parse_port (map ex_address [0..<3]) (ex_boot 3)"
  unfolding started_def
proof (intro allI impI)
  fix i assume "i < length (map ex_address [0..<3])"
  then have "i < 3" by simp
  then show "\<exists>c P. getAddress Consensus_Service c = map ex_address [0..<3] ! i \<and>
      \<not> flag_local_ubuntu (flag c) \<and>
      initializeStaticInstance tokens parse_port (map toString (map ex_address [0..<3])) c P =
        Inr (procs (ex_boot 3) i)"
    using ex_boot_init [of i] by (intro exI [of _ "ex_config i"] exI [of _ ex_blank]) simp
qed

lemma ex_distinct_addresses: "n \<le> 1000 \<Longrightarrow> distinct (map ex_address [0..<n])"
  using ex_address_inject by (auto simp: distinct_map intro!: inj_onI)

lemma ex_boot_simps:
  assumes "i < 3"
  shows "config (procs (ex_boot 3) i) = ex_config i" "pax_log (procs (ex_boot 3) i) = []"
    "kv_store (procs (ex_boot 3) i) = []"
  using initialize_member [OF ex_tokenizes _ _ ex_boot_init [OF assms]] assms
  by (simp_all add: ex_blank_def)

end
