(* ===== verification/Runs.thy ===== *)
theory Runs
  imports Paxos_Data
begin

text \<open>
  Sequences of attempts, each by its own proposer on its own network: the code runs one
  attempt per election or write, and any of them may fail half way. A decision survives
  every such sequence.
\<close>

type_synonym attempt = "Net \<times> nat \<times> Request"

fun attempts :: "attempt list \<Rightarrow> World \<Rightarrow> World \<times> (Status \<times> Response) list" where
  "attempts [] w = (w, [])"
| "attempts ((N, p, r) # as) w =
     (case AttemptConsensus N p r w of
        (w', res) \<Rightarrow> (case attempts as w' of (w'', ress) \<Rightarrow> (w'', res # ress)))"

fun data_attempts ::
    "Node list \<Rightarrow> attempt list \<Rightarrow> data_state \<Rightarrow> data_state \<times> (Status \<times> Response) list" where
  "data_attempts members [] st = (st, [])"
| "data_attempts members ((N, p, r) # as) st =
     (case data_attempt N members p r st of
        (st', res) \<Rightarrow> (case data_attempts members as st' of (st'', ress) \<Rightarrow> (st'', res # ress)))"

lemma mirrors_routes: "routed M = routed N \<Longrightarrow> mirrors M w st = mirrors N w st"
  by (simp add: mirrors_def)

lemma attempts_mirror:
  assumes "mirrors N w st" and "members \<noteq> []" and "length members < 2 ^ 31"
    and "\<forall>(M, p, r) \<in> set as. routed M = routed N \<and> member_nodes w p = members \<and>
      p < length (fst st)"
  shows "mirrors N (fst (attempts as w)) (fst (data_attempts members as st)) \<and>
    snd (attempts as w) = snd (data_attempts members as st) \<and>
    length (fst (fst (data_attempts members as st))) = length (fst st)"
  using assms
proof (induction as arbitrary: w st)
  case Nil
  then show ?case by simp
next
  case (Cons a as)
  obtain M p r where a: "a = (M, p, r)" by (cases a)
  from Cons.prems(4) have R: "routed M = routed N" and ms: "member_nodes w p = members"
    and p: "p < length (fst st)" by (auto simp: a)
  obtain w1 res where w1: "AttemptConsensus M p r w = (w1, res)"
    by (cases "AttemptConsensus M p r w")
  obtain st1 res' where st1: "data_attempt M members p r st = (st1, res')"
    by (cases "data_attempt M members p r st")
  from attempt_mirrors [of M w st p r] Cons.prems(1) p
  have m1: "mirrors N w1 st1" and res: "res' = res"
    by (simp_all add: mirrors_routes [OF R] ms w1 st1)
  have cl: "cluster_ok w p" using Cons.prems(2,3) by (simp add: cluster_ok_def ms)
  obtain s response where "res = (s, response)" by (cases res)
  with w1 have st: "static w1 q = static w q" for q by (auto intro: attempt_static [OF _ cl])
  have len: "length (fst st1) = length (fst st)"
    using data_attempt_length [of M members p r st] by (simp add: st1)
  have "member_nodes w1 q = member_nodes w q" for q
    using st [of q] by (simp add: static_of_def member_nodes_def)
  with Cons.prems(4) have "\<forall>(M, p, r) \<in> set as. routed M = routed N \<and>
      member_nodes w1 p = members \<and> p < length (fst st1)"
    by (auto simp: len)
  from Cons.IH [OF m1 Cons.prems(2,3) this] show ?case
    by (simp add: a w1 st1 res len case_prod_beta)
qed

subsection \<open>A decision survives every sequence of attempts\<close>

text \<open>A proposer that knows the members \<open>S\<close>, with an address for each.\<close>

definition proposer :: "nat set \<Rightarrow> World \<Rightarrow> Net \<Rightarrow> nat \<Rightarrow> bool" where
  "proposer S w N p \<longleftrightarrow> cluster_ok w p \<and> members_routed N w p \<and> set (member_pids N w p) = S"

lemma proposer_static:
  assumes "\<And>q. static w' q = static w q"
  shows "proposer S w' N p = proposer S w N p"
  using assms [of p]
  by (simp add: proposer_def static_of_def cluster_ok_def members_routed_def member_pids_def
      member_nodes_def)

text \<open>Every success at the slot reports the decided value. The round a proposer uses is the
  one it computes when its attempt starts.\<close>

fun slot_results :: "string \<Rightarrow> int \<Rightarrow> attempt list \<Rightarrow> World \<Rightarrow> string set" where
  "slot_results key rnd [] w = {}"
| "slot_results key rnd ((N, p, r) # as) w =
     (case AttemptConsensus N p r w of
        (w', s, response) \<Rightarrow>
          (if ok s \<and> req_key r = key \<and> proposal_round w p key = rnd then {resp_value response}
           else {}) \<union> slot_results key rnd as w')"

lemma decided_attempts:
  assumes "\<forall>(N, p, r) \<in> set as. proposer S w N p" and "odd (card S)"
    and "decided S w key rnd v"
  shows "decided S (fst (attempts as w)) key rnd v \<and> slot_results key rnd as w \<subseteq> {v}"
  using assms
proof (induction as arbitrary: w)
  case Nil
  then show ?case by simp
next
  case (Cons a as)
  obtain N p r where a: "a = (N, p, r)" by (cases a)
  obtain w1 s response where w1: "AttemptConsensus N p r w = (w1, s, response)"
    by (cases "AttemptConsensus N p r w")
  from Cons.prems(1) have cl: "cluster_ok w p" and rt: "members_routed N w p"
    and S: "set (member_pids N w p) = S" by (simp_all add: a proposer_def)
  have st: "static w1 q = static w q" for q by (rule attempt_static [OF w1 cl])
  from Cons.prems(2) card_member_pids [OF rt] have "odd (length (member_nodes w p))"
    by (simp add: S)
  with attempt_decision [OF w1 cl rt, of key rnd v] Cons.prems(3)
  have d1: "decided S w1 key rnd v"
    and v: "ok s \<and> req_key r = key \<and> proposal_round w p key = rnd \<longrightarrow> resp_value response = v"
    by (simp_all add: S)
  have "\<forall>(N, p, r) \<in> set as. proposer S w1 N p"
    using Cons.prems(1) by (auto simp: proposer_static [OF st])
  from Cons.IH [OF this Cons.prems(2) d1] v show ?case by (simp add: a w1 case_prod_beta)
qed

end
