(* ===== verification/Partition.thy ===== *)
theory Partition
  imports Runs History
begin

text \<open>
  The other side of the crash analysis: what the code does when fewer than half of the
  members can be reached (nothing, and it says so), when the members split into two halves
  that cannot reach each other (an even cluster serves both), and when a leader is cut off
  from a cluster that goes on without it (it still answers reads from its own store).
\<close>

subsection \<open>Unreachable processes are untouched\<close>

lemma attempt_unreached:
  assumes "AttemptConsensus (crash_net N D) p r w = (w', s, response)" and "q \<in> D"
  shows "data w' q = data w q"
  using assms
  by (auto simp: AttemptConsensus_def Let_def ping_phase_eq propose_phase_eq accept_phase_eq
      success_phase_eq ping_c.crash_unreached propose_c.crash_unreached
      accept_c.crash_unreached success_c.crash_unreached split: if_splits)

lemma attempt_static_any:
  assumes "AttemptConsensus N p r w = (w', s, response)"
  shows "static w' q = static w q"
  using assms
  by (auto simp: AttemptConsensus_def Let_def ping_phase_eq propose_phase_eq accept_phase_eq
      success_phase_eq ping_s.after_static propose_s.after_static accept_s.after_static
      success_s.after_static split: if_splits)

lemma attempts_static: "static (fst (attempts as w)) q = static w q"
proof (induction as arbitrary: w)
  case Nil
  then show ?case by simp
next
  case (Cons a as)
  obtain N p r where a: "a = (N, p, r)" by (cases a)
  obtain w1 s response where w1: "AttemptConsensus N p r w = (w1, s, response)"
    by (cases "AttemptConsensus N p r w")
  from attempt_static_any [OF w1] Cons.IH [of w1] show ?case
    by (simp add: a w1 case_prod_beta)
qed

lemma election_unreached:
  assumes "trigger_election (crash_net N D) p w = (w', s, u)" and "q \<in> D"
  shows "data w' q = data w q"
proof -
  let ?w = "tick (update p (count_out ''ConsensusRPCWrapperCall::trigger_election'') w)"
  have h: "data (fst (elect_leader (crash_net N D) er c x ?w)) q = data w q" if "x \<notin> D" for er c x
  proof -
    let ?r = "default_Request\<lparr>req_value := elect_value er, req_key := elect_key er,
      req_op := SET_LEADER\<rparr>"
    let ?w1 = "update x (count_in ''ConsensusRPC::elect_leader'') ?w"
    obtain w2 s2 r2 where att: "AttemptConsensus (crash_net N D) x ?r ?w1 = (w2, s2, r2)"
      by (cases "AttemptConsensus (crash_net N D) x ?r ?w1")
    from attempt_unreached [OF att assms(2)] have "data w2 q = data w q" by simp
    moreover have "x \<noteq> q" using that assms(2) by auto
    ultimately show ?thesis by (simp add: elect_leader_def Let_def att data_update_leader)
  qed
  from assms(1) have "w' = fst (trigger_election (crash_net N D) p w)" by simp
  then show ?thesis
    by (auto simp: trigger_election_def stub_trigger_election_def Let_def fst_rpc_send h
        split: option.split)
qed

lemma election_static:
  assumes "trigger_election N p w = (w', s, u)"
  shows "static w' q = static w q"
proof -
  let ?w = "tick (update p (count_out ''ConsensusRPCWrapperCall::trigger_election'') w)"
  have h: "static (fst (elect_leader N er c x ?w)) q = static w q" for er c x
  proof -
    let ?r = "default_Request\<lparr>req_value := elect_value er, req_key := elect_key er,
      req_op := SET_LEADER\<rparr>"
    let ?w1 = "update x (count_in ''ConsensusRPC::elect_leader'') ?w"
    obtain w2 s2 r2 where att: "AttemptConsensus N x ?r ?w1 = (w2, s2, r2)"
      by (cases "AttemptConsensus N x ?r ?w1")
    from attempt_static_any [OF att] have "static w2 q = static w q" by simp
    then show ?thesis by (simp add: elect_leader_def Let_def att data_update_leader)
  qed
  from assms have "w' = fst (trigger_election N p w)" by simp
  then show ?thesis
    by (auto simp: trigger_election_def stub_trigger_election_def Let_def fst_rpc_send h
        split: option.split fate.split)
qed

text \<open>The frame of a whole \<open>set\<close>, whichever processes it is forwarded to.\<close>

lemma set_unreached:
  "p \<notin> D \<Longrightarrow> q \<in> D \<Longrightarrow> Database_set fuel (crash_net N D) r c p w = Some (w', s, u) \<Longrightarrow>
    data w' q = data w q"
proof (induction fuel arbitrary: r c p w w' s u)
  case 0
  then show ?case by (simp add: Database_set.simps)
next
  case (Suc fuel)
  define fwd where "fwd = (\<lambda>addr w. rpc_forward (crash_net N D) (database_route (crash_net N D)) addr ()
    (\<lambda>c q w. Database_set fuel (crash_net N D)
       \<lparr>set_key = set_key r, set_value = set_value r\<rparr> c q w) w)"
  have fwd: "data w2 q = data w1 q" if "fwd addr w1 = Some (w2, s2, u2)" for addr w1 w2 s2 u2
    using that Suc.IH [OF _ Suc.prems(2)]
    by (auto simp: fwd_def rpc_forward_def bind_eq_Some_conv split: option.splits if_splits)
  have att: "data w2 q = data w1 q"
    if "AttemptConsensus (crash_net N D) p r' w1 = (w2, s2, r2)" for r' w1 w2 s2 r2
    by (rule attempt_unreached [OF that Suc.prems(2)])
  have el: "data w2 q = data w1 q" if "trigger_election (crash_net N D) p w1 = (w2, s2, u2)"
    for w1 w2 s2 u2
    by (rule election_unreached [OF that Suc.prems(2)])
  let ?w = "update p (count_in ''DatabaseRPC::set'') w"
  from Suc.prems(3) have "set_step (crash_net N D) fwd r c p w = Some (w', s, u)"
    by (simp add: Database_set.simps(2) fwd_def)
  then have "data w' q = data ?w q"
    unfolding set_step_def set_failover_def Let_def
    by (auto simp: bind_eq_Some_conv split: if_splits option.splits prod.splits
        dest!: fwd att el)
  then show ?case by simp
qed

subsection \<open>Fewer than half of the members\<close>

lemma attempt_minority:
  assumes cl: "cluster_ok w p" and dist: "distinct (member_pids N w p)"
    and att: "AttemptConsensus (crash_net N D) p r w = (w', s, response)"
    and few: "2 * card (set (member_pids N w p) - D) < length (member_nodes w p)"
  shows "s = not_enough \<and> response = default_Response \<and> (\<forall>q. data w' q = data w q)"
proof -
  let ?ms = "member_nodes w p"
  have distms: "distinct (reached (routed N) ?ms)" using dist by (simp add: member_pids_def)
  have live: "map fst (ok_replies (replies (stub_ping (crash_net N D) p) ?ms w)) =
      live_nodes N D ?ms"
    by (subst ping_c.crash_replies [OF distms, where a = "(Status_OK, ())"])
      (simp_all add: live_nodes_def comp_def)
  have len: "length (live_nodes N D ?ms) = card (set (member_pids N w p) - D)"
    by (simp add: length_live distms member_pids_def)
  from cl have "?ms \<noteq> []" "length ?ms < 2 ^ 31" by (simp_all add: cluster_ok_def)
  with att show ?thesis
  proof (cases rule: attempt_cases)
    case (accept live' w1 prep w2 pr areq w3)
    with few len propose_c.ok_count_le [of N D p prep "live_nodes N D ?ms" w1]
    show ?thesis by (simp add: live)
  next
    case (commit live' w1 prep w2 pr areq w3)
    with few len propose_c.ok_count_le [of N D p prep "live_nodes N D ?ms" w1]
    show ?thesis by (simp add: live)
  qed (use few in \<open>simp_all add: live len\<close>)
qed

subsection \<open>Two halves\<close>

lemma attempt_half:
  assumes con: "connected N S w" and rep: "replicas A w d" and full: "log_full (d_log d)"
    and small: "rounds (d_log d) (req_key r) < 2 ^ 31" and p: "p \<in> A"
    and S: "S = A \<union> B" "A \<inter> B = {}" and half: "card S \<le> 2 * card A"
    and att: "AttemptConsensus (crash_net N B) p r w = (w', s, response)"
  shows "s = Status_OK \<and> resp_value response = req_value r \<and> replicas A w' (commit_data r d)"
proof -
  from p S have pS: "p \<in> S" by simp
  from S have A: "S - B = A" by auto
  note c = connectedD [OF con pS]
  show ?thesis
    by (rule attempt_crash [OF c(1,3) att, unfolded c(4,5) A]) (use p half rep full small in auto)
qed

lemma split_brain:
  assumes con: "connected N S w" and rep: "replicas S w d" and full: "log_full (d_log d)"
    and small: "rounds (d_log d) (req_key r1) < 2 ^ 31" "rounds (d_log d) (req_key r2) < 2 ^ 31"
    and S: "S = A \<union> B" "A \<inter> B = {}" and half: "card A = card B" and p: "p \<in> A" "q \<in> B"
    and att: "AttemptConsensus (crash_net N B) p r1 w = (w1, s1, resp1)"
      "AttemptConsensus (crash_net N A) q r2 w1 = (w2, s2, resp2)"
  shows "s1 = Status_OK \<and> s2 = Status_OK \<and> replicas A w2 (commit_data r1 d) \<and>
    replicas B w2 (commit_data r2 d)"
proof -
  from con S have "finite A" "finite B" by (auto simp: connected_def)
  with S half have cS: "card S \<le> 2 * card A" "card S \<le> 2 * card B"
    by (simp_all add: card_Un_disjoint)
  from rep S have rA: "replicas A w d" and rB: "replicas B w d" by (auto simp: replicas_def)
  note first = attempt_half [OF con rA full small(1) p(1) S cS(1) att(1)]
  have "replicas B w1 d"
    using rB attempt_unreached [OF att(1)] by (simp add: replicas_def)
  moreover have "connected N S w1"
    using con connected_static [OF attempt_static_any [OF att(1)]] by simp
  moreover have "S = B \<union> A" "B \<inter> A = {}" using S by auto
  ultimately have second: "s2 = Status_OK \<and> replicas B w2 (commit_data r2 d)"
    using attempt_half [OF _ _ full small(2) p(2) _ _ cS(2) att(2)] by blast
  from first have "replicas A w2 (commit_data r1 d)"
    using attempt_unreached [OF att(2)] by (auto simp: replicas_def)
  with first second show ?thesis by simp
qed

subsection \<open>A leader that is cut off\<close>

lemma get_local:
  assumes "leader (procs w p) = self_address (procs w p)" and "self_address (procs w p) \<noteq> ''''"
  shows "Database_get (Suc fuel) M request False p w =
    Some (update p (count_in ''DatabaseRPC::get'') w, Status_OK,
          answer_get request (kv_store (procs w p)))"
  using assms
  by (simp add: Database_get.simps get_step_def Let_def local_get_answer)

lemma set_static:
  assumes "Database_set fuel N r c p w = Some (w', s, u)"
  shows "static w' q = static w q"
  using assms
proof (induction fuel arbitrary: r c p w w' s u)
  case 0
  then show ?case by (simp add: Database_set.simps)
next
  case (Suc fuel)
  define fwd where "fwd = (\<lambda>addr w. rpc_forward N (database_route N) addr ()
    (\<lambda>c q w. Database_set fuel N \<lparr>set_key = set_key r, set_value = set_value r\<rparr> c q w) w)"
  have fwd: "static w2 q = static w1 q" if "fwd addr w1 = Some (w2, s2, u2)" for addr w1 w2 s2 u2
    using that Suc.IH
    by (auto simp: fwd_def rpc_forward_def bind_eq_Some_conv split: option.splits fate.splits)
  have el: "static w2 q = static w1 q" if "trigger_election N p w1 = (w2, s2, u2)" for w1 w2 s2 u2
    by (rule election_static [OF that])
  let ?w = "update p (count_in ''DatabaseRPC::set'') w"
  from Suc.prems have "set_step N fwd r c p w = Some (w', s, u)"
    by (simp add: Database_set.simps(2) fwd_def)
  then have "static w' q = static ?w q"
    unfolding set_step_def set_failover_def Let_def
    by (auto simp: bind_eq_Some_conv split: if_splits option.splits prod.splits
        dest!: fwd attempt_static_any el)
  then show ?case by simp
qed

end
