(* ===== verification/Scenarios.thy ===== *)
theory Scenarios
  imports Example_Cluster Partition
begin

text \<open>
  Concrete executions on the example clusters. Each is run on the data-level machine and
  carried over to \<open>AttemptConsensus\<close> by the refinement. They show where the protocol of
  the code departs from Paxos: the proposal number is always 1 and no promise is recorded,
  so a value left behind by a failed attempt can be chosen beside one already chosen.
\<close>

definition ex_lossy :: "nat \<Rightarrow> (nat \<Rightarrow> nat \<Rightarrow> fate) \<Rightarrow> Net" where
  "ex_lossy n f = (ex_net n)\<lparr>fate := f\<rparr>"

definition put :: "string \<Rightarrow> string \<Rightarrow> Request" where
  "put key v = set_request \<lparr>set_key = key, set_value = v\<rparr>"

subsection \<open>A value left behind\<close>

text \<open>Three processes. The first one's attempt to write \<open>a\<close> reaches only itself with its
  accept; then the third one, for which round 0 is still new, writes \<open>b\<close>.\<close>

definition leftover :: "attempt list" where
  "leftover =
     [(ex_lossy 3 (\<lambda>t q. if q = 2 \<or> t = 6 then Drop else Deliver), 0, put ''k'' ''a''),
      (ex_lossy 3 (\<lambda>t q. if q = 1 then Drop else Deliver), 2, put ''k'' ''b'')]"

definition twice :: "attempt list" where
  "twice =
     [(ex_lossy 5 (\<lambda>t q. if q \<in> {3, 4} \<or> t \<in> {9, 10} then Drop else Deliver), 0, put ''k'' ''a''),
      (ex_lossy 5 (\<lambda>t q. if q \<in> {0, 4} then Drop else Deliver), 3, put ''k'' ''b''),
      (ex_lossy 5 (\<lambda>t q. if q \<in> {2, 3} then Drop else Deliver), 4, put ''k'' ''c'')]"

definition ex_members :: "nat \<Rightarrow> Node list" where
  "ex_members n = map snd (insert_members (map ex_address [0..<n]))"

definition outcomes :: "(Status \<times> Response) list \<Rightarrow> (Status \<times> string) list" where
  "outcomes = map (\<lambda>(s, response). (s, resp_value response))"

subsection \<open>From the data-level machine to the code\<close>

lemma ex_route_less:
  assumes "routed (ex_net n) node = Some q"
  shows "q < n"
proof -
  have "q \<in> snd ` set (map (\<lambda>i. (consensusEndpoint (member_node (ex_address i)), i)) [0..<n])"
    using assms map_of_SomeD by (force simp: routed_def ex_net_def)
  then show ?thesis by auto
qed

lemma ex_mirrors: "mirrors (ex_net n) (ex_world n) (replicate n ex_data, 0)"
  by (auto simp: mirrors_def dest: ex_route_less)

lemma routed_lossy [simp]: "routed (ex_lossy n f) = routed (ex_net n)"
  by (simp add: routed_def ex_lossy_def fun_eq_iff)

lemma ex_member_nodes [simp]: "member_nodes (ex_world n) p = ex_members n"
  by (simp add: member_nodes_def ex_members_def)

lemma length_ex_members [simp]: "length (ex_members 3) = 3" "length (ex_members 5) = 5"
  by code_simp+

definition on_example :: "nat \<Rightarrow> attempt list \<Rightarrow> bool" where
  "on_example n as \<longleftrightarrow> ex_members n \<noteq> [] \<and> length (ex_members n) < 2 ^ 31 \<and>
     (\<forall>(M, p, r) \<in> set as. routed M = routed (ex_net n) \<and> p < n)"

lemma ex_attempts:
  assumes "on_example n as"
  shows "mirrors (ex_net n) (fst (attempts as (ex_world n)))
      (fst (data_attempts (ex_members n) as (replicate n ex_data, 0)))"
    and "snd (attempts as (ex_world n)) =
      snd (data_attempts (ex_members n) as (replicate n ex_data, 0))"
  using attempts_mirror [OF ex_mirrors, of "ex_members n" as] assms
  by (auto simp: on_example_def)

lemma on_example_scenarios: "on_example 3 leftover" "on_example 5 twice"
  by (auto simp: on_example_def leftover_def twice_def simp flip: length_greater_0_conv)

lemma leftover_run:
  "outcomes (snd (data_attempts (ex_members 3) leftover (replicate 3 ex_data, 0))) =
     [(not_enough, ''''), (Status_OK, ''a'')]"
  "map d_kv (fst (fst (data_attempts (ex_members 3) leftover (replicate 3 ex_data, 0)))) =
     [[(''k'', ''a'')], [], [(''k'', ''a'')]]"
  by code_simp+

lemma twice_run:
  "outcomes (snd (data_attempts (ex_members 5) twice (replicate 5 ex_data, 0))) =
     [(not_enough, ''''), (Status_OK, ''b''), (Status_OK, ''a'')]"
  by code_simp

lemma twice_rounds:
  "map (resp_round \<circ> snd) (snd (data_attempts (ex_members 5) twice (replicate 5 ex_data, 0))) = [0, 0, 0]"
  by code_simp

subsection \<open>A process that comes back\<close>

text \<open>After a restart the log is empty (nothing writes it to disk) and \<open>coordinate\<close> has
  copied the store of a live leader \<open>q\<close>.\<close>

definition restarted :: "nat \<Rightarrow> nat \<Rightarrow> nat \<Rightarrow> World \<Rightarrow> World" where
  "restarted n p q w = update p (\<lambda>_. (ex_process n p)\<lparr>kv_store := kv_store (procs w q)\<rparr>) w"

lemma mirrors_restarted:
  assumes "mirrors N w (ds, t)" and "p < length ds" and "q < length ds"
  shows "mirrors N (restarted n p q w) (ds[p := ex_data\<lparr>d_kv := d_kv (ds ! q)\<rparr>], t)"
proof -
  have "ds ! q = data w q" using assms by (simp add: mirrors_def)
  then have "d_kv (ds ! q) = kv_store (procs w q)" by simp
  then show ?thesis
    using assms by (auto simp: mirrors_def restarted_def procs_update data_of_def ex_data_def
        nth_list_update)
qed

text \<open>\<open>writes\<close> commits two values of one key everywhere; the third process restarts and writes a
  third value with \<open>late_write\<close>. \<open>elected\<close> elects the first process; then the third restarts, the
  first crashes, and the third has itself elected.\<close>

definition writes :: "attempt list" where
  "writes = [(ex_lossy 3 (\<lambda>t q. Deliver), 0, put ''k'' ''a''),
             (ex_lossy 3 (\<lambda>t q. Deliver), 0, put ''k'' ''b'')]"

definition late_write :: "attempt list" where
  "late_write = [(ex_lossy 3 (\<lambda>t q. Deliver), 2, put ''k'' ''c'')]"

definition elected :: "attempt list" where
  "elected = [(ex_lossy 3 (\<lambda>t q. Deliver), 0, election_request ''h:1'')]"

definition late_election :: "attempt list" where
  "late_election =
     [(ex_lossy 3 (\<lambda>t q. if q = 0 then Drop else Deliver), 2, election_request ''h:3'')]"

definition restarted_data :: "data_state \<Rightarrow> data_state" where
  "restarted_data st = ((fst st)[2 := ex_data\<lparr>d_kv := d_kv (fst st ! 0)\<rparr>], snd st)"

definition rerun :: "attempt list \<Rightarrow> attempt list \<Rightarrow> data_state \<times> (Status \<times> Response) list" where
  "rerun first second =
     data_attempts (ex_members 3) second
       (restarted_data (fst (data_attempts (ex_members 3) first (replicate 3 ex_data, 0))))"

lemma rerun_attempts:
  assumes "on_example 3 first" and "on_example 3 second"
  defines "w \<equiv> restarted 3 2 0 (fst (attempts first (ex_world 3)))"
  shows "mirrors (ex_net 3) (fst (attempts second w)) (fst (rerun first second))"
    and "snd (attempts second w) = snd (rerun first second)"
proof -
  let ?st = "fst (data_attempts (ex_members 3) first (replicate 3 ex_data, 0))"
  have len: "length (fst ?st) = 3"
    using attempts_mirror [OF ex_mirrors, of "ex_members 3" first] assms(1)
    by (auto simp: on_example_def)
  from ex_attempts(1) [OF assms(1)] mirrors_restarted [of "ex_net 3" _ "fst ?st" "snd ?st" 2 0]
  have m: "mirrors (ex_net 3) w (restarted_data ?st)"
    by (simp add: w_def restarted_data_def len)
  have "static (fst (attempts first (ex_world 3))) p = static_of (ex_process 3 p)" for p
    by (simp add: attempts_static)
  then have "memberList (procs w p) = memberList (ex_process 3 p)" for p
    by (simp add: w_def restarted_def procs_update static_of_def)
  then have ms: "member_nodes w p = ex_members 3" for p
    by (simp add: member_nodes_def ex_members_def)
  have "length (fst (restarted_data ?st)) = 3" by (simp add: restarted_data_def len)
  with attempts_mirror [OF m, of "ex_members 3" second] assms(2) ms
  show "mirrors (ex_net 3) (fst (attempts second w)) (fst (rerun first second))"
    and "snd (attempts second w) = snd (rerun first second)"
    by (auto simp: on_example_def rerun_def)
qed

lemma on_example_restarts:
  "on_example 3 writes" "on_example 3 late_write" "on_example 3 elected" "on_example 3 late_election"
  by (auto simp: on_example_def writes_def late_write_def elected_def late_election_def
      simp flip: length_greater_0_conv)

lemma late_election_run: "outcomes (snd (rerun elected late_election)) = [(Status_OK, ''h:1'')]"
  by code_simp

text \<open>Process 2 starts again while the others run on: after \<open>initializeStaticInstance\<close> it has the
  member list, and neither a log, a store nor a leader. \<open>coordinate\<close> gives it the leader and a copy
  of its store.\<close>

definition restarting :: "World \<Rightarrow> World" where
  "restarting w = update 2 (\<lambda>_. (ex_process 3 2)\<lparr>leader := ''''\<rparr>) w"

definition written :: World where
  "written = fst (attempts writes (ex_world 3))"

definition written_data :: data_state where
  "written_data = fst (data_attempts (ex_members 3) writes (replicate 3 ex_data, 0))"

lemma written_data_run:
  "length (fst written_data) = 3" "map d_leader (fst written_data) = [''h:1'', ''h:1'', ''h:1'']"
  "d_kv (fst written_data ! 0) = [(''k'', ''b'')]"
  by code_simp+

lemma written_mirror: "mirrors (ex_net 3) written written_data"
  unfolding written_def written_data_def by (rule ex_attempts(1) [OF on_example_restarts(1)])

lemma written_static: "static written q = static_of (ex_process 3 q)"
  by (simp add: written_def attempts_static)

lemma written_process:
  "q < 3 \<Longrightarrow> data written q = fst written_data ! q" "q < 3 \<Longrightarrow> leader (procs written q) = ''h:1''"
  "kv_store (procs written 0) = [(''k'', ''b'')]"
proof -
  show d: "data written q = fst written_data ! q" if "q < 3" for q
    using written_mirror that by (simp add: mirrors_def written_data_run(1))
  show "leader (procs written q) = ''h:1''" if "q < 3" for q
  proof -
    have "map d_leader (fst written_data) ! q = ''h:1''"
      unfolding written_data_run(2) using that by (auto simp: less_Suc_eq numeral_3_eq_3)
    then have "d_leader (fst written_data ! q) = ''h:1''" using that by (simp add: written_data_run(1))
    with d [OF that] show ?thesis by (metis data_of_sel(3))
  qed
  show "kv_store (procs written 0) = [(''k'', ''b'')]"
    using d [of 0] written_data_run(3) by (metis data_of_sel(2) zero_less_numeral)
qed

lemma rejoin:
  "\<exists>w1. coordinate (crash_net (ex_net 3) {}) 2 (restarting written) = Some w1 \<and>
    (\<forall>q. static w1 q = static_of (ex_process 3 q)) \<and>
    (\<forall>q. data w1 q = (if q = 2 then ex_data\<lparr>d_kv := [(''k'', ''b'')]\<rparr> else data written q))"
proof -
  let ?w = "restarting written"
  have st: "static ?w q = static (ex_world 3) q" for q
    using written_static [of q] by (simp add: restarting_def procs_update static_of_def)
  have self: "self_address (procs ?w q) = toString (ex_address q)" for q
    using self_address_static [OF st, of q] by simp
  have con: "connected (ex_net 3) {..<3} ?w"
    using ex_connected [of 3] connected_static [OF st] by simp
  have "agreed (ex_net 3) {..<3} {} ?w 0"
    using self [of 0] written_process(2)
    by (auto simp: agreed_def lessThan3 restarting_def procs_update)
  moreover have "\<not> flag_leader (flag (config (procs ?w 2)))" "smap_ok (memberList (procs ?w 2))"
    by (simp_all add: restarting_def procs_update smap_ok_insert_members) (simp_all add: ex_process_def smap_ok_insert_members)
  ultimately obtain w1 where w1: "coordinate (crash_net (ex_net 3) {}) 2 ?w = Some w1"
    "\<And>q. static w1 q = static ?w q"
    "\<And>q. data w1 q = (if q = 2 then (data ?w 2)\<lparr>d_leader := self_address (procs ?w 0),
        d_kv := restore (kv_store (procs ?w 0)) (kv_store (procs ?w 2))\<rparr> else data ?w q)"
    using coordinate_adopts [OF con, of 2 0 "{}"] by auto
  have "restore (kv_store (procs ?w 0)) (kv_store (procs ?w 2)) = [(''k'', ''b'')]"
    using written_process(3) by (simp add: restarting_def procs_update restore_def Set_KV_def ex_process_def)
  moreover have "(data ?w 2)\<lparr>d_leader := self_address (procs ?w 0), d_kv := kv\<rparr> = ex_data\<lparr>d_kv := kv\<rparr>" for kv
    unfolding self by (simp add: restarting_def procs_update data_of_def ex_process_def ex_data_def)
  moreover have "data ?w q = data written q" if "q \<noteq> 2" for q
    using that by (simp add: restarting_def procs_update)
  ultimately show ?thesis using w1 st by simp
qed

definition rejoined_data :: "Data list" where
  "rejoined_data = (fst written_data)[2 := ex_data\<lparr>d_kv := [(''k'', ''b'')]\<rparr>]"

lemma rejoined_run:
  "outcomes (snd (data_attempts (ex_members 3) late_write (rejoined_data, t))) = [(Status_OK, ''a'')]"
  "map d_kv (fst (fst (data_attempts (ex_members 3) late_write (rejoined_data, t)))) =
    [[(''k'', ''b'')], [(''k'', ''b'')], [(''k'', ''a'')]]"
  by code_simp+

lemma rejoined_write:
  assumes "\<And>q. static w1 q = static_of (ex_process 3 q)"
    and "\<And>q. data w1 q = (if q = 2 then ex_data\<lparr>d_kv := [(''k'', ''b'')]\<rparr> else data written q)"
  defines "w2 \<equiv> fst (attempts late_write w1)"
  shows "outcomes (snd (attempts late_write w1)) = [(Status_OK, ''a'')]"
    and "kv_store (procs w2 0) = [(''k'', ''b'')]" and "kv_store (procs w2 2) = [(''k'', ''a'')]"
proof -
  let ?st = "(rejoined_data, clock w1)"
  let ?ds = "fst (fst (data_attempts (ex_members 3) late_write ?st))"
  have len: "length rejoined_data = 3" by (simp add: rejoined_data_def written_data_run(1))
  have "mirrors (ex_net 3) w1 ?st"
    using written_process(1) ex_route_less [of 3]
    by (auto simp: mirrors_def len assms(2) rejoined_data_def written_data_run(1) nth_list_update)
  moreover have "memberList (procs w1 q) = memberList (ex_process 3 q)" for q
    using assms(1) [of q] by (simp add: static_of_def)
  then have "member_nodes w1 q = ex_members 3" for q
    by (simp add: member_nodes_def ex_members_def ex_process_def)
  ultimately have run: "mirrors (ex_net 3) w2 (fst (data_attempts (ex_members 3) late_write ?st))"
    "snd (attempts late_write w1) = snd (data_attempts (ex_members 3) late_write ?st)" "length ?ds = 3"
    using attempts_mirror [of "ex_net 3" w1 ?st "ex_members 3" late_write] on_example_restarts(2)
    by (auto simp: w2_def len on_example_def)
  show "outcomes (snd (attempts late_write w1)) = [(Status_OK, ''a'')]"
    by (simp only: run(2) rejoined_run(1))
  have "map d_kv ?ds ! 0 = [(''k'', ''b'')]" "map d_kv ?ds ! 2 = [(''k'', ''a'')]"
    unfolding rejoined_run(2) by simp_all
  then have "d_kv (?ds ! 0) = [(''k'', ''b'')]" "d_kv (?ds ! 2) = [(''k'', ''a'')]" by (simp_all add: run(3))
  moreover have "data w2 0 = ?ds ! 0" "data w2 2 = ?ds ! 2" using run(1,3) by (simp_all add: mirrors_def)
  ultimately show "kv_store (procs w2 0) = [(''k'', ''b'')]" "kv_store (procs w2 2) = [(''k'', ''a'')]"
    by (metis data_of_sel(2))+
qed


end
