(* ===== verification/Properties_Paxos.thy ===== *)
theory Properties_Paxos
  imports Scenarios
begin

text \<open>
  The properties of the consensus core: agreement, validity, quorums, invariants, what a
  failed attempt leaves, and availability under crashes, each with an application to a
  concrete cluster.
\<close>

subsection \<open>Concrete attempts for the witnesses\<close>

definition ex_commit :: "World \<times> Status \<times> Response" where
  "ex_commit = AttemptConsensus (ex_net 3) 0 (put ''k'' ''v'') (ex_world 3)"

lemma ex_commit_data: "snd (data_attempt (ex_net 3) (ex_members 3) 0 (put ''k'' ''v'') (replicate 3 ex_data, 0)) =
  (Status_OK, default_Response\<lparr>resp_value := ''v'', resp_pserver_id := 1\<rparr>)"
  by code_simp

lemma ex_commit_run: "AttemptConsensus (ex_net 3) 0 (put ''k'' ''v'') (ex_world 3) =
  (fst ex_commit, Status_OK, default_Response\<lparr>resp_value := ''v'', resp_pserver_id := 1\<rparr>)"
  using attempt_mirrors [OF ex_mirrors [of 3], of 0 "put ''k'' ''v''"]
  by (simp add: ex_commit_def ex_commit_data prod_eq_iff)

lemma ex_commit_snd:
  "snd ex_commit = (Status_OK, default_Response\<lparr>resp_value := ''v'', resp_pserver_id := 1\<rparr>)"
  using ex_commit_run by (metis ex_commit_def snd_conv)

lemma put_simps [simp]:
  "req_key (put k v) = k" "req_value (put k v) = v" "req_op (put k v) = GET"
  by (simp_all add: put_def set_request_def default_Request_def)

lemma ex_round [simp]: "proposal_round (ex_world n) p key = 0"
  by (simp add: proposal_round_def)

definition ex_alone :: "World \<times> Status \<times> Response" where
  "ex_alone = AttemptConsensus (crash_net (ex_net 3) {1, 2}) 0 (put ''k'' ''v'') (ex_world 3)"

lemma ex_alone_eq: "AttemptConsensus (crash_net (ex_net 3) {1, 2}) 0 (put ''k'' ''v'') (ex_world 3) =
  (fst ex_alone, fst (snd ex_alone), snd (snd ex_alone))"
  by (simp add: ex_alone_def)

lemma ex_distinct: "distinct (member_pids (ex_net 3) (ex_world 3) q)"
  by (simp add: ex_member_pids)

lemma ex_length: "length (member_nodes (ex_world 3) q) = 3"
  by simp

definition ex_voted :: World where
  "ex_voted = \<lparr>procs = \<lambda>q. if q < 2
      then (ex_process 3 q)\<lparr>pax_log := [(''k'', [(0, \<lparr>p_server_id = 0, a_server_id = 1,
             entry_op = GET, accepted_value = ''v''\<rparr>)])]\<rparr>
      else ex_process 3 q, clock = 0\<rparr>"

lemma ex_voted_static: "static ex_voted q = static (ex_world 3) q"
  by (simp add: ex_voted_def static_of_def)

lemma ex_proposer: "proposer {0, 1, 2} (ex_world 3) (ex_net 3) q"
  by (simp add: proposer_def ex_cluster_ok ex_routed ex_member_pids)

lemma ex_voted_decided: "decided {0, 1, 2} ex_voted ''k'' 0 ''v''"
proof -
  have h: "holds ''k'' 0 ''v'' (data ex_voted 0)" "holds ''k'' 0 ''v'' (data ex_voted 1)"
    by (simp_all add: ex_voted_def holds_def log_find_def)
  have "holds_only ''k'' 0 ''v'' (data ex_voted q)" for q
    by (simp add: ex_voted_def holds_only_def log_find_def)
  moreover have "is_quorum {0, 1, 2} {0, 1 :: nat}" by (simp add: is_quorum_iff)
  ultimately show ?thesis using h unfolding decided_def by blast
qed

subsection \<open>Agreement\<close>

text \<open>Claim C7: a decision is final. In a cluster with an odd number of members, once a round of
  a key is decided (a quorum has accepted a value and no member another one), no sequence of
  later attempts, by any proposers and on any networks, undoes it, and every attempt that
  succeeds at that round reports the decided value.\<close>

theorem decision_survives:
  assumes "\<forall>(N, p, r) \<in> set as. proposer S w N p" and "odd (card S)"
    and "decided S w key rnd v"
  shows "decided S (fst (attempts as w)) key rnd v \<and> slot_results key rnd as w \<subseteq> {v}"
  using assms by (rule decided_attempts)

theorem decision_survives_witness:
  "decided {0, 1, 2} (fst (attempts [(ex_net 3, 2, put ''k'' ''x''), (ex_net 3, 0, put ''k'' ''y'')]
      ex_voted)) ''k'' 0 ''v''"
  using decision_survives [of "[(ex_net 3, 2, put ''k'' ''x''), (ex_net 3, 0, put ''k'' ''y'')]"
      "{0, 1, 2}" ex_voted "''k''" 0 "''v''"]
    ex_voted_decided ex_proposer [unfolded proposer_static [OF ex_voted_static, symmetric]]
  by simp

text \<open>The first success at a fresh round decides it. If no member has accepted anything
  at the round an attempt uses, and the attempt succeeds, on whatever network, then that round
  is decided for the value the attempt reports.\<close>

lemma success_decides_fresh_round:
  assumes "AttemptConsensus N p r w = (w', s, response)" and "cluster_ok w p"
    and "members_routed N w p" and "ok s"
    and "\<forall>q \<in> set (member_pids N w p).
      \<forall>v. holds_only (req_key r) (proposal_round w p (req_key r)) v (data w q)"
  shows "decided (set (member_pids N w p)) w' (req_key r) (proposal_round w p (req_key r))
    (resp_value response)"
  using assms by (rule attempt_decides)

lemma success_decides_fresh_round_witness:
  "decided {0, 1, 2} (fst ex_commit) ''k'' 0 ''v''"
  using success_decides_fresh_round [OF ex_commit_run ex_cluster_ok ex_routed]
  by (simp add: ex_member_pids holds_only_def log_find_def ex_data_def)

text \<open>Claim C9: success needs a quorum. When an attempt reports success, at least half of the
  members hold, in their log at the proposed round of the key, exactly the operation and value
  that the attempt reports, whatever the network lost, delayed or cancelled.\<close>

theorem success_is_accepted_by_quorum:
  assumes "AttemptConsensus N p r w = (w', s, response)" and "cluster_ok w p"
    and "distinct (member_pids N w p)" and "ok s"
  shows "resp_round response = proposal_round w p (req_key r) \<and>
    (\<exists>Q \<subseteq> set (member_pids N w p).
      length (member_nodes w p) \<le> 2 * card Q \<and>
      (\<forall>q \<in> Q. accepted_at w' q (req_key r) (resp_round response) (resp_op response)
                 (resp_value response)))"
  using assms by (rule attempt_accepted_by_quorum)

theorem success_is_accepted_by_quorum_witness:
  "\<exists>Q \<subseteq> {0, 1, 2}. 3 \<le> 2 * card Q \<and> (\<forall>q \<in> Q. accepted_at (fst ex_commit) q ''k'' 0 GET ''v'')"
  using success_is_accepted_by_quorum [OF ex_commit_run ex_cluster_ok ex_distinct]
  by (simp add: ex_member_pids default_Response_def)

text \<open>Claim C10: validity. The value of a successful attempt is the requested one, or one that a
  member had already accepted for that round (and then it is still in that member's log).\<close>

theorem success_value_is_valid:
  assumes "AttemptConsensus N p r w = (w', s, response)" and "cluster_ok w p"
    and "distinct (member_pids N w p)" and "ok s"
  shows "(resp_value response = req_value r \<and> resp_op response = req_op r) \<or>
    (\<exists>q \<in> set (member_pids N w p).
      accepted_at w q (req_key r) (resp_round response) (resp_op response) (resp_value response))"
  using assms by (rule attempt_validity)

theorem success_value_is_valid_witness:
  "resp_value (snd (snd ex_commit)) = ''v''"
proof -
  have "\<not> accepted_at (ex_world 3) q ''k'' rnd op v" for q rnd op v
    by (simp add: accepted_at_def log_find_def)
  with success_value_is_valid [OF ex_commit_run ex_cluster_ok ex_distinct]
  show ?thesis by (simp add: ex_commit_snd)
qed

text \<open>Claim C18: a failed attempt is invisible. When an attempt does not report success, no process
  has changed its store or its leader, although logs may hold entries of the attempt.\<close>

theorem failure_is_invisible:
  assumes "AttemptConsensus N p r w = (w', s, response)" and "cluster_ok w p" and "\<not> ok s"
  shows "s = not_enough \<and> kv_store (procs w' q) = kv_store (procs w q) \<and>
    leader (procs w' q) = leader (procs w q)"
  using attempt_failed [OF assms] attempt_status [OF assms(1,2)] assms(3) by auto

text \<open>No quorum, no effect. If fewer than half of the members can be reached, an attempt
  stops after the pings with the status ABORTED, and no replicated data changes anywhere, not
  even a log.\<close>

lemma minority_has_no_effect:
  assumes "cluster_ok w p" and "distinct (member_pids N w p)"
    and "AttemptConsensus (crash_net N D) p r w = (w', s, response)"
    and "2 * card (set (member_pids N w p) - D) < length (member_nodes w p)"
  shows "s = not_enough \<and> response = default_Response \<and> (\<forall>q. data w' q = data w q)"
  using assms by (rule attempt_minority)

lemma minority_has_no_effect_witness:
  "fst (snd ex_alone) = not_enough \<and> data (fst ex_alone) 0 = ex_data"
proof -
  have "{0, 1, 2} - {1, 2} = {0 :: nat}" by auto
  then show ?thesis
    using minority_has_no_effect [OF ex_cluster_ok ex_distinct ex_alone_eq]
    by (simp add: ex_member_pids)
qed

theorem failure_is_invisible_witness: "kv_store (procs (fst ex_alone) 1) = []"
proof -
  have "{0, 1, 2} - {1, 2} = {0 :: nat}" by auto
  then have "fst (snd ex_alone) = not_enough"
    using attempt_minority [OF ex_cluster_ok ex_distinct ex_alone_eq] by (simp add: ex_member_pids)
  then have "\<not> ok (fst (snd ex_alone))" by (simp add: not_enough_def)
  from failure_is_invisible [OF ex_alone_eq ex_cluster_ok this, of 1] show ?thesis by simp
qed

text \<open>Claim C14: availability. When processes only crash and half of the members are alive, an
  attempt at a live process of a healthy cluster succeeds with the requested value and every
  live process commits it: the live processes stay equal replicas and the cluster healthy.\<close>

theorem live_half_commits:
  assumes "healthy N S D n w d" and "n < 2 ^ 31" and "p \<in> S - D"
    and "AttemptConsensus (crash_net N D) p r w = (w', s, response)"
    and "req_key r = ''leader'' \<longrightarrow> (\<exists>q \<in> S. req_value r = self_address (procs w q))"
  shows "s = Status_OK \<and> resp_value response = req_value r \<and>
    (\<forall>q \<in> S - D. data w' q = commit_data r d) \<and> healthy N S D (Suc n) w' (commit_data r d)"
  using healthy_attempt [OF assms(1-4)] assms(5) by (auto simp: healthy_def replicas_def)

definition ex_crashed :: "World \<times> Status \<times> Response" where
  "ex_crashed = AttemptConsensus (crash_net (ex_net 3) {2}) 0 (put ''k'' ''v'') (ex_world 3)"

theorem live_half_commits_witness:
  "fst (snd ex_crashed) = Status_OK \<and> kv_store (procs (fst ex_crashed) 1) = [(''k'', ''v'')]"
proof -
  have "AttemptConsensus (crash_net (ex_net 3) {2}) 0 (put ''k'' ''v'') (ex_world 3) =
      (fst ex_crashed, fst (snd ex_crashed), snd (snd ex_crashed))" by (simp add: ex_crashed_def)
  from live_half_commits [OF ex_healthy _ _ this]
  have "fst (snd ex_crashed) = Status_OK \<and>
      data (fst ex_crashed) 1 = commit_data (put ''k'' ''v'') ex_data" by simp
  moreover have "d_kv (commit_data (put ''k'' ''v'') ex_data) = [(''k'', ''v'')]"
    by (simp add: ex_data_def Set_KV_def)
  ultimately show ?thesis by (metis data_of_sel(2))
qed

text \<open>Claim C17: elections elect. When half of the members are alive, an election started at a live
  process of a healthy cluster succeeds and makes that process the leader at every live one,
  and changes no store.\<close>

theorem election_elects_initiator:
  assumes "healthy N S D n w d" and "n < 2 ^ 31" and "p \<in> S - D"
    and "trigger_election (crash_net N D) p w = (w', s, u)"
  shows "s = Status_OK \<and> (\<forall>q \<in> S - D. leader (procs w' q) = self_address (procs w' p) \<and>
    kv_store (procs w' q) = kv_store (procs w q))"
proof -
  note el = healthy_election [OF assms]
  let ?d = "commit_data (election_request (self_address (procs w p))) d"
  from el have h: "healthy N S D (Suc n) w' ?d" by blast
  have "leader (procs w' q) = d_leader ?d \<and> kv_store (procs w' q) = d_kv ?d" if "q \<in> S - D" for q
    using healthy_leader [OF h that] healthy_kv [OF h that] by blast
  moreover have "self_address (procs w' p) = self_address (procs w p)"
    using el by (blast intro: self_address_static)
  ultimately show ?thesis
    using el healthy_kv [OF assms(1)] by (simp add: election_request_def)
qed

definition ex_elected :: "World \<times> Status \<times> unit" where
  "ex_elected = trigger_election (crash_net (ex_net 3) {0}) 2 (ex_world 3)"

theorem election_elects_initiator_witness:
  "fst (snd ex_elected) = Status_OK \<and>
    leader (procs (fst ex_elected) 1) = self_address (procs (fst ex_elected) 2)"
proof -
  have "trigger_election (crash_net (ex_net 3) {0}) 2 (ex_world 3) =
      (fst ex_elected, fst (snd ex_elected), snd (snd ex_elected))"
    by (simp add: ex_elected_def prod_eq_iff)
  from election_elects_initiator [OF ex_healthy _ _ this] show ?thesis by simp
qed

subsection \<open>Invariants and cost of an attempt\<close>

text \<open>The replicated data stays well formed. Every attempt, whatever the network does,
  keeps at every process the container invariants of the log and the store, and the invariant
  that no entry records a promise and that the acceptor of an entry is 0 or 1.\<close>

lemma data_invariant:
  assumes "AttemptConsensus N p r w = (w', s, response)" and "cluster_ok w p"
    and "data_ok (data w q)"
  shows "data_ok (data w' q)"
  using assms by (rule attempt_data_ok)

lemma data_invariant_witness: "data_ok (data (fst ex_commit) 2)"
  by (rule data_invariant [OF ex_commit_run ex_cluster_ok])
    (simp add: data_ok_def ex_data_def log_find_def smap_ok_def)

text \<open>Logs only grow. An attempt never removes a log entry of any process, so the round
  numbers, which count the entries of a key, never go back while a process runs.\<close>

lemma logs_only_grow:
  assumes "AttemptConsensus N p r w = (w', s, response)" and "cluster_ok w p"
    and "log_find (pax_log (procs w q)) key rnd \<noteq> None"
  shows "log_find (pax_log (procs w' q)) key rnd \<noteq> None"
  using assms by (rule attempt_log_mono)

definition ex_again :: "World \<times> Status \<times> Response" where
  "ex_again = AttemptConsensus (ex_net 3) 2 (put ''k'' ''x'') ex_voted"

lemma logs_only_grow_witness: "log_find (pax_log (procs (fst ex_again) 0)) ''k'' 0 \<noteq> None"
proof -
  have eq: "AttemptConsensus (ex_net 3) 2 (put ''k'' ''x'') ex_voted =
      (fst ex_again, fst (snd ex_again), snd (snd ex_again))" by (simp add: ex_again_def)
  have "cluster_ok ex_voted 2"
    using ex_proposer [unfolded proposer_static [OF ex_voted_static, symmetric]]
    by (simp add: proposer_def)
  from logs_only_grow [OF eq this] show ?thesis by (simp add: ex_voted_def log_find_def)
qed

text \<open>Claim C40: cost. An attempt in a cluster of \<open>n\<close> members sends at least \<open>n\<close> and at most
  \<open>4 n\<close> calls.\<close>

theorem attempt_call_bounds:
  assumes "AttemptConsensus N p r w = (w', s, response)" and "cluster_ok w p"
  shows "clock w + length (member_nodes w p) \<le> clock w' \<and>
    clock w' \<le> clock w + 4 * length (member_nodes w p)"
  using assms by (rule attempt_clock)

theorem attempt_call_bounds_witness: "3 \<le> clock (fst ex_commit) \<and> clock (fst ex_commit) \<le> 12"
  using attempt_call_bounds [OF ex_commit_run ex_cluster_ok] by simp

subsection \<open>Quorums\<close>

text \<open>The quorum test. The test on \<open>ceil(num_replicas / 2.0) - 1\<close> in floating point
  fails a phase exactly when fewer than half of the replicas answered.\<close>

lemma quorum_test_is_half: "quorum_missed num num_replicas \<longleftrightarrow> 2 * num < num_replicas"
  by (rule quorum_missed_iff)

text \<open>Quorums meet in an odd cluster. With an odd number of members any two sets that
  pass the test share a member.\<close>

lemma odd_quorums_meet:
  assumes "odd (card S)" and "is_quorum S Q" and "is_quorum S R"
  shows "Q \<inter> R \<noteq> {}"
  using assms odd_cluster.intersect [of S Q R] by (simp add: odd_quorum_def)

lemma odd_quorums_meet_witness: "{0, 1} \<inter> {1, 2 :: nat} \<noteq> {}"
  by (rule odd_quorums_meet [of "{0, 1, 2}"]) (simp_all add: is_quorum_iff)

text \<open>Claim C35: an even cluster splits. With an even number of members, two halves that cannot reach
  each other both accept attempts: both report success, and each half commits its own value,
  also for the same key.\<close>

theorem even_cluster_splits:
  assumes "connected N (A \<union> B) w" and "replicas (A \<union> B) w d" and "log_full (d_log d)"
    and "rounds (d_log d) (req_key r1) < 2 ^ 31" and "rounds (d_log d) (req_key r2) < 2 ^ 31"
    and "A \<inter> B = {}" and "card A = card B" and "p \<in> A" and "q \<in> B"
    and "AttemptConsensus (crash_net N B) p r1 w = (w1, s1, resp1)"
    and "AttemptConsensus (crash_net N A) q r2 w1 = (w2, s2, resp2)"
  shows "s1 = Status_OK \<and> s2 = Status_OK \<and> (\<forall>x \<in> A. data w2 x = commit_data r1 d) \<and>
    (\<forall>x \<in> B. data w2 x = commit_data r2 d)"
  using split_brain [OF assms(1-5) refl assms(6-11)] by (simp add: replicas_def)

theorem even_cluster_splits_witness:
  "\<exists>w' :: World. (\<forall>q \<in> {0, 1}. kv_store (procs w' q) = [(''k'', ''a'')]) \<and>
    (\<forall>q \<in> {2, 3}. kv_store (procs w' q) = [(''k'', ''b'')])"
proof -
  obtain w1 s1 r1 where a1: "AttemptConsensus (crash_net (ex_net 4) {2, 3}) 0 (put ''k'' ''a'')
      (ex_world 4) = (w1, s1, r1)"
    by (cases "AttemptConsensus (crash_net (ex_net 4) {2, 3}) 0 (put ''k'' ''a'') (ex_world 4)")
  obtain w2 s2 r2 where a2: "AttemptConsensus (crash_net (ex_net 4) {0, 1}) 2 (put ''k'' ''b'') w1 =
      (w2, s2, r2)"
    by (cases "AttemptConsensus (crash_net (ex_net 4) {0, 1}) 2 (put ''k'' ''b'') w1")
  have "{..<4} = {0, 1} \<union> {2, 3 :: nat}" by auto
  with ex_connected [of 4] have "connected (ex_net 4) ({0, 1} \<union> {2, 3}) (ex_world 4)" by simp
  moreover have "replicas ({0, 1} \<union> {2, 3}) (ex_world 4) ex_data" by (simp add: replicas_def)
  moreover have "log_full (d_log ex_data)" "rounds (d_log ex_data) key < 2 ^ 31" for key
    by (simp_all add: ex_data_def)
  ultimately have "(\<forall>x \<in> {0, 1}. data w2 x = commit_data (put ''k'' ''a'') ex_data) \<and>
      (\<forall>x \<in> {2, 3}. data w2 x = commit_data (put ''k'' ''b'') ex_data)"
    using even_cluster_splits [OF _ _ _ _ _ _ _ _ _ a1 a2, of ex_data] by simp
  moreover have "d_kv (commit_data (put ''k'' v) ex_data) = [(''k'', v)]" for v
    by (simp add: ex_data_def Set_KV_def)
  ultimately have "(\<forall>q \<in> {0, 1}. kv_store (procs w2 q) = [(''k'', ''a'')]) \<and>
      (\<forall>q \<in> {2, 3}. kv_store (procs w2 q) = [(''k'', ''b'')])" by (metis data_of_sel(2))
  then show ?thesis by (rule exI [where x = w2])
qed

subsection \<open>Where the protocol departs from Paxos\<close>

text \<open>Claim C33: one round can be won twice. In a cluster of five, a first attempt that only its
  proposer accepts fails; a second one, by a process that did not take part, then succeeds with
  its value; and a third one succeeds at the same round with the value of the first. The
  proposal number is always 1, so a proposer that sees two accepted values cannot tell which
  one is newer.\<close>

theorem same_round_two_values:
  "outcomes (snd (attempts twice (ex_world 5))) =
     [(not_enough, ''''), (Status_OK, ''b''), (Status_OK, ''a'')] \<and>
   map (resp_round \<circ> snd) (snd (attempts twice (ex_world 5))) = [0, 0, 0] \<and>
   map (\<lambda>(N, p, r). req_key r) twice = [''k'', ''k'', ''k'']"
  unfolding ex_attempts(2) [OF on_example_scenarios(2)] twice_run twice_rounds
  by (simp add: twice_def put_def set_request_def)

text \<open>Claim C34: success does not mean that the requested value was written. After a failed write of
  \<open>a\<close> that reached one process, another process's write of \<open>b\<close> reports success while every
  process it reaches stores \<open>a\<close>.\<close>

theorem success_with_another_value:
  "outcomes (snd (attempts leftover (ex_world 3))) = [(not_enough, ''''), (Status_OK, ''a'')] \<and>
   kv_store (procs (fst (attempts leftover (ex_world 3))) 2) = [(''k'', ''a'')] \<and>
   map (\<lambda>(N, p, r). req_value r) leftover = [''a'', ''b'']"
proof -
  let ?st = "fst (data_attempts (ex_members 3) leftover (replicate 3 ex_data, 0))"
  have "length (map d_kv (fst ?st)) = 3" unfolding leftover_run by simp
  then have len: "length (fst ?st) = 3" by simp
  then have "map d_kv (fst ?st) ! 2 = d_kv (fst ?st ! 2)" by simp
  then have "d_kv (fst ?st ! 2) = [(''k'', ''a'')]" unfolding leftover_run by simp
  moreover have "data (fst (attempts leftover (ex_world 3))) 2 = fst ?st ! 2"
    using ex_attempts(1) [OF on_example_scenarios(1)] len by (simp add: mirrors_def)
  ultimately have "kv_store (procs (fst (attempts leftover (ex_world 3))) 2) = [(''k'', ''a'')]"
    by (metis data_of_sel(2))
  then show ?thesis
    unfolding ex_attempts(2) [OF on_example_scenarios(1)] leftover_run
    by (simp add: leftover_def put_def set_request_def)
qed


text \<open>A restarted process can re-elect a dead leader. The first process is elected; the
  third restarts, the first crashes, and the election the third starts for itself succeeds with
  the crashed process as the leader.\<close>

lemma restarted_process_elects_dead_leader:
  "outcomes (snd (attempts late_election
     (restarted 3 2 0 (fst (attempts elected (ex_world 3)))))) = [(Status_OK, ''h:1'')]"
  unfolding rerun_attempts(2) [OF on_example_restarts(3,4)] late_election_run ..

end
