(* ===== verification/Properties_Service.thy ===== *)
theory Properties_Service
  imports Scenarios
begin

text \<open>
  The properties of the database service: what a user's \<open>get\<close> and \<open>set\<close> achieve at any
  live process, and where the service departs from a single register per key.
\<close>

lemma two_calls:
  "Database_get 2 = Database_get (Suc (Suc 0))" "Database_set 2 = Database_set (Suc (Suc 0))"
  by (simp_all add: numeral_2_eq_2)

subsection \<open>Requests at any live process\<close>

text \<open>Claim C16: reads are served everywhere. When processes only crash and half of the members are
  alive, \<open>get\<close> at any live process of a healthy cluster, whether the leader is that process,
  another live one or a dead one, returns with status OK and the answer of the replicated
  store; at most one election is held and the store is unchanged. A chain of two handlers is
  enough.\<close>

theorem get_served_everywhere:
  fixes request :: GetRequest
  assumes "healthy N S D n w d" and "n < 2 ^ 31" and "p \<in> S - D"
  shows "\<exists>w' d'. Database_get (Suc (Suc fuel)) (crash_net N D) request False p w =
      Some (w', Status_OK, answer_get request (d_kv d)) \<and>
    healthy N S D (Suc n) w' d' \<and> d_kv d' = d_kv d"
  using get_cluster [OF assms] by blast

theorem get_served_everywhere_witness:
  "\<exists>w'. Database_get 2 (crash_net (ex_net 3) {0}) \<lparr>get_key = ''k''\<rparr> False 1 (ex_world 3) =
    Some (w', Status_OK, \<lparr>get_error = 1, get_value = ''''\<rparr>)"
  using get_served_everywhere [OF ex_healthy [of "{0}"], of 1 0 "\<lparr>get_key = ''k''\<rparr>"]
  by (auto simp: two_calls answer_get_def ex_data_def)

text \<open>Claim C15: writes are served everywhere. Under the same conditions \<open>set\<close> of any key but the
  reserved one, at any live process, returns with status OK, and afterwards the store of every
  live process maps the key to the value and is otherwise unchanged.\<close>

theorem set_served_everywhere:
  fixes request :: SetRequest
  assumes "healthy N S D n w d" and "Suc n < 2 ^ 31" and "p \<in> S - D"
    and "set_key request \<noteq> ''leader''"
  shows "\<exists>w'. Database_set (Suc (Suc fuel)) (crash_net N D) request False p w =
      Some (w', Status_OK, ()) \<and>
    (\<forall>q \<in> S - D. map_of (kv_store (procs w' q)) =
       (map_of (kv_store (procs w q)))(set_key request \<mapsto> set_value request))"
proof -
  from set_cluster [OF assms, of fuel] obtain w' d' where
    w': "Database_set (Suc (Suc fuel)) (crash_net N D) request False p w = Some (w', Status_OK, ())"
    and h: "healthy N S D (n + 2) w' d'"
    and kv: "d_kv d' = Set_KV (set_key request) (set_value request) (d_kv d)" by blast
  show ?thesis
    using w' healthy_kv [OF h] healthy_kv [OF assms(1)] kv by (simp add: map_of_Set_KV)
qed

theorem set_served_everywhere_witness:
  "\<exists>w'. Database_set 2 (crash_net (ex_net 3) {0}) \<lparr>set_key = ''k'', set_value = ''v''\<rparr> False 1
      (ex_world 3) = Some (w', Status_OK, ()) \<and> map_of (kv_store (procs w' 2)) ''k'' = Some ''v''"
proof -
  from set_served_everywhere [OF ex_healthy [of "{0}"], of 1 "\<lparr>set_key = ''k'', set_value = ''v''\<rparr>" 0]
  obtain w' where w': "Database_set (Suc (Suc 0)) (crash_net (ex_net 3) {0})
      \<lparr>set_key = ''k'', set_value = ''v''\<rparr> False 1 (ex_world 3) = Some (w', Status_OK, ())"
    "\<forall>q \<in> {0, 1, 2} - {0}. map_of (kv_store (procs w' q)) =
       (map_of (kv_store (procs (ex_world 3) q)))(''k'' \<mapsto> ''v'')" by auto
  then have "map_of (kv_store (procs w' 2)) ''k'' = Some ''v''" by simp
  with w'(1) show ?thesis by (auto simp: two_calls)
qed

subsection \<open>The bound on the chain of forwards\<close>

text \<open>A result of \<open>get\<close> does not depend on the bound. When the chain of forwards of a
  \<open>get\<close> is short enough for some bound, every larger bound gives the same result.\<close>

lemma get_result_stable:
  assumes "Database_get fuel N r c p w = Some res" and "fuel \<le> fuel'"
  shows "Database_get fuel' N r c p w = Some res"
  using Database_get_mono [OF assms(1), of "fuel' - fuel"] assms(2) by simp

lemma get_result_stable_witness:
  "Database_get 5 (ex_net 3) \<lparr>get_key = ''k''\<rparr> False 0 (ex_world 3) =
    Some (update 0 (count_in ''DatabaseRPC::get'') (ex_world 3), Status_OK,
          \<lparr>get_error = 1, get_value = ''''\<rparr>)"
proof -
  have "Database_get (Suc 0) (ex_net 3) \<lparr>get_key = ''k''\<rparr> False 0 (ex_world 3) =
    Some (update 0 (count_in ''DatabaseRPC::get'') (ex_world 3), Status_OK,
          \<lparr>get_error = 1, get_value = ''''\<rparr>)"
    by (subst get_local) (simp_all add: answer_get_def)
  from get_result_stable [OF this, of 5] show ?thesis by simp
qed

text \<open>A result of \<open>set\<close> does not depend on the bound.\<close>

lemma set_result_stable:
  assumes "Database_set fuel N r c p w = Some res" and "fuel \<le> fuel'"
  shows "Database_set fuel' N r c p w = Some res"
  using Database_set_mono [OF assms(1), of "fuel' - fuel"] assms(2) by simp

lemma set_result_stable_witness:
  "Database_set 5 (ex_net 3) \<lparr>set_key = ''k'', set_value = ''v''\<rparr> True 0 (ex_world 3) =
    Some (update 0 (count_in ''DatabaseRPC::set'') (ex_world 3), cancelled_status, ())"
proof -
  have "Database_set (Suc 0) (ex_net 3) \<lparr>set_key = ''k'', set_value = ''v''\<rparr> True 0 (ex_world 3) =
    Some (update 0 (count_in ''DatabaseRPC::set'') (ex_world 3), cancelled_status, ())"
    by (simp add: Database_set.simps(2) set_step_def Let_def)
  from set_result_stable [OF this, of 5] show ?thesis by simp
qed

subsection \<open>Where the service is not a register\<close>

text \<open>Claim C36: a leader that is cut off answers from its own store. When the leader cannot be
  reached but goes on running, a \<open>set\<close> at another process elects a new leader and succeeds,
  and a \<open>get\<close> at the old leader still answers, with status OK, what was stored before.\<close>

theorem cut_off_leader_reads_old_value:
  fixes request :: SetRequest
  assumes "healthy N S D n w d" and "Suc n < 2 ^ 31" and "q \<in> S - D"
    and "set_key request \<noteq> ''leader''"
    and "p \<in> S" and "p \<in> D" and "data w p = d" and "d_leader d = self_address (procs w p)"
  shows "\<exists>w'. Database_set (Suc (Suc fuel)) (crash_net N D) request False q w =
      Some (w', Status_OK, ()) \<and>
    Database_get (Suc fuel) M \<lparr>get_key = set_key request\<rparr> False p w' =
      Some (update p (count_in ''DatabaseRPC::get'') w', Status_OK,
            answer_get \<lparr>get_key = set_key request\<rparr> (d_kv d)) \<and>
    map_of (kv_store (procs w' q)) (set_key request) = Some (set_value request)"
proof -
  from set_cluster [OF assms(1-4), of fuel] obtain w' d' where
    w': "Database_set (Suc (Suc fuel)) (crash_net N D) request False q w = Some (w', Status_OK, ())"
    and h: "healthy N S D (n + 2) w' d'"
    and kv: "d_kv d' = Set_KV (set_key request) (set_value request) (d_kv d)" by blast
  have "q \<notin> D" using assms(3) by simp
  from set_unreached [OF this assms(6) w'] assms(7) have p: "data w' p = d" by simp
  have self: "self_address (procs w' p) = self_address (procs w p)"
    by (rule self_address_static [OF set_static [OF w']])
  from assms(1) have "connected N S w" by (simp add: healthy_def)
  from connectedD(7) [OF this assms(5)] have "self_address (procs w' p) \<noteq> ''''" by (simp add: self)
  moreover have "leader (procs w' p) = self_address (procs w' p)"
    using arg_cong [where f = d_leader, OF p] assms(8) by (simp add: self)
  moreover have "kv_store (procs w' p) = d_kv d" using arg_cong [where f = d_kv, OF p] by simp
  ultimately have "Database_get (Suc fuel) M \<lparr>get_key = set_key request\<rparr> False p w' =
      Some (update p (count_in ''DatabaseRPC::get'') w', Status_OK,
            answer_get \<lparr>get_key = set_key request\<rparr> (d_kv d))"
    by (subst get_local) simp_all
  with w' healthy_kv [OF h assms(3)] kv show ?thesis by (simp add: map_of_Set_KV)
qed

theorem cut_off_leader_reads_old_value_witness:
  "\<exists>w' w''. Database_set 2 (crash_net (ex_net 3) {0}) \<lparr>set_key = ''k'', set_value = ''v''\<rparr> False 1
      (ex_world 3) = Some (w', Status_OK, ()) \<and>
    Database_get 1 (ex_net 3) \<lparr>get_key = ''k''\<rparr> False 0 w' =
      Some (w'', Status_OK, \<lparr>get_error = 1, get_value = ''''\<rparr>)"
  using cut_off_leader_reads_old_value [OF ex_healthy [of "{0}"], of 1
      "\<lparr>set_key = ''k'', set_value = ''v''\<rparr>" 0 0 "ex_net 3"]
  by (auto simp: two_calls answer_get_def ex_data_def)

text \<open>Claim C37: the key of the leader is not protected. A user's \<open>set\<close> of the key \<open>leader\<close> at the
  leader succeeds and stores nothing: it makes its value the leader at every live process.
  When the value is not the address of a member, \<open>memberList->at\<close> throws in every later \<open>get\<close>
  at a live process.\<close>

theorem leader_key_is_not_protected:
  assumes "healthy N S D n w d" and "n < 2 ^ 31" and "p \<in> S - D"
    and "d_leader d = self_address (procs w p)"
    and "a \<noteq> ''''" and "\<forall>q \<in> S. map_of (memberList (procs w q)) a = None"
    and "\<forall>q \<in> S. a \<noteq> self_address (procs w q)"
  shows "\<exists>w'. Database_set (Suc fuel) (crash_net N D) \<lparr>set_key = ''leader'', set_value = a\<rparr> False p w =
      Some (w', Status_OK, ()) \<and>
    (\<forall>q \<in> S - D. kv_store (procs w' q) = kv_store (procs w q) \<and> leader (procs w' q) = a \<and>
      (\<forall>M request. Database_get (Suc fuel) M request False q w' =
         Some (update q (count_in ''DatabaseRPC::get'') w', uncaught_exception,
               default_GetResponse)))"
proof -
  let ?r = "set_request \<lparr>set_key = ''leader'', set_value = a\<rparr>"
  let ?w = "update p (count_in ''DatabaseRPC::set'') w"
  have h1: "healthy N S D n ?w d" by (rule healthy_count_in [OF assms(1)])
  then have con: "connected N S ?w" and full: "log_full (d_log d)" and b: "bounded n d"
    and rep: "replicas (S - D) ?w d" and maj: "card S \<le> 2 * card (S - D)" by (auto simp: healthy_def)
  from assms(3) have pS: "p \<in> S" by simp
  note c = connectedD [OF con pS]
  obtain w' s response where att: "AttemptConsensus (crash_net N D) p ?r ?w = (w', s, response)"
    by (cases "AttemptConsensus (crash_net N D) p ?r ?w")
  have "s = Status_OK \<and> resp_value response = req_value ?r \<and> replicas (S - D) w' (commit_data ?r d)"
  proof (rule attempt_crash [OF c(1,3) att, unfolded c(4,5)])
    show "rounds (d_log d) (req_key ?r) < 2 ^ 31"
      using b assms(2) by (simp add: bounded_def) (meson le_less_trans)
  qed (use assms(3) maj rep full in auto)
  then have s: "s = Status_OK" and d': "data w' q = commit_data ?r d" if "q \<in> S - D" for q
    using that assms(3) by (auto simp: replicas_def)
  have st: "static w' q = static w q" for q using attempt_static_any [OF att, of q] by simp
  have "kv_store (procs w' q) = kv_store (procs w q)" "leader (procs w' q) = a" if "q \<in> S - D" for q
    using arg_cong [where f = d_kv, OF d' [OF that]] arg_cong [where f = d_leader, OF d' [OF that]]
      healthy_kv [OF assms(1) that] by (simp_all add: set_request_def)
  moreover have "Database_get (Suc fuel) M request False q w' =
      Some (update q (count_in ''DatabaseRPC::get'') w', uncaught_exception, default_GetResponse)"
    if "q \<in> S - D" "leader (procs w' q) = a" for q M request
  proof -
    from st [of q] have "memberList (procs w' q) = memberList (procs w q)" by (simp add: static_eq)
    with that assms(5-7) self_address_static [OF st, of q] show ?thesis
      unfolding Database_get.simps(2) by (simp add: get_step_def Let_def)
  qed
  moreover have "Database_set (Suc fuel) (crash_net N D) \<lparr>set_key = ''leader'', set_value = a\<rparr> False p w =
      Some (w', Status_OK, ())"
    using att s [OF assms(3)] healthy_leader [OF assms(1,3)] assms(4) c(7)
    by (simp add: Database_set.simps(2) set_step_def Let_def)
  ultimately show ?thesis by blast
qed

theorem leader_key_is_not_protected_witness:
  "\<exists>w' w''. Database_set 1 (crash_net (ex_net 3) {}) \<lparr>set_key = ''leader'', set_value = ''x''\<rparr> False 0
      (ex_world 3) = Some (w', Status_OK, ()) \<and>
    Database_get 1 (ex_net 3) \<lparr>get_key = ''k''\<rparr> False 2 w' =
      Some (w'', uncaught_exception, default_GetResponse)"
  using leader_key_is_not_protected [OF ex_healthy [of "{}"], of 0 "''x''" 0]
  by (auto simp: ex_members ex_data_def)

end
