(* ===== verification/Support.thy ===== *)
theory Support
  imports Process
begin

text \<open>
  The small helpers of the program: the disk helpers of \<open>Consensus\<close> (app.cc), the clock and
  path helpers (utility.cc), the printing of \<open>Statistics\<close> and of addresses and the look-up of
  the machine's address (declaration.h). The disk is a map from paths to contents, passed
  through as the file system is; readings of the clock, the local time, the resolver and the
  resolution of symbolic links are arguments. Colours of the terminal are left out.
\<close>

subsection \<open>The disk helpers\<close>

type_synonym Disk = "string \<Rightarrow> string option"

abbreviation newline :: char where
  "newline \<equiv> CHR 0x0A"

text \<open>\<open>std::getline\<close> reads up to the end of the first line; nothing when the file is missing.\<close>

definition readFromDisk :: "string \<Rightarrow> Disk \<Rightarrow> string" where
  "readFromDisk path disk =
     (case disk path of None \<Rightarrow> '''' | Some content \<Rightarrow> takeWhile (\<lambda>c. c \<noteq> newline) content)"

text \<open>A stream that cannot be opened ignores what is written to it.\<close>

definition writeToDisk :: "(string \<Rightarrow> bool) \<Rightarrow> string \<Rightarrow> string \<Rightarrow> Disk \<Rightarrow> Disk" where
  "writeToDisk can_open path v disk = (if can_open path then disk(path \<mapsto> v) else disk)"

lemma takeWhile_all: "takeWhile P xs = xs \<longleftrightarrow> (\<forall>x \<in> set xs. P x)"
  by (metis set_takeWhileD takeWhile_eq_all_conv)

lemma read_written:
  "can_open path \<Longrightarrow> readFromDisk path (writeToDisk can_open path v disk) = takeWhile (\<lambda>c. c \<noteq> newline) v"
  by (simp add: readFromDisk_def writeToDisk_def)

lemma read_other:
  "path' \<noteq> path \<Longrightarrow> readFromDisk path' (writeToDisk can_open path v disk) = readFromDisk path' disk"
  by (simp add: readFromDisk_def writeToDisk_def)

subsection \<open>The clock\<close>

text \<open>\<open>std::string::substr\<close> throws when it starts behind the end.\<close>

definition substr :: "nat \<Rightarrow> nat \<Rightarrow> string \<Rightarrow> exn + string" where
  "substr pos n s = (if length s < pos then Inl Out_of_range else Inr (take n (drop pos s)))"

definition setw0 :: "nat \<Rightarrow> string \<Rightarrow> string" where
  "setw0 n s = replicate (n - length s) CHR ''0'' @ s"

text \<open>\<open>us\<close> is the high-resolution clock in microseconds, \<open>ms\<close> the system clock in milliseconds
  and \<open>hms\<close> the local time as \<open>%T\<close> prints it; the Greek letter is two bytes.\<close>

definition clock_fraction :: "nat \<Rightarrow> string" where
  "clock_fraction ms = setw0 3 (to_string (ms mod 1000000))"

definition getClockTime :: "nat \<Rightarrow> nat \<Rightarrow> string \<Rightarrow> exn + string" where
  "getClockTime us ms hms =
     (let time_micro = to_string us
      in case substr 10 (length time_micro) time_micro of
           Inl e \<Rightarrow> Inl e
         | Inr micro \<Rightarrow>
             Inr (hms @ ''.'' @ clock_fraction ms @ '' '' @ [CHR 0xCE, CHR 0xBC] @ ''='' @ micro @ '' ''))"

lemma length_to_string: "0 < k \<Longrightarrow> length (to_string n) \<le> k \<longleftrightarrow> n < 10 ^ k"
proof (induction k arbitrary: n)
  case 0
  then show ?case by simp
next
  case (Suc k)
  show ?case
  proof (cases "n < 10")
    case True
    moreover have "(10 :: nat) \<le> 10 ^ Suc k" by simp
    ultimately have "n < 10 ^ Suc k" by linarith
    with True show ?thesis by (subst to_string.simps) simp
  next
    case False
    show ?thesis
    proof (cases "k = 0")
      case True
      have "1 \<le> length (to_string (n div 10))" using to_string_not_Nil by (simp add: Suc_le_eq)
      with True False show ?thesis by (subst to_string.simps) simp
    next
      case k: False
      have "n div 10 < 10 ^ k \<longleftrightarrow> n < 10 ^ Suc k" by (simp add: div_less_iff_less_mult mult.commute)
      with Suc.IH [of "n div 10"] k False show ?thesis by (subst to_string.simps) simp
    qed
  qed
qed

lemma clock_fraction_width: "length (clock_fraction ms) = 3 \<longleftrightarrow> ms mod 1000000 < 1000"
proof -
  have "length (clock_fraction ms) = 3 \<longleftrightarrow> length (to_string (ms mod 1000000)) \<le> 3"
    by (auto simp: clock_fraction_def setw0_def)
  then show ?thesis using length_to_string [of 3 "ms mod 1000000"] by simp
qed

subsection \<open>Paths\<close>

text \<open>\<open>canonical\<close> throws, here \<open>None\<close>, for a path that does not exist; \<open>relative\<close> is the one
  of the library.\<close>

definition constructRelativePath ::
    "(string \<Rightarrow> string option) \<Rightarrow> (string \<Rightarrow> string \<Rightarrow> string) \<Rightarrow> string \<Rightarrow> string \<Rightarrow> string option" where
  "constructRelativePath canonical relative path rootPath =
     (case (if path \<noteq> [] \<and> hd path = CHR ''/'' then Some path else canonical path) of
        None \<Rightarrow> None
      | Some path \<Rightarrow> Some (relative path rootPath))"

subsection \<open>Printing\<close>

datatype rpc_type = Incoming | Outgoing

text \<open>\<open>Statistics::print\<close>: the counts are collected and not printed.\<close>

definition print_statistics :: "rpc_type \<Rightarrow> Process \<Rightarrow> string" where
  "print_statistics t P =
     (let l = (case t of Incoming \<Rightarrow> incount P | Outgoing \<Rightarrow> outcount P)
      in ''registered rpc call counts: ['' @ concat (map (\<lambda>(key, n). '', '' @ key) l) @ '']'' @ [newline])"

lemma print_statistics_keys:
  assumes "map fst (incount P) = map fst (incount Q)" and "map fst (outcount P) = map fst (outcount Q)"
  shows "print_statistics t P = print_statistics t Q"
proof -
  have "map (\<lambda>(key, n). '', '' @ key) l = map (\<lambda>key. '', '' @ key) (map fst l)" for l :: Counters
    by (simp add: case_prod_beta)
  then show ?thesis using assms by (cases t) (simp_all only: print_statistics_def Let_def rpc_type.case)
qed

definition show_address :: "Address \<Rightarrow> string" where
  "show_address a = ''address: '' @ address a @ '', port: '' @ to_string (unat (port a))"

subsection \<open>The rest\<close>

text \<open>The first address the resolver gives for the host.\<close>

definition getLocalIP :: "(string \<Rightarrow> string list) \<Rightarrow> string \<Rightarrow> string option" where
  "getLocalIP resolve host_name =
     (case resolve host_name of [] \<Rightarrow> None | a # others \<Rightarrow> Some a)"

text \<open>The class around an option of enumeration type; without an argument it holds the first
  constructor.\<close>

record EnumOption =
  option_value :: Mode

definition EnumOption_default :: EnumOption where
  "EnumOption_default = \<lparr>option_value = NODE\<rparr>"

definition EnumOption_of :: "Mode \<Rightarrow> EnumOption" where
  "EnumOption_of m = \<lparr>option_value = m\<rparr>"

text \<open>The body of the periodic ping is commented out.\<close>

definition broadcastPeriodicPing :: "'w \<Rightarrow> 'w" where
  "broadcastPeriodicPing w = w"

end
