(* ===== verification/Properties_Node.thy ===== *)
theory Properties_Node
  imports Example_Cluster Support
begin

text \<open>
  The properties of one process: the acceptor handlers, the log and the store, the
  addresses, the call counters, and start-up.
\<close>

subsection \<open>The acceptor handlers\<close>

text \<open>A proposal is never refused. Since promises are not recorded, \<open>propose\<close> answers OK to
  every request with a proposal number that is not negative, and reports the accepted value
  of the entry exactly when there is one.\<close>

lemma proposals_are_never_refused:
  assumes "data_ok (data_of P)" and "req_pserver_id r \<ge> 0"
  shows "\<exists>response. snd (propose False r P) = (Status_OK, response) \<and>
    (resp_aserver_id response > 0 \<longleftrightarrow>
      (\<exists>e. log_find (pax_log P) (req_key r) (req_round r) = Some e \<and> a_server_id e > 0 \<and>
        resp_value response = accepted_value e \<and> resp_op response = entry_op e))"
  using assms
  by (auto simp: data_simps answer_propose_def Let_def data_ok_def default_LogEntry_def
      default_Response_def split: option.splits if_splits)

lemma proposals_are_never_refused_witness:
  "fst (snd (propose False (default_Request\<lparr>req_pserver_id := 1\<rparr>) (ex_process 3 0))) = Status_OK"
  using proposals_are_never_refused [of "ex_process 3 0" "default_Request\<lparr>req_pserver_id := 1\<rparr>"]
  by (auto simp: data_ok_def ex_data_def log_find_def smap_ok_def)

text \<open>A late \<open>success\<close> overwrites the log although it is refused. When the key has a later
  round, \<open>success\<close> answers ABORTED and leaves store and leader alone, but the entry of its round
  now holds the request's value, whatever was accepted there before.\<close>

lemma outdated_success_still_overwrites:
  assumes "log_ok (pax_log P)" and "log_find (pax_log P) (req_key r) later \<noteq> None"
    and "later > req_round r"
  shows "snd (success False r P) = (Status ABORTED ''Information is outdated.'', ()) \<and>
    kv_store (fst (success False r P)) = kv_store P \<and> leader (fst (success False r P)) = leader P \<and>
    (\<exists>e. log_find (pax_log (fst (success False r P))) (req_key r) (req_round r) = Some e \<and>
      accepted_value e = req_value r \<and> a_server_id e = req_pserver_id r)"
proof -
  let ?lg = "d_log (data_accept r (data_of P))"
  have ok: "smap_ok (smap_index [] ?lg (req_key r))"
    using assms(1) by (simp add: data_accept_def log_ok_accept log_ok_index)
  have "log_find ?lg (req_key r) later = log_find (pax_log P) (req_key r) later"
    using assms(3) by (simp add: data_accept_def log_find_accept)
  with assms(2) obtain e where "map_of (smap_index [] ?lg (req_key r)) later = Some e"
    by (auto simp: log_find_def)
  then have "(later, e) \<in> set (smap_index [] ?lg (req_key r))"
    using smap_in_iff [OF ok] by simp
  then have "later \<le> largest_round (smap_index [] ?lg (req_key r))" by (rule largest_round_ge)
  with assms(3) have out: "outdated r (data_of P)" by (simp add: outdated_def)
  then have d: "data_of (fst (success False r P)) = data_accept r (data_of P)"
    by (simp add: data_simps data_success_def Let_def)
  have "kv_store (fst (success False r P)) = kv_store P"
    using arg_cong [where f = d_kv, OF d] by (simp add: data_accept_def)
  moreover have "leader (fst (success False r P)) = leader P"
    using arg_cong [where f = d_leader, OF d] by (simp add: data_accept_def)
  moreover have "pax_log (fst (success False r P)) = ?lg"
    using arg_cong [where f = d_log, OF d] by simp
  ultimately show ?thesis using out by (simp add: data_simps answer_success_def accepted_accept)
qed

definition ex_two_rounds :: Process where
  "ex_two_rounds = (ex_process 3 0)\<lparr>pax_log :=
     Set_Log_proposal ''k'' 1 (Set_Log_proposal ''k'' 0 [])\<rparr>"

lemma outdated_success_still_overwrites_witness:
  "fst (snd (success False (default_Request\<lparr>req_key := ''k''\<rparr>) ex_two_rounds)) =
    Status ABORTED ''Information is outdated.''"
  using outdated_success_still_overwrites [of ex_two_rounds "default_Request\<lparr>req_key := ''k''\<rparr>" 1]
  by (simp add: ex_two_rounds_def log_ok_proposal log_find_proposal default_Request_def)

subsection \<open>The log and the store\<close>

lemma max_round_above_ge:
  "i \<le> max_round_above i m \<and> (\<forall>x \<in> set m. fst x \<le> max_round_above i m)"
  by (induction i m rule: max_round_above.induct) (auto split: if_splits)

lemma max_round_above_in:
  "max_round_above i m = i \<or> (\<exists>e. (max_round_above i m, e) \<in> set m)"
  by (induction i m rule: max_round_above.induct) (auto split: if_splits)

text \<open>The search for the newest proposal is right. \<open>Find_Max_Proposal\<close> returns round 0 and
  no value when the key has no round above the given one, and otherwise the key's highest round
  with the value of its entry.\<close>

lemma find_max_proposal_is_maximum:
  assumes "log_ok lg"
  shows "if \<exists>later e. log_find lg key later = Some e \<and> later > rnd
    then (\<exists>later e. log_find lg key later = Some e \<and> later > rnd \<and>
      Find_Max_Proposal key rnd lg = (accepted_value e, later) \<and>
      (\<forall>other. log_find lg key other \<noteq> None \<longrightarrow> other \<le> later))
    else Find_Max_Proposal key rnd lg = ('''', 0)"
proof -
  let ?m = "smap_index [] lg key" and ?max = "max_round_above rnd (smap_index [] lg key)"
  have ok: "smap_ok ?m" using assms by (rule log_ok_index)
  have in_iff: "log_find lg key r = Some e \<longleftrightarrow> (r, e) \<in> set ?m" for r e
    using smap_in_iff [OF ok] by (simp add: log_find_def)
  have ge: "rnd \<le> ?max" "log_find lg key r = Some e \<Longrightarrow> r \<le> ?max" for r e
    using max_round_above_ge [of rnd ?m] by (auto simp: in_iff)
  show ?thesis
  proof (cases "?max = rnd")
    case True
    then have none: "(\<exists>later e. log_find lg key later = Some e \<and> later > rnd) = False"
      using ge(2) by fastforce
    show ?thesis
      unfolding none if_False using True by (simp add: Find_Max_Proposal_def Get_Log_all_def)
  next
    case False
    then obtain e where e: "log_find lg key ?max = Some e"
      using max_round_above_in [of rnd ?m] by (auto simp: in_iff)
    with False ge(1) have above: "rnd < ?max" by simp
    with e have some: "(\<exists>later e. log_find lg key later = Some e \<and> later > rnd) = True" by blast
    have "Find_Max_Proposal key rnd lg = (accepted_value e, ?max)"
      using False e by (simp add: Find_Max_Proposal_def Get_Log_all_def log_find_def)
    with e above ge(2) show ?thesis unfolding some if_True by blast
  qed
qed

lemma find_max_proposal_is_maximum_witness:
  "Find_Max_Proposal ''k'' 0 (Set_Log_accept ''k'' 7 1 SET ''v'' []) = (''v'', 7)"
proof -
  have "log_ok (Set_Log_accept ''k'' 7 1 SET ''v'' [])" by (simp add: log_ok_accept)
  moreover have "log_find [] key r = None" for key r by (simp add: log_find_def smap_index_def)
  ultimately show ?thesis
    using find_max_proposal_is_maximum [of "Set_Log_accept ''k'' 7 1 SET ''v'' []" "''k''" 0]
    by (auto simp: log_find_accept split: if_splits)
qed

text \<open>The store is a map with an error code. Writing and deleting act on the store as on a
  function from keys to values, other keys untouched, and \<open>Get_KV\<close> distinguishes a missing
  key (error 1) from a stored empty string (error 0).\<close>

lemma store_implements_map:
  "map_of (Set_KV key v kv) = (map_of kv)(key \<mapsto> v) \<and>
   map_of (Delete_KV key kv) = (map_of kv)(key := None) \<and>
   Get_KV k (Set_KV key v kv) = (if k = key then (v, 0) else Get_KV k kv) \<and>
   Get_KV k (Delete_KV key kv) = (if k = key then ('''', 1) else Get_KV k kv) \<and>
   (snd (Get_KV k kv) = 1 \<longleftrightarrow> map_of kv k = None)"
  using kv.put_abs kv.del_abs kv.get_put kv.get_del kv.get_missing by simp

text \<open>Recovery restores the leader's store. Copying a snapshot entry by entry makes the
  store agree with the snapshot on every key of the snapshot and leaves the other keys; a
  process that starts empty ends with the leader's map.\<close>

lemma recovery_copies_snapshot:
  assumes "smap_ok snapshot"
  shows "map_of (restore (Get_DB snapshot) kv) = map_of kv ++ map_of snapshot \<and>
    map_of (restore (Get_DB snapshot) []) = map_of snapshot"
  using map_of_restore [OF assms] by (simp add: Get_DB_def)

lemma recovery_copies_snapshot_witness:
  "map_of (restore (Get_DB [(''a'', ''1''), (''b'', ''2'')]) [(''b'', ''0''), (''c'', ''3'')]) ''b'' =
    Some ''2''"
proof -
  have "smap_ok [(''a'', ''1''), (''b'', ''2'')]" by code_simp
  from recovery_copies_snapshot [OF this, of "[(''b'', ''0''), (''c'', ''3'')]"] show ?thesis by simp
qed

subsection \<open>Addresses and call counters\<close>

text \<open>Addresses round trip. An address written by \<open>toString\<close> and read by \<open>make_address\<close>
  is itself, when the library functions tokenize it as documented, and no two addresses are
  written alike, so an address string identifies a member.\<close>

lemma address_round_trip:
  assumes "tokenizes split cast a"
  shows "make_address split cast (toString a) = Inr a \<and> (toString b = toString a \<longleftrightarrow> b = a)"
  using make_address_toString [OF assms] by (simp add: toString_inject)

lemma address_round_trip_witness:
  "make_address tokens parse_port ''h:3'' = Inr (ex_address 2)"
proof -
  have "tokenizes tokens parse_port (ex_address 2)" using ex_tokenizes by (simp add: upt3)
  from address_round_trip [OF this] show ?thesis by simp
qed

text \<open>Start-up stops at the first bad address. When an entry of the cluster option does not
  split into two parts, start-up throws the validation error of that entry, whatever follows
  it, and no process state results.\<close>

lemma bad_address_stops_start_up:
  assumes "\<forall>a \<in> set as. tokenizes split cast a" and "length (split s) \<noteq> 2"
  shows "initializeStaticInstance split cast (map toString as @ s # rest) c P =
    Inl (Validation_error s)"
proof -
  have "make_addresses split cast (map toString as @ s # rest) = Inl (Validation_error s)"
    using assms
    by (induction as) (simp_all add: make_address_toString make_address_def [of split cast s])
  then show ?thesis by (simp add: initializeStaticInstance_def)
qed

lemma bad_address_stops_start_up_witness:
  "initializeStaticInstance tokens parse_port (map toString (map ex_address [0..<3]) @ [''h'', ''h:9''])
    (ex_config 0) ex_blank = Inl (Validation_error ''h'')"
  by (rule bad_address_stops_start_up [OF ex_tokenizes]) code_simp

text \<open>The counters count. After any sequence of increments from the empty map, the counter
  of a name is the number of its occurrences, and a name that never occurred has none.\<close>

lemma counters_count:
  "map_of (fold increment calls []) s =
    (if s \<in> set calls then Some (int (length (filter (\<lambda>c. c = s) calls))) else None)"
proof (induction calls rule: rev_induct)
  case Nil
  then show ?case by simp
next
  case (snoc c calls)
  then show ?case by (auto simp: increment_def filter_empty_conv)
qed

subsection \<open>Start-up\<close>

text \<open>Claim C22: start-up connects the cluster. When every process has been initialised from the same
  list of distinct addresses, its own among them, and the transport delivers to a process what
  is sent to its endpoints, then every process knows every member, its own node leads to
  itself, addresses identify processes, and nobody has a leader.\<close>

theorem start_up_connects:
  assumes "started split cast as w" and "\<forall>a \<in> set as. tokenizes split cast a"
    and "listening N as" and "distinct as" and "as \<noteq> []" and "length as < 2 ^ 31"
  shows "connected N {..<length as} w \<and> (\<forall>i < length as. leader (procs w i) = '''')"
  using startup_knows [OF assms(1,2)] members_connected [OF _ assms(3-6)] by blast

theorem start_up_connects_witness: "connected (ex_net 3) {..<3} (ex_boot 3)"
  using start_up_connects [OF ex_started ex_tokenizes ex_listening ex_distinct_addresses] by simp

text \<open>Claim C21: a process that starts late adopts the agreed leader. When the live members that name
  a leader all name the same live one, \<open>coordinate\<close> at another process without the leader flag
  makes it the leader there, copies its store over the own one, and changes no other process.\<close>

theorem late_starter_adopts_leader:
  assumes "connected N S w" and "p \<in> S" and "p \<noteq> l" and "agreed N S D w l"
    and "\<not> flag_leader (flag (config (procs w p)))" and "smap_ok (memberList (procs w p))"
  shows "\<exists>w'. coordinate (crash_net N D) p w = Some w' \<and>
    leader (procs w' p) = self_address (procs w l) \<and>
    kv_store (procs w' p) = restore (kv_store (procs w l)) (kv_store (procs w p)) \<and>
    pax_log (procs w' p) = pax_log (procs w p) \<and>
    (\<forall>q. q \<noteq> p \<longrightarrow> data w' q = data w q)"
proof -
  from coordinate_adopts [OF assms] obtain w' where "coordinate (crash_net N D) p w = Some w'"
    and d: "\<And>q. data w' q = (if q = p then (data w p)\<lparr>d_leader := self_address (procs w l),
        d_kv := restore (kv_store (procs w l)) (kv_store (procs w p))\<rparr> else data w q)" by blast
  moreover have "leader (procs w' p) = self_address (procs w l)"
    using arg_cong [where f = d_leader, OF d [of p]] by simp
  moreover have "kv_store (procs w' p) = restore (kv_store (procs w l)) (kv_store (procs w p))"
    using arg_cong [where f = d_kv, OF d [of p]] by simp
  moreover have "pax_log (procs w' p) = pax_log (procs w p)"
    using arg_cong [where f = d_log, OF d [of p]] by simp
  ultimately show ?thesis by auto
qed

text \<open>The second process has the store of the first to copy and no leader yet.\<close>

definition ex_late :: World where
  "ex_late = update 0 (\<lambda>P. P\<lparr>kv_store := [(''k'', ''v'')]\<rparr>)
     (update 1 (\<lambda>P. P\<lparr>leader := ''''\<rparr>) (ex_world 3))"

theorem late_starter_adopts_leader_witness:
  "\<exists>w'. coordinate (crash_net (ex_net 3) {2}) 1 ex_late = Some w' \<and>
    leader (procs w' 1) = ''h:1'' \<and> kv_store (procs w' 1) = [(''k'', ''v'')]"
proof -
  have st: "static ex_late q = static (ex_world 3) q" for q
    by (simp add: ex_late_def procs_update)
  have self: "self_address (procs ex_late q) = toString (ex_address q)" for q
    using self_address_static [OF st, of q] by simp
  have con: "connected (ex_net 3) {..<3} ex_late"
    using ex_connected [of 3] connected_static [OF st] by simp
  have "agreed (ex_net 3) {..<3} {2} ex_late 0"
    using self [of 0] by (auto simp: agreed_def lessThan3 ex_late_def procs_update)
  moreover have "\<not> flag_leader (flag (config (procs ex_late 1)))"
    "smap_ok (memberList (procs ex_late 1))"
    by (simp_all add: ex_late_def procs_update smap_ok_insert_members) (simp add: ex_process_def)
  ultimately have "\<exists>w'. coordinate (crash_net (ex_net 3) {2}) 1 ex_late = Some w' \<and>
      leader (procs w' 1) = self_address (procs ex_late 0) \<and>
      kv_store (procs w' 1) = restore (kv_store (procs ex_late 0)) (kv_store (procs ex_late 1))"
    using late_starter_adopts_leader [OF con, of 1 0] by auto
  moreover have "restore (kv_store (procs ex_late 0)) (kv_store (procs ex_late 1)) = [(''k'', ''v'')]"
    by (simp add: ex_late_def procs_update restore_def Set_KV_def)
  ultimately show ?thesis using self [of 0] by simp
qed

text \<open>Claim C39: the disk helpers keep exactly the first line. What \<open>readFromDisk\<close> finds under a path
  after \<open>writeToDisk\<close> is the written value up to its first newline, so a value is read back
  as it was written if and only if it has no newline; the value is replaced, not appended, and
  other files are left alone.\<close>

theorem disk_round_trip:
  assumes "can_open path"
  shows "readFromDisk path (writeToDisk can_open path v (writeToDisk can_open path u disk)) =
      takeWhile (\<lambda>c. c \<noteq> newline) v \<and>
    (readFromDisk path (writeToDisk can_open path v disk) = v \<longleftrightarrow> newline \<notin> set v) \<and>
    (\<forall>p. p \<noteq> path \<longrightarrow> readFromDisk p (writeToDisk can_open path v disk) = readFromDisk p disk)"
  using assms by (auto simp: read_written read_other takeWhile_all)

theorem disk_round_trip_witness:
  "readFromDisk ''leader'' (writeToDisk (\<lambda>p. True) ''leader'' ''h:1'' Map.empty) = ''h:1'' \<and>
   readFromDisk ''leader'' (writeToDisk (\<lambda>p. True) ''leader'' [CHR ''a'', newline, CHR ''b''] Map.empty) \<noteq>
     [CHR ''a'', newline, CHR ''b'']"
  using disk_round_trip [of "\<lambda>p. True" "''leader''" "''h:1''"]
    disk_round_trip [of "\<lambda>p. True" "''leader''" "[CHR ''a'', newline, CHR ''b'']"] by auto

end
