(* ===== verification/Interleaving.thy ===== *)
theory Interleaving
  imports Crash_Cluster
begin

text \<open>
  Concurrent proposers. A gRPC server runs each request on a thread of its own, so several
  calls of \<open>AttemptConsensus\<close> (app.cc) can be under way at once, at one process or at many.
  \<open>Proposer\<close> is the local state of one such call: the variables of the function and the
  loop it is in. \<open>advance\<close> executes it up to and including its next remote call, or the
  code between two loops; a handler runs without interruption. \<open>step\<close> lets any unfinished
  proposer advance, \<open>run_schedule\<close> follows a given order. Run alone, a proposer computes
  what \<open>AttemptConsensus\<close> does.
\<close>

subsection \<open>One call of the function under way\<close>

datatype phase =
    Ready
  | Pinging "Node list" "Node list"
  | Proposing "Node list" "Node list" Promises
  | Accepting Promises "Node list" int Response
  | Announcing Response "Node list"
  | Finished Status Response

record Proposer =
  pr_at :: nat
  pr_request :: Request
  pr_members :: "Node list"
  pr_round :: int
  pr_phase :: phase

definition ready :: "nat \<Rightarrow> Request \<Rightarrow> Proposer" where
  "ready p r = \<lparr>pr_at = p, pr_request = r, pr_members = [], pr_round = 0, pr_phase = Ready\<rparr>"

definition missed :: "int \<Rightarrow> Proposer \<Rightarrow> bool" where
  "missed num P = quorum_missed num (int_of_size (length (pr_members P)))"

definition prep_of :: "Proposer \<Rightarrow> Request" where
  "prep_of P = prepare_request (req_key (pr_request P)) (pr_round P) (req_value (pr_request P)) 1"

definition areq_of :: "Proposer \<Rightarrow> Promises \<Rightarrow> Request" where
  "areq_of P promises = accept_request (pr_request P) (pr_round P) 1 promises"

definition sreq_of :: "Proposer \<Rightarrow> Response \<Rightarrow> Request" where
  "sreq_of P acceptance = success_request (req_key (pr_request P)) acceptance"

lemma phase_update [simp]:
  "missed num (P\<lparr>pr_phase := ph\<rparr>) = missed num P" "prep_of (P\<lparr>pr_phase := ph\<rparr>) = prep_of P"
  "areq_of (P\<lparr>pr_phase := ph\<rparr>) = areq_of P" "sreq_of (P\<lparr>pr_phase := ph\<rparr>) = sreq_of P"
  by (simp_all add: missed_def prep_of_def areq_of_def sreq_of_def fun_eq_iff)

definition advance :: "Net \<Rightarrow> Proposer \<Rightarrow> World \<Rightarrow> Proposer \<times> World" where
  "advance N P w =
     (let p = pr_at P
      in case pr_phase P of
           Ready \<Rightarrow>
             (let members = map snd (memberList (procs w p));
                  rnd = int_of_size
                          (length (smap_index [] (Get_Log_all (pax_log (procs w p)))
                                     (req_key (pr_request P))))
              in (P\<lparr>pr_members := members, pr_round := rnd, pr_phase := Pinging members []\<rparr>, w))
         | Pinging [] live \<Rightarrow>
             (P\<lparr>pr_phase := if missed (int_of_size (length live)) P
                           then Finished not_enough default_Response
                           else Proposing live live no_promises\<rparr>, w)
         | Pinging (node # todo) live \<Rightarrow>
             (case stub_ping N p node w of
                (w', s, _) \<Rightarrow>
                  (P\<lparr>pr_phase := Pinging todo (if ok s then live @ [node] else live)\<rparr>, w'))
         | Proposing [] live promises \<Rightarrow>
             (P\<lparr>pr_phase := if missed (num_accepted_proposals promises) P
                           then Finished not_enough default_Response
                           else Accepting promises live 0 default_Response\<rparr>, w)
         | Proposing (node # todo) live promises \<Rightarrow>
             (case stub_propose N p (prep_of P) node w of
                (w', res) \<Rightarrow>
                  (P\<lparr>pr_phase := Proposing todo live (collect_promise res promises)\<rparr>, w'))
         | Accepting promises [] num acceptance \<Rightarrow>
             (P\<lparr>pr_phase := if missed num P then Finished not_enough default_Response
                           else Announcing acceptance (pr_members P)\<rparr>, w)
         | Accepting promises (node # todo) num acceptance \<Rightarrow>
             (case stub_accept N p (areq_of P promises) node w of
                (w', s, response) \<Rightarrow>
                  (P\<lparr>pr_phase := if ok s then Accepting promises todo (num + 1) response
                                else Accepting promises todo num acceptance\<rparr>, w'))
         | Announcing acceptance [] \<Rightarrow> (P\<lparr>pr_phase := Finished Status_OK acceptance\<rparr>, w)
         | Announcing acceptance (node # todo) \<Rightarrow>
             (case stub_success N p (sreq_of P acceptance) node w of
                (w', _) \<Rightarrow> (P\<lparr>pr_phase := Announcing acceptance todo\<rparr>, w'))
         | Finished s response \<Rightarrow> (P, w))"

definition finished :: "Proposer \<Rightarrow> bool" where
  "finished P = (case pr_phase P of Finished s response \<Rightarrow> True | _ \<Rightarrow> False)"

lemma finished_iff: "finished P \<longleftrightarrow> (\<exists>s response. pr_phase P = Finished s response)"
  by (simp add: finished_def split: phase.split)

subsection \<open>Several proposers\<close>

type_synonym proposers = "Proposer list \<times> World"

inductive step :: "Net \<Rightarrow> proposers \<Rightarrow> proposers \<Rightarrow> bool" for N where
  turn: "i < length ps \<Longrightarrow> \<not> finished (ps ! i) \<Longrightarrow> advance N (ps ! i) w = (P, w') \<Longrightarrow>
    step N (ps, w) (ps[i := P], w')"

inductive_cases stepE: "step N (ps, w) st"
inductive_simps step_iff: "step N (ps, w) (ps', w')"

abbreviation steps :: "Net \<Rightarrow> proposers \<Rightarrow> proposers \<Rightarrow> bool" where
  "steps N \<equiv> (step N)\<^sup>*\<^sup>*"

text \<open>A schedule names the proposer of each step; turns of proposers that are not there or
  have finished are skipped.\<close>

fun run_schedule :: "Net \<Rightarrow> nat list \<Rightarrow> proposers \<Rightarrow> proposers" where
  "run_schedule N [] st = st"
| "run_schedule N (i # is) (ps, w) =
     (if i < length ps \<and> \<not> finished (ps ! i)
      then (case advance N (ps ! i) w of (P, w') \<Rightarrow> run_schedule N is (ps[i := P], w'))
      else run_schedule N is (ps, w))"

lemma schedule_steps: "steps N st (run_schedule N is st)"
proof (induction "is" arbitrary: st)
  case Nil
  then show ?case by simp
next
  case (Cons i "is")
  obtain ps w where st: "st = (ps, w)" by (cases st)
  show ?case
  proof (cases "i < length ps \<and> \<not> finished (ps ! i)")
    case True
    obtain P w' where adv: "advance N (ps ! i) w = (P, w')" by fastforce
    with True have "step N (ps, w) (ps[i := P], w')" by (blast intro: turn)
    with Cons.IH [of "(ps[i := P], w')"] True adv show ?thesis
      by (simp add: st converse_rtranclp_into_rtranclp)
  next
    case False
    with Cons.IH show ?thesis by (auto simp: st)
  qed
qed

lemma run_schedule_append:
  "run_schedule N (is @ js) st = run_schedule N js (run_schedule N is st)"
  by (induction "is" arbitrary: st) (auto split: prod.split)

subsection \<open>What a turn leaves alone\<close>

lemma advance_request [simp]:
  "pr_request (fst (advance N P w)) = pr_request P" "pr_at (fst (advance N P w)) = pr_at P"
  by (auto simp: advance_def Let_def split: phase.split list.split prod.split)

text \<open>A turn of a proposer does nothing to the world, or is one call of one of its stubs.\<close>

lemma advance_cases:
  obtains (silent) "snd (advance N P w) = w"
    | (ping) node where "snd (advance N P w) = fst (stub_ping N (pr_at P) node w)"
    | (propose) node where "snd (advance N P w) = fst (stub_propose N (pr_at P) (prep_of P) node w)"
    | (accept) node promises todo num acceptance where
        "pr_phase P = Accepting promises (node # todo) num acceptance"
        "snd (advance N P w) = fst (stub_accept N (pr_at P) (areq_of P promises) node w)"
    | (success) node acceptance todo where "pr_phase P = Announcing acceptance (node # todo)"
        "snd (advance N P w) = fst (stub_success N (pr_at P) (sreq_of P acceptance) node w)"
proof -
  have "snd (advance N P w) = w \<or>
    (\<exists>node. snd (advance N P w) = fst (stub_ping N (pr_at P) node w)) \<or>
    (\<exists>node. snd (advance N P w) = fst (stub_propose N (pr_at P) (prep_of P) node w)) \<or>
    (\<exists>node promises todo num acceptance.
       pr_phase P = Accepting promises (node # todo) num acceptance \<and>
       snd (advance N P w) = fst (stub_accept N (pr_at P) (areq_of P promises) node w)) \<or>
    (\<exists>node acceptance todo. pr_phase P = Announcing acceptance (node # todo) \<and>
       snd (advance N P w) = fst (stub_success N (pr_at P) (sreq_of P acceptance) node w))"
    unfolding advance_def Let_def
    by (cases "pr_phase P") (auto split: list.split prod.split, (metis fst_conv)+)
  then show thesis using that by blast
qed

lemma advance_static [simp]: "static (snd (advance N P w)) q = static w q"
  by (cases N P w rule: advance_cases)
    (simp_all add: ping_s.call_static propose_s.call_static accept_s.call_static
      success_s.call_static)

lemma advance_frame:
  assumes "advance N P w = (P', w')"
  shows "static w' q = static w q" "pr_request P' = pr_request P" "pr_at P' = pr_at P"
  using advance_static [of N P w q] advance_request [of N P w] assms by simp_all

text \<open>The operation a turn performs on the data of a process; anything else is left alone.\<close>

lemma advance_data:
  obtains (same) "data (snd (advance N P w)) q = data w q"
    | (propose) "data (snd (advance N P w)) q = data_propose (prep_of P) (data w q)"
    | (accept) promises node todo num acceptance where
        "pr_phase P = Accepting promises (node # todo) num acceptance"
        "data (snd (advance N P w)) q = data_accept (areq_of P promises) (data w q)"
    | (success) acceptance node todo where "pr_phase P = Announcing acceptance (node # todo)"
        "data (snd (advance N P w)) q = data_success (sreq_of P acceptance) (data w q)"
proof (cases N P w rule: advance_cases)
  case silent
  then show ?thesis by (intro same) simp
next
  case (ping node)
  with ping_s.call_once [of N "pr_at P" node w q] show ?thesis by (intro same) auto
next
  case (propose node)
  with propose_s.call_once [of N "pr_at P" "prep_of P" node w q] that(1,2) show ?thesis by auto
next
  case (accept node promises todo num acceptance)
  with accept_s.call_once [of N "pr_at P" "areq_of P promises" node w q] that(1,3)
  show ?thesis by auto
next
  case (success node acceptance todo)
  with success_s.call_once [of N "pr_at P" "sreq_of P acceptance" node w q] that(1,4)
  show ?thesis by auto
qed

lemma step_static:
  assumes "steps N (ps, w) (ps', w')"
  shows "static w' q = static w q"
  using assms
proof (induction rule: rtranclp_induct2)
  case refl
  then show ?case by simp
next
  case (step ps1 w1 ps2 w2)
  then show ?case by (auto elim!: stepE simp: advance_frame(1))
qed

lemma step_length:
  assumes "steps N (ps, w) (ps', w')"
  shows "length ps' = length ps \<and> map pr_request ps' = map pr_request ps \<and> map pr_at ps' = map pr_at ps"
  using assms
proof (induction rule: rtranclp_induct2)
  case refl
  then show ?case by simp
next
  case (step ps1 w1 ps2 w2)
  from step.hyps(2) obtain i P where i: "i < length ps1" "advance N (ps1 ! i) w1 = (P, w2)"
    "ps2 = ps1[i := P]" by (auto elim!: stepE)
  have "map pr_request ps2 = (map pr_request ps1)[i := map pr_request ps1 ! i]"
    "map pr_at ps2 = (map pr_at ps1)[i := map pr_at ps1 ! i]"
    using i advance_frame(2,3) [OF i(2)] by (simp_all add: map_update)
  with i(3) step.IH show ?case by (simp only: list_update_id length_list_update)
qed

subsection \<open>Properties that interleaving keeps\<close>

text \<open>\<open>own\<close> is what a proposer needs to know; it must survive its own turns and those of the
  proposers it is compatible with. Then it holds of all of them throughout.\<close>

locale noninterference =
  fixes N :: Net
    and own :: "Proposer \<Rightarrow> World \<Rightarrow> bool"
    and compatible :: "Request \<Rightarrow> Request \<Rightarrow> bool"
  assumes own_turn: "own P w \<Longrightarrow> advance N P w = (P', w') \<Longrightarrow> own P' w'"
    and other_turn: "own P w \<Longrightarrow> own Q w \<Longrightarrow> compatible (pr_request P) (pr_request Q) \<Longrightarrow>
      advance N P w = (P', w') \<Longrightarrow> own Q w'"
begin

definition all_own :: "proposers \<Rightarrow> bool" where
  "all_own st \<longleftrightarrow> (\<forall>i < length (fst st). own (fst st ! i) (snd st) \<and>
     (\<forall>j < length (fst st). i \<noteq> j \<longrightarrow>
        compatible (pr_request (fst st ! i)) (pr_request (fst st ! j))))"

lemma all_own_step: "step N st st' \<Longrightarrow> all_own st \<Longrightarrow> all_own st'"
proof (induction rule: step.induct)
  case (turn i ps w P w')
  have "own P w'" using turn.prems turn.hyps(1) own_turn [OF _ turn.hyps(3)] by (simp add: all_own_def)
  moreover have "own (ps ! j) w'" if "j < length ps" "j \<noteq> i" for j
    using turn.prems turn.hyps(1) that other_turn [OF _ _ _ turn.hyps(3)] by (simp add: all_own_def)
  ultimately show ?case
    using turn.prems turn.hyps(1) advance_frame(2) [OF turn.hyps(3)]
    by (simp add: all_own_def nth_list_update)
qed

lemma all_own_steps: "steps N st st' \<Longrightarrow> all_own st \<Longrightarrow> all_own st'"
  by (induction rule: rtranclp_induct) (auto intro: all_own_step)

end

subsection \<open>A proposer that runs alone\<close>

definition solo :: "Net \<Rightarrow> Proposer \<times> World \<Rightarrow> Proposer \<times> World" where
  "solo N st = advance N (fst st) (snd st)"

definition runs_to :: "Net \<Rightarrow> nat \<Rightarrow> Proposer \<times> World \<Rightarrow> Proposer \<times> World \<Rightarrow> bool" where
  "runs_to N k st st' \<longleftrightarrow> (\<exists>n \<le> k. (solo N ^^ n) st = st')"

lemma runs_to_refl [simp]: "runs_to N 0 st st"
  by (simp add: runs_to_def)

lemma runs_to_trans: "runs_to N k st st' \<Longrightarrow> runs_to N l st' st'' \<Longrightarrow> runs_to N (k + l) st st''"
  unfolding runs_to_def
proof (elim exE conjE)
  fix m n assume "m \<le> k" "(solo N ^^ m) st = st'" "n \<le> l" "(solo N ^^ n) st' = st''"
  moreover have "(solo N ^^ (n + m)) st = (solo N ^^ n) ((solo N ^^ m) st)" by (simp add: funpow_add)
  ultimately show "\<exists>n \<le> k + l. (solo N ^^ n) st = st''" by (intro exI [of _ "n + m"]) simp
qed

lemma runs_to_turn: "advance N P w = (P', w') \<Longrightarrow> runs_to N k (P', w') st \<Longrightarrow> runs_to N (Suc k) (P, w) st"
  unfolding runs_to_def
proof (elim exE conjE)
  fix n assume "advance N P w = (P', w')" "n \<le> k" "(solo N ^^ n) (P', w') = st"
  then show "\<exists>n \<le> Suc k. (solo N ^^ n) (P, w) = st"
    by (intro exI [of _ "Suc n"]) (simp add: solo_def funpow_swap1)
qed

lemma runs_to_mono: "runs_to N k st st' \<Longrightarrow> k \<le> l \<Longrightarrow> runs_to N l st st'"
  by (auto simp: runs_to_def intro: order_trans)

text \<open>Each loop of the function, run by turns.\<close>

lemma pinging_runs:
  assumes "for_nodes (stub_ping N (pr_at P)) (\<lambda>node (s, _) live. if ok s then live @ [node] else live)
      todo live w = (w', live')"
  shows "runs_to N (length todo) (P\<lparr>pr_phase := Pinging todo live\<rparr>, w)
    (P\<lparr>pr_phase := Pinging [] live'\<rparr>, w')"
  using assms
proof (induction todo arbitrary: live w)
  case Nil
  then show ?case by simp
next
  case (Cons node todo)
  obtain w1 s u where w1: "stub_ping N (pr_at P) node w = (w1, s, u)"
    by (cases "stub_ping N (pr_at P) node w")
  have "runs_to N (length todo) (P\<lparr>pr_phase := Pinging todo (if ok s then live @ [node] else live)\<rparr>, w1)
      (P\<lparr>pr_phase := Pinging [] live'\<rparr>, w')"
    using Cons.prems w1 by (intro Cons.IH) simp
  then show ?case by (auto intro!: runs_to_turn simp: advance_def w1)
qed

lemma proposing_runs:
  assumes "for_nodes (stub_propose N (pr_at P) (prep_of P)) (\<lambda>node res acc. collect_promise res acc)
      todo promises w = (w', promises')"
  shows "runs_to N (length todo) (P\<lparr>pr_phase := Proposing todo live promises\<rparr>, w)
    (P\<lparr>pr_phase := Proposing [] live promises'\<rparr>, w')"
  using assms
proof (induction todo arbitrary: promises w)
  case Nil
  then show ?case by simp
next
  case (Cons node todo)
  obtain w1 res where w1: "stub_propose N (pr_at P) (prep_of P) node w = (w1, res)"
    by (cases "stub_propose N (pr_at P) (prep_of P) node w")
  have "runs_to N (length todo) (P\<lparr>pr_phase := Proposing todo live (collect_promise res promises)\<rparr>, w1)
      (P\<lparr>pr_phase := Proposing [] live promises'\<rparr>, w')"
    using Cons.prems w1 by (intro Cons.IH) simp
  then show ?case by (auto intro!: runs_to_turn simp: advance_def w1)
qed

lemma accepting_runs:
  assumes "for_nodes (stub_accept N (pr_at P) (areq_of P promises))
      (\<lambda>node (s, response) (num, acceptance). if ok s then (num + 1, response) else (num, acceptance))
      todo (num, acceptance) w = (w', num', acceptance')"
  shows "runs_to N (length todo) (P\<lparr>pr_phase := Accepting promises todo num acceptance\<rparr>, w)
    (P\<lparr>pr_phase := Accepting promises [] num' acceptance'\<rparr>, w')"
  using assms
proof (induction todo arbitrary: num acceptance w)
  case Nil
  then show ?case by simp
next
  case (Cons node todo)
  obtain w1 s response where w1: "stub_accept N (pr_at P) (areq_of P promises) node w = (w1, s, response)"
    by (cases "stub_accept N (pr_at P) (areq_of P promises) node w")
  have "runs_to N (length todo)
      (P\<lparr>pr_phase := if ok s then Accepting promises todo (num + 1) response
                      else Accepting promises todo num acceptance\<rparr>, w1)
      (P\<lparr>pr_phase := Accepting promises [] num' acceptance'\<rparr>, w')"
    using Cons.prems w1 by (auto intro!: Cons.IH)
  then show ?case by (auto intro!: runs_to_turn simp: advance_def w1)
qed

lemma announcing_runs:
  assumes "for_nodes (stub_success N (pr_at P) (sreq_of P acceptance)) (\<lambda>node res u. u) todo () w = (w', u)"
  shows "runs_to N (length todo) (P\<lparr>pr_phase := Announcing acceptance todo\<rparr>, w)
    (P\<lparr>pr_phase := Announcing acceptance []\<rparr>, w')"
  using assms
proof (induction todo arbitrary: w)
  case Nil
  then show ?case by simp
next
  case (Cons node todo)
  obtain w1 res where w1: "stub_success N (pr_at P) (sreq_of P acceptance) node w = (w1, res)"
    by (cases "stub_success N (pr_at P) (sreq_of P acceptance) node w")
  have "runs_to N (length todo) (P\<lparr>pr_phase := Announcing acceptance todo\<rparr>, w1)
      (P\<lparr>pr_phase := Announcing acceptance []\<rparr>, w')"
    using Cons.prems w1 by (intro Cons.IH) simp
  then show ?case by (auto intro!: runs_to_turn simp: advance_def w1)
qed

lemma ping_live_length:
  "for_nodes (stub_ping N p) (\<lambda>node (s, _) live. if ok s then live @ [node] else live) todo live w =
      (w', live') \<Longrightarrow> length live' \<le> length live + length todo"
  by (induction todo arbitrary: live w) (fastforce split: prod.splits if_splits)+

lemma phase_overwrite: "P\<lparr>pr_phase := a\<rparr>\<lparr>pr_phase := b\<rparr> = P\<lparr>pr_phase := b\<rparr>"
  by simp

text \<open>The rest of the function after each of its loops.\<close>

definition after_accepting ::
    "Net \<Rightarrow> Proposer \<Rightarrow> World \<times> int \<times> Response \<Rightarrow> World \<times> Status \<times> Response" where
  "after_accepting N P = (\<lambda>(w, num, acceptance).
     if missed num P then (w, not_enough, default_Response)
     else (success_phase N (pr_at P) (sreq_of P acceptance) (pr_members P) w, Status_OK, acceptance))"

definition after_proposing ::
    "Net \<Rightarrow> Proposer \<Rightarrow> Node list \<Rightarrow> World \<times> Promises \<Rightarrow> World \<times> Status \<times> Response" where
  "after_proposing N P live = (\<lambda>(w, promises).
     if missed (num_accepted_proposals promises) P then (w, not_enough, default_Response)
     else after_accepting N P (accept_phase N (pr_at P) (areq_of P promises) live w))"

definition after_pinging ::
    "Net \<Rightarrow> Proposer \<Rightarrow> World \<times> Node list \<Rightarrow> World \<times> Status \<times> Response" where
  "after_pinging N P = (\<lambda>(w, live).
     if missed (int_of_size (length live)) P then (w, not_enough, default_Response)
     else after_proposing N P live (propose_phase N (pr_at P) (prep_of P) live w))"

lemma accepting_ends:
  assumes "after_accepting N P (w, num, acceptance) = (w', s, response)"
  shows "runs_to N (length (pr_members P) + 2) (P\<lparr>pr_phase := Accepting pr [] num acceptance\<rparr>, w)
    (P\<lparr>pr_phase := Finished s response\<rparr>, w')"
proof (cases "missed num P")
  case True
  with assms have "runs_to N (Suc 0) (P\<lparr>pr_phase := Accepting pr [] num acceptance\<rparr>, w)
      (P\<lparr>pr_phase := Finished s response\<rparr>, w')"
    by (intro runs_to_turn) (auto simp: advance_def after_accepting_def)
  then show ?thesis by (rule runs_to_mono) simp
next
  case False
  with assms have res: "w' = success_phase N (pr_at P) (sreq_of P acceptance) (pr_members P) w"
    "s = Status_OK" "response = acceptance" by (auto simp: after_accepting_def)
  have "runs_to N (length (pr_members P)) (P\<lparr>pr_phase := Announcing acceptance (pr_members P)\<rparr>, w)
      (P\<lparr>pr_phase := Announcing acceptance []\<rparr>, w')"
    using announcing_runs [of N P acceptance "pr_members P" w w' "()"]
    by (simp add: res(1) success_phase_def prod_eq_iff)
  then have "runs_to N (Suc (length (pr_members P) + Suc 0))
      (P\<lparr>pr_phase := Accepting pr [] num acceptance\<rparr>, w) (P\<lparr>pr_phase := Finished Status_OK acceptance\<rparr>, w')"
    by (rule runs_to_turn [rotated, OF runs_to_trans])
      (auto intro!: runs_to_turn simp: advance_def False)
  then show ?thesis by (simp add: res(2,3))
qed

lemma proposing_ends:
  assumes "after_proposing N P live (w, pr) = (w', s, response)"
  shows "runs_to N (length live + length (pr_members P) + 3) (P\<lparr>pr_phase := Proposing [] live pr\<rparr>, w)
    (P\<lparr>pr_phase := Finished s response\<rparr>, w')"
proof (cases "missed (num_accepted_proposals pr) P")
  case True
  with assms have "runs_to N (Suc 0) (P\<lparr>pr_phase := Proposing [] live pr\<rparr>, w)
      (P\<lparr>pr_phase := Finished s response\<rparr>, w')"
    by (intro runs_to_turn) (auto simp: advance_def after_proposing_def)
  then show ?thesis by (rule runs_to_mono) simp
next
  case False
  obtain w1 num acceptance where
    w1: "accept_phase N (pr_at P) (areq_of P pr) live w = (w1, num, acceptance)" by (metis prod_cases3)
  have "runs_to N (Suc (length live)) (P\<lparr>pr_phase := Proposing [] live pr\<rparr>, w)
      (P\<lparr>pr_phase := Accepting pr [] num acceptance\<rparr>, w1)"
    using accepting_runs [of N P pr live 0 default_Response w w1 num acceptance] w1
    by (intro runs_to_turn) (auto simp: accept_phase_def advance_def False)
  moreover have "runs_to N (length (pr_members P) + 2) (P\<lparr>pr_phase := Accepting pr [] num acceptance\<rparr>, w1)
      (P\<lparr>pr_phase := Finished s response\<rparr>, w')"
    using assms False w1 by (intro accepting_ends) (simp add: after_proposing_def)
  ultimately have "runs_to N (Suc (length live) + (length (pr_members P) + 2))
      (P\<lparr>pr_phase := Proposing [] live pr\<rparr>, w) (P\<lparr>pr_phase := Finished s response\<rparr>, w')"
    by (rule runs_to_trans)
  then show ?thesis by (rule runs_to_mono) simp
qed

lemma pinging_ends:
  assumes "after_pinging N P (w, live) = (w', s, response)"
  shows "runs_to N (2 * length live + length (pr_members P) + 4) (P\<lparr>pr_phase := Pinging [] live\<rparr>, w)
    (P\<lparr>pr_phase := Finished s response\<rparr>, w')"
proof (cases "missed (int_of_size (length live)) P")
  case True
  with assms have "runs_to N (Suc 0) (P\<lparr>pr_phase := Pinging [] live\<rparr>, w)
      (P\<lparr>pr_phase := Finished s response\<rparr>, w')"
    by (intro runs_to_turn) (auto simp: advance_def after_pinging_def)
  then show ?thesis by (rule runs_to_mono) simp
next
  case False
  obtain w1 pr where w1: "propose_phase N (pr_at P) (prep_of P) live w = (w1, pr)" by fastforce
  have "runs_to N (Suc (length live)) (P\<lparr>pr_phase := Pinging [] live\<rparr>, w)
      (P\<lparr>pr_phase := Proposing [] live pr\<rparr>, w1)"
    using proposing_runs [of N P live no_promises w w1 pr live] w1
    by (intro runs_to_turn) (auto simp: propose_phase_def advance_def False)
  moreover have "runs_to N (length live + length (pr_members P) + 3)
      (P\<lparr>pr_phase := Proposing [] live pr\<rparr>, w1) (P\<lparr>pr_phase := Finished s response\<rparr>, w')"
    using assms False w1 by (intro proposing_ends) (simp add: after_pinging_def)
  ultimately have "runs_to N (Suc (length live) + (length live + length (pr_members P) + 3))
      (P\<lparr>pr_phase := Pinging [] live\<rparr>, w) (P\<lparr>pr_phase := Finished s response\<rparr>, w')"
    by (rule runs_to_trans)
  then show ?thesis by (rule runs_to_mono) simp
qed

lemma alone_attempt:
  fixes w :: World
  assumes att: "AttemptConsensus N p r w = (w', s, response)"
  defines "n \<equiv> length (member_nodes w p)"
  shows "\<exists>P'. runs_to N (4 * n + 5) (ready p r, w) (P', w') \<and> pr_phase P' = Finished s response"
proof -
  let ?round = "int_of_size (length (smap_index [] (Get_Log_all (pax_log (procs w p))) (req_key r)))"
  define P where "P = (ready p r)\<lparr>pr_members := member_nodes w p, pr_round := ?round\<rparr>"
  have P: "pr_at P = p" "pr_request P = r" "pr_members P = member_nodes w p"
    "areq_of P = accept_request r ?round 1" "prep_of P = prepare_request (req_key r) ?round (req_value r) 1"
    "sreq_of P = success_request (req_key r)"
    by (simp_all add: P_def ready_def areq_of_def prep_of_def sreq_of_def fun_eq_iff)
  have go: "advance N (ready p r) w = (P\<lparr>pr_phase := Pinging (member_nodes w p) []\<rparr>, w)"
    by (simp add: advance_def P_def ready_def member_nodes_def Let_def)
  obtain w1 live where w1: "ping_phase N p (member_nodes w p) w = (w1, live)" by fastforce
  have r1: "runs_to N n (P\<lparr>pr_phase := Pinging (member_nodes w p) []\<rparr>, w) (P\<lparr>pr_phase := Pinging [] live\<rparr>, w1)"
    and len: "length live \<le> n"
    using pinging_runs [of N P "member_nodes w p" "[]" w w1 live] w1
      ping_live_length [of N p "member_nodes w p" "[]" w w1 live]
    by (simp_all add: ping_phase_def P n_def)
  have "after_pinging N P (w1, live) = (w', s, response)"
    using att [unfolded AttemptConsensus_def member_nodes_def [symmetric] Let_def w1 prod.case]
    by (auto simp: after_pinging_def after_proposing_def after_accepting_def missed_def P split: prod.splits)
  from runs_to_turn [OF go runs_to_trans [OF r1 pinging_ends [OF this]]]
  have "runs_to N (4 * n + 5) (ready p r, w) (P\<lparr>pr_phase := Finished s response\<rparr>, w')"
    by (rule runs_to_mono) (use len in \<open>simp add: P n_def\<close>)
  then show ?thesis by (intro exI [of _ "P\<lparr>pr_phase := Finished s response\<rparr>"]) simp
qed

end
