(* ===== verification/Concurrent.thy ===== *)
theory Concurrent
  imports Interleaving
begin

text \<open>
  What holds however concurrent proposers interleave and whatever the network does: logs
  and stores stay well formed, and no value is invented. \<open>V\<close> gives for each key the values
  that may appear under it: those there at the start and those the proposers were asked to
  write.
\<close>

definition allowed :: "(string \<Rightarrow> string set) \<Rightarrow> Data \<Rightarrow> bool" where
  "allowed V d \<longleftrightarrow>
     (\<forall>key rnd e. log_find (d_log d) key rnd = Some e \<and> a_server_id e > 0 \<longrightarrow>
        accepted_value e \<in> V key) \<and>
     (\<forall>key v. map_of (d_kv d) key = Some v \<longrightarrow> v \<in> V key) \<and> d_leader d \<in> V ''leader''"

lemma allowed_propose: "allowed V d \<Longrightarrow> allowed V (data_propose r d)"
  by (auto simp: allowed_def data_propose_def data_simps default_LogEntry_def split: if_splits)

lemma allowed_accept: "allowed V d \<Longrightarrow> req_value r \<in> V (req_key r) \<Longrightarrow> allowed V (data_accept r d)"
  by (auto simp: allowed_def data_accept_def data_simps split: if_splits)

lemma allowed_leader: "allowed V d \<Longrightarrow> v \<in> V ''leader'' \<Longrightarrow> allowed V (d\<lparr>d_leader := v\<rparr>)"
  unfolding allowed_def by auto

lemma allowed_kv: "allowed V d \<Longrightarrow> v \<in> V key \<Longrightarrow> allowed V (d\<lparr>d_kv := Set_KV key v (d_kv d)\<rparr>)"
  unfolding allowed_def Set_KV_def by auto

lemma allowed_success: "allowed V d \<Longrightarrow> req_value r \<in> V (req_key r) \<Longrightarrow> allowed V (data_success r d)"
  unfolding data_success_def Let_def
  using allowed_accept [of V d r] allowed_leader [of V "data_accept r d"]
    allowed_kv [of V "data_accept r d"]
  by auto

lemma allowed_entry:
  "allowed V d \<Longrightarrow> log_find (d_log d) key rnd = Some e \<Longrightarrow> a_server_id e > 0 \<Longrightarrow>
    accepted_value e \<in> V key"
  unfolding allowed_def by blast

lemmas allowed_ops = allowed_propose allowed_accept allowed_success

definition peopled :: "Proposer \<Rightarrow> bool" where
  "peopled P \<longleftrightarrow> pr_members P \<noteq> [] \<and> length (pr_members P) < 2 ^ 31"

lemma peopled_phase [simp]: "peopled (P\<lparr>pr_phase := ph\<rparr>) = peopled P"
  by (simp add: peopled_def)

lemma peopled_missed: "peopled P \<Longrightarrow> missed 0 P"
  by (simp add: missed_def peopled_def quorum_missed_iff)

definition backed :: "string set \<Rightarrow> Promises \<Rightarrow> bool" where
  "backed vs pr \<longleftrightarrow> 0 \<le> accepted_id pr \<and> (accepted_id pr > 0 \<longrightarrow> prior_value pr \<in> vs)"

lemma backed_no_promises [simp]: "backed vs no_promises"
  by (simp add: backed_def no_promises_def)

lemma areq_of_simps [simp]:
  "req_key (areq_of P pr) = req_key (pr_request P)" "req_round (areq_of P pr) = pr_round P"
  "req_pserver_id (areq_of P pr) = 1"
  by (simp_all add: areq_of_def)

lemma prep_of_simps [simp]:
  "req_key (prep_of P) = req_key (pr_request P)" "req_round (prep_of P) = pr_round P"
  "req_pserver_id (prep_of P) = 1"
  by (simp_all add: prep_of_def)

lemma sreq_of_simps [simp]:
  "req_key (sreq_of P acceptance) = req_key (pr_request P)"
  "req_value (sreq_of P acceptance) = resp_value acceptance"
  "req_round (sreq_of P acceptance) = resp_round acceptance"
  "req_pserver_id (sreq_of P acceptance) = resp_pserver_id acceptance"
  by (simp_all add: sreq_of_def success_request_def)

lemma echo_simps [simp]:
  "resp_value (echo r) = req_value r" "resp_pserver_id (echo r) = req_pserver_id r"
  "resp_round (echo r) = req_round r" "resp_op (echo r) = req_op r"
  by (simp_all add: echo_def)

lemma areq_value:
  "backed vs pr \<Longrightarrow> req_value (pr_request P) \<in> vs \<Longrightarrow> req_value (areq_of P pr) \<in> vs"
  by (auto simp: backed_def areq_of_def accept_request_def Let_def)

text \<open>What a proposer knows in each phase.\<close>

fun knows :: "string set \<Rightarrow> Proposer \<Rightarrow> phase \<Rightarrow> bool" where
  "knows vs P Ready = True"
| "knows vs P (Pinging todo live) = peopled P"
| "knows vs P (Proposing todo live pr) = (peopled P \<and> backed vs pr)"
| "knows vs P (Accepting pr todo num acceptance) =
     (peopled P \<and> backed vs pr \<and> (num = 0 \<or> acceptance = echo (areq_of P pr)))"
| "knows vs P (Announcing acceptance todo) =
     (resp_pserver_id acceptance = 1 \<and> resp_value acceptance \<in> vs)"
| "knows vs P (Finished s response) = (ok s \<longrightarrow> resp_value response \<in> vs)"

lemma knows_phase [simp]: "knows vs (P\<lparr>pr_phase := ph\<rparr>) = knows vs P"
  by (rule ext) (case_tac x, simp_all)

definition informed :: "(string \<Rightarrow> string set) \<Rightarrow> World \<Rightarrow> Proposer \<Rightarrow> bool" where
  "informed V w P \<longleftrightarrow> req_value (pr_request P) \<in> V (req_key (pr_request P)) \<and>
     (pr_phase P = Ready \<longrightarrow> cluster_ok w (pr_at P)) \<and>
     knows (V (req_key (pr_request P))) P (pr_phase P)"

definition sound :: "(string \<Rightarrow> string set) \<Rightarrow> World \<Rightarrow> bool" where
  "sound V w \<longleftrightarrow> (\<forall>q. data_ok (data w q) \<and> allowed V (data w q))"

lemma sound_turn:
  assumes "sound V w" and "informed V w P" and "advance N P w = (P', w')"
  shows "sound V w'"
proof -
  have w': "w' = snd (advance N P w)" using assms(3) by simp
  have "data_ok (data w' q) \<and> allowed V (data w' q)" for q
  proof -
    have d: "data_ok (data w q)" "allowed V (data w q)" using assms(1) by (simp_all add: sound_def)
    show ?thesis
      unfolding w'
    proof (cases N P w q rule: advance_data)
      case same
      with d show "data_ok (data (snd (advance N P w)) q) \<and> allowed V (data (snd (advance N P w)) q)"
        by simp
    next
      case propose
      with d show "data_ok (data (snd (advance N P w)) q) \<and> allowed V (data (snd (advance N P w)) q)"
        by (simp add: data_ok_propose allowed_propose)
    next
      case (accept pr node todo num acceptance)
      with d assms(2) areq_value [of "V (req_key (pr_request P))" pr P]
      show "data_ok (data (snd (advance N P w)) q) \<and> allowed V (data (snd (advance N P w)) q)"
        by (simp add: data_ok_accept allowed_accept informed_def Let_def)
    next
      case (success acceptance node todo)
      with d assms(2)
      show "data_ok (data (snd (advance N P w)) q) \<and> allowed V (data (snd (advance N P w)) q)"
        by (simp add: data_ok_success allowed_success informed_def Let_def)
    qed
  qed
  then show ?thesis by (simp add: sound_def)
qed

text \<open>The answer of an acceptor reports only what its log holds.\<close>

lemma stub_propose_backed:
  assumes "sound V w" and "backed (V (req_key r)) pr"
    and "stub_propose N p r node w = (w', res)"
  shows "backed (V (req_key r)) (collect_promise res pr)"
proof -
  obtain s response where res: "res = (s, response)" by (cases res)
  show ?thesis
  proof (cases "ok s \<and> resp_aserver_id response > accepted_id pr")
    case True
    with assms(3) propose_s.call_ok [of N p r node w w' s response] obtain q where
      ans: "answer_propose r (data w q) = (s, response)" by (auto simp: res)
    from True assms(2) have pos: "resp_aserver_id response > 0" by (simp add: backed_def)
    from answer_propose_accepted [OF ans _ this] True
    have "accepted_at w q (req_key r) (req_round r) (resp_op response) (resp_value response)" by simp
    moreover have "allowed V (data w q)" using assms(1) by (simp add: sound_def)
    ultimately have "resp_value response \<in> V (req_key r)"
      using allowed_entry [of V "data w q" "req_key r" "req_round r"]
      by (auto simp: accepted_at_def split: option.splits)
    with True pos show ?thesis by (simp add: res collect_promise_def Let_def backed_def)
  next
    case False
    with assms(2) show ?thesis by (auto simp: res collect_promise_def Let_def backed_def)
  qed
qed

lemma stub_accept_echo:
  assumes "stub_accept N p r node w = (w', s, response)" and "ok s"
  shows "response = echo r"
  using accept_s.call_ok [OF assms] by auto

lemma informed_other:
  "advance N P w = (P', w') \<Longrightarrow> informed V w Q \<Longrightarrow> informed V w' Q"
  using members_static(2) [OF advance_frame(1)] by (simp add: informed_def)

text \<open>The phase that follows.\<close>

lemma knows_next:
  fixes V :: "string \<Rightarrow> string set"
  defines "vs \<equiv> \<lambda>P. V (req_key (pr_request P))"
  assumes snd: "sound V w" and v: "req_value (pr_request P) \<in> vs P"
    and k: "knows (vs P) P (pr_phase P)"
    and adv: "advance N P w = (P', w')" and r: "pr_phase P \<noteq> Ready"
  shows "knows (vs P) P (pr_phase P')"
proof (cases "pr_phase P")
  case Ready
  with r show ?thesis by simp
next
  case (Pinging todo live)
  with k adv show ?thesis
    by (cases todo) (auto simp: advance_def not_enough_def split: prod.splits)
next
  case (Proposing todo live pr)
  show ?thesis
  proof (cases todo)
    case Nil
    with k adv Proposing show ?thesis by (auto simp: advance_def not_enough_def)
  next
    case (Cons node todo')
    obtain w1 res where w1: "stub_propose N (pr_at P) (prep_of P) node w = (w1, res)"
      by (cases "stub_propose N (pr_at P) (prep_of P) node w")
    from stub_propose_backed [OF snd _ w1, of pr] k adv Proposing Cons w1 show ?thesis
      by (auto simp: advance_def vs_def)
  qed
next
  case (Accepting pr todo num acceptance)
  show ?thesis
  proof (cases todo)
    case Nil
    have "acceptance = echo (areq_of P pr)" if "\<not> missed num P"
      using that peopled_missed [of P] k Accepting by auto
    with k adv Accepting Nil areq_value [OF _ v] show ?thesis
      by (auto simp: advance_def not_enough_def)
  next
    case (Cons node todo')
    obtain w1 s response where w1: "stub_accept N (pr_at P) (areq_of P pr) node w = (w1, s, response)"
      by (cases "stub_accept N (pr_at P) (areq_of P pr) node w")
    with k adv Accepting Cons stub_accept_echo [OF w1] show ?thesis
      by (auto simp: advance_def split: if_splits)
  qed
next
  case (Announcing acceptance todo)
  with k adv show ?thesis by (cases todo) (auto simp: advance_def split: prod.splits)
next
  case (Finished s response)
  with k adv show ?thesis by (auto simp: advance_def)
qed

lemma advance_phase:
  assumes "advance N P w = (P', w')" and "pr_phase P \<noteq> Ready"
  shows "P' = P\<lparr>pr_phase := pr_phase P'\<rparr>" "pr_phase P' \<noteq> Ready"
proof -
  have "P' = P\<lparr>pr_phase := pr_phase P'\<rparr> \<and> pr_phase P' \<noteq> Ready"
    using assms
    by (cases "pr_phase P") (auto simp: advance_def split: list.splits prod.splits if_splits)
  then show "P' = P\<lparr>pr_phase := pr_phase P'\<rparr>" "pr_phase P' \<noteq> Ready" by blast+
qed

lemma informed_turn:
  assumes snd: "sound V w" and inf: "informed V w P" and adv: "advance N P w = (P', w')"
  shows "informed V w' P'"
proof (cases "pr_phase P = Ready")
  case True
  with inf adv show ?thesis
    by (auto simp: advance_def informed_def Let_def peopled_def cluster_ok_def member_nodes_def)
next
  case False
  let ?vs = "V (req_key (pr_request P))"
  from inf have "req_value (pr_request P) \<in> ?vs" "knows ?vs P (pr_phase P)"
    by (simp_all add: informed_def)
  from knows_next [OF snd this adv False] have "knows ?vs P (pr_phase P')" .
  then have "knows ?vs P' (pr_phase P')" using advance_phase(1) [OF adv False] by (metis knows_phase)
  with inf advance_frame(2) [OF adv] advance_phase(2) [OF adv False] show ?thesis
    by (simp add: informed_def)
qed

interpretation sound_i: noninterference N "\<lambda>P w. sound V w \<and> informed V w P" "\<lambda>r r'. True" for N V
proof unfold_locales
  fix P w P' w'
  assume P: "sound V w \<and> informed V w P" and adv: "advance N P w = (P', w')"
  then show "sound V w' \<and> informed V w' P'" using sound_turn informed_turn by blast
  fix Q assume "sound V w \<and> informed V w Q"
  with P adv show "sound V w' \<and> informed V w' Q" using sound_turn informed_other by blast
qed

text \<open>Proposers that are about to start, each at a process that knows the members.\<close>

definition starting :: "(string \<Rightarrow> string set) \<Rightarrow> (nat \<times> Request) list \<Rightarrow> World \<Rightarrow> bool" where
  "starting V calls w \<longleftrightarrow>
     (\<forall>(p, r) \<in> set calls. cluster_ok w p \<and> req_value r \<in> V (req_key r))"

definition readied :: "(nat \<times> Request) list \<Rightarrow> Proposer list" where
  "readied calls = map (\<lambda>(p, r). ready p r) calls"

lemma starting_informed:
  assumes "starting V calls w" and "P \<in> set (readied calls)"
  shows "informed V w P"
proof -
  from assms(2) obtain p r where "(p, r) \<in> set calls" "P = ready p r"
    by (auto simp: readied_def)
  with assms(1) show ?thesis by (auto simp: starting_def informed_def ready_def)
qed

lemma interleaved_sound:
  assumes "steps N (readied calls, w) (ps, w')" and "sound V w" and "starting V calls w"
    and "calls \<noteq> []"
  shows "sound V w' \<and> (\<forall>i < length ps. informed V w' (ps ! i))"
proof -
  have "sound_i.all_own V (readied calls, w)"
    using assms(2) starting_informed [OF assms(3)] nth_mem
    unfolding sound_i.all_own_def by simp
  from sound_i.all_own_steps [OF assms(1) this]
  have "\<forall>i < length ps. sound V w' \<and> informed V w' (ps ! i)" by (simp add: sound_i.all_own_def)
  moreover have "0 < length ps" using step_length [OF assms(1)] assms(4) by (simp add: readied_def)
  ultimately show ?thesis by blast
qed

end
