(* ===== verification/Isolation.thy ===== *)
theory Isolation
  imports Concurrent
begin

text \<open>
  Concurrent proposers for different keys do not disturb each other. The \<open>slot\<close> of a key is
  all that the acceptor operations on the key read and write; a proposer follows the slot of
  its key through the stages of its attempt while others act on other slots. Every proposer
  finishes after at most \<open>4 n + 5\<close> turns, on any network and under any schedule.
\<close>

subsection \<open>A proposer finishes\<close>

fun remaining_phase :: "nat \<Rightarrow> phase \<Rightarrow> nat" where
  "remaining_phase n Ready = 4 * n + 5"
| "remaining_phase n (Pinging todo live) = 3 * length todo + 2 * length live + n + 4"
| "remaining_phase n (Proposing todo live pr) = length todo + length live + n + 3"
| "remaining_phase n (Accepting pr todo num acceptance) = length todo + n + 2"
| "remaining_phase n (Announcing acceptance todo) = length todo + 1"
| "remaining_phase n (Finished s response) = 0"

definition remaining :: "World \<Rightarrow> Proposer \<Rightarrow> nat" where
  "remaining w P =
     remaining_phase (if pr_phase P = Ready then length (member_nodes w (pr_at P))
                      else length (pr_members P)) (pr_phase P)"

lemma remaining_0: "remaining w P = 0 \<longleftrightarrow> finished P"
  by (cases "pr_phase P") (simp_all add: remaining_def finished_def)

lemma remaining_other:
  "advance N P w = (P', w') \<Longrightarrow> remaining w' Q = remaining w Q"
  using members_static(1) [OF advance_frame(1)] by (simp add: remaining_def)

lemma remaining_turn:
  assumes "advance N P w = (P', w')" and "\<not> finished P"
  shows "remaining w' P' < remaining w P"
  using assms
  by (cases "pr_phase P")
    (auto simp: advance_def remaining_def finished_def member_nodes_def Let_def
      split: list.splits prod.splits if_splits)

lemma schedule_finishes:
  assumes "\<forall>i < length ps. remaining w (ps ! i) \<le> count_list sched i"
    and "run_schedule N sched (ps, w) = (ps', w')"
  shows "\<forall>i < length ps. finished (ps' ! i)"
  using assms
proof (induction sched arbitrary: ps w)
  case Nil
  then show ?case by (simp add: remaining_0)
next
  case (Cons i sched)
  show ?case
  proof (cases "i < length ps \<and> \<not> finished (ps ! i)")
    case True
    obtain P w1 where adv: "advance N (ps ! i) w = (P, w1)" by fastforce
    have "remaining w1 (ps[i := P] ! j) \<le> count_list sched j" if "j < length ps" for j
    proof (cases "j = i")
      case True
      with Cons.prems(1) that remaining_turn [OF adv] \<open>i < length ps \<and> \<not> finished (ps ! i)\<close>
      show ?thesis by (fastforce simp: less_Suc_eq_le)
    next
      case False
      with Cons.prems(1) that remaining_other [OF adv] show ?thesis by fastforce
    qed
    then have "\<forall>j < length (ps[i := P]). finished (ps' ! j)"
      using Cons.prems(2) True adv by (intro Cons.IH) simp_all
    then show ?thesis by simp
  next
    case False
    have "remaining w (ps ! j) \<le> count_list sched j" if "j < length ps" for j
      using Cons.prems(1) that False remaining_0 [of w "ps ! i"] by (fastforce split: if_splits)
    with Cons.prems(2) False show ?thesis by (intro Cons.IH) auto
  qed
qed

subsection \<open>The slot of a key\<close>

definition slot :: "string \<Rightarrow> Data \<Rightarrow> Rounds option \<times> string \<times> string option" where
  "slot key d =
     (map_of (d_log d) key, if key = ''leader'' then d_leader d else '''', map_of (d_kv d) key)"

text \<open>The rounds that \<open>operator[]\<close> finds, and the value that a user or a process finds.\<close>

definition entries :: "Rounds option \<Rightarrow> Rounds" where
  "entries m = (case m of None \<Rightarrow> [] | Some m \<Rightarrow> m)"

definition held :: "string \<Rightarrow> Data \<Rightarrow> string option" where
  "held key d = (if key = ''leader'' then Some (d_leader d) else map_of (d_kv d) key)"

lemma entries_Some [simp]: "entries (Some m) = m"
  by (simp add: entries_def)

lemma entries_slot: "entries (fst (slot k d)) = smap_index [] (d_log d) k"
  by (simp add: slot_def entries_def smap_index_def)

lemma slot_log: "slot k d = slot k d' \<Longrightarrow> smap_index [] (d_log d) k = smap_index [] (d_log d') k"
  by (simp flip: entries_slot)

lemma slot_held: "slot k d = slot k d' \<Longrightarrow> held k d = held k d'"
  by (auto simp: slot_def held_def)

lemma slot_propose:
  "slot k (data_propose r d) =
    (if k = req_key r
     then (Some (smap_emplace (req_round r) default_LogEntry (entries (fst (slot k d)))), snd (slot k d))
     else slot k d)"
  by (simp add: entries_slot) (simp add: slot_def data_propose_def Set_Log_proposal_def)

lemma slot_accept:
  "slot k (data_accept r d) =
    (if k = req_key r
     then (Some (smap_assign (req_round r)
             ((smap_index default_LogEntry (entries (fst (slot k d))) (req_round r))
                \<lparr>a_server_id := req_pserver_id r, entry_op := req_op r, accepted_value := req_value r\<rparr>)
             (entries (fst (slot k d)))), snd (slot k d))
     else slot k d)"
  by (simp add: entries_slot)
    (simp add: slot_def data_accept_def Set_Log_accept_eq entry_update_def Let_def)

lemma slot_success:
  "slot k (data_success r d) =
    (if k = req_key r
     then (fst (slot k (data_accept r d)),
           if largest_round (entries (fst (slot k (data_accept r d)))) > req_round r then snd (slot k d)
           else if k = ''leader'' then (req_value r, snd (snd (slot k d)))
           else (fst (snd (slot k d)), Some (req_value r)))
     else slot k d)"
  by (simp add: entries_slot)
    (auto simp: slot_def data_success_def Let_def outdated_def Set_KV_def data_accept_def
      Set_Log_accept_eq entry_update_def)

lemmas slot_ops = slot_propose slot_accept slot_success

lemma slot_congruent:
  assumes "slot k d = slot k d'"
  shows "slot k (data_propose r d) = slot k (data_propose r d')"
    "slot k (data_accept r d) = slot k (data_accept r d')"
    "slot k (data_success r d) = slot k (data_success r d')"
    "req_key r = k \<Longrightarrow> answer_propose r d = answer_propose r d'"
    "rounds (d_log d) k = rounds (d_log d') k"
    "req_key r = k \<Longrightarrow> answer_success r d = answer_success r d'"
proof -
  show "slot k (data_propose r d) = slot k (data_propose r d')"
    and a: "slot k (data_accept r d) = slot k (data_accept r d')"
    and "slot k (data_success r d) = slot k (data_success r d')"
    unfolding slot_ops assms by (rule refl)+
  show "req_key r = k \<Longrightarrow> answer_propose r d = answer_propose r d'"
    using slot_log [OF assms] by (simp add: answer_propose_def log_find_def)
  show "rounds (d_log d) k = rounds (d_log d') k" using slot_log [OF assms] by (simp add: rounds_def)
  show "req_key r = k \<Longrightarrow> answer_success r d = answer_success r d'"
    using slot_log [OF a] by (auto simp: answer_success_def outdated_def)
qed

lemma advance_slot_other:
  assumes "advance N P w = (P', w')" and "req_key (pr_request P) \<noteq> k"
  shows "slot k (data w' q) = slot k (data w q)"
proof -
  have w': "w' = snd (advance N P w)" using assms(1) by simp
  show ?thesis
    unfolding w' using assms(2)
    by (cases N P w q rule: advance_data) (simp_all add: slot_ops)
qed

subsection \<open>The stages of an attempt\<close>

text \<open>At every live process the slot is that of \<open>X\<close> when the process is still to be called,
  and that of \<open>Y\<close> otherwise.\<close>

definition stage ::
    "Net \<Rightarrow> nat set \<Rightarrow> string \<Rightarrow> Data \<Rightarrow> Data \<Rightarrow> Node list \<Rightarrow> World \<Rightarrow> bool" where
  "stage N L k X Y todo w \<longleftrightarrow>
     (\<forall>q \<in> L. slot k (data w q) = slot k (if q \<in> set (reached (routed N) todo) then X else Y))"

lemma stage_same: "stage N L k X X todo w = stage N L k X X [] w"
  unfolding stage_def by simp

lemma stage_start:
  "stage N L k X X [] w \<Longrightarrow> L \<subseteq> set (reached (routed N) todo) \<Longrightarrow> stage N L k X Y todo w"
  by (auto simp: stage_def)

lemma stage_done: "stage N L k X Y [] w \<longleftrightarrow> stage N L k Y Y [] w"
  by (simp add: stage_def)

lemma stage_data:
  "(\<And>q. q \<in> L \<Longrightarrow> slot k (data w' q) = slot k (data w q)) \<Longrightarrow>
    stage N L k X Y todo w \<Longrightarrow> stage N L k X Y todo w'"
  by (simp add: stage_def)

context crash_service
begin

lemma stage_call:
  assumes target: "target = routed N" and L: "L \<inter> D = {}"
    and cong: "\<And>d d'. slot k d = slot k d' \<Longrightarrow> slot k (effect d) = slot k (effect d')"
    and XY: "slot k (effect X) = slot k Y"
    and dist: "distinct (reached (routed N) (node # todo))"
    and st: "stage N L k X Y (node # todo) w"
  shows "stage N L k X Y todo (fst (call node w))"
  unfolding stage_def
proof
  fix q assume q: "q \<in> L"
  show "slot k (data (fst (call node w)) q) = slot k (if q \<in> set (reached (routed N) todo) then X else Y)"
  proof (cases "routed N node = Some q")
    case True
    with dist have "q \<notin> set (reached (routed N) todo)" by simp
    moreover have "slot k (data w q) = slot k X" using st q True by (simp add: stage_def)
    moreover have "data (fst (call node w)) q = effect (data w q)"
      using call_live [of node q w] True q L by (auto simp: target)
    ultimately show ?thesis using cong [of "data w q" X] XY by simp
  next
    case False
    then have "data (fst (call node w)) q = data w q" by (intro call_frame) (simp add: target)
    then show ?thesis using st q False by (auto simp: stage_def split: option.splits)
  qed
qed

end

lemma reached_append: "reached t (xs @ ys) = reached t xs @ reached t ys"
  by (induction xs) (simp_all split: option.split)

lemma areq_of_plain:
  "accepted_id pr = 0 \<Longrightarrow> areq_of P pr = areq_of P no_promises"
  by (simp add: areq_of_def accept_request_def no_promises_def)

lemma areq_of_no_promises [simp]:
  "req_value (areq_of P no_promises) = req_value (pr_request P)"
  "req_op (areq_of P no_promises) = req_op (pr_request P)"
  by (simp_all add: areq_of_def accept_request_def no_promises_def Let_def)

lemma sreq_of_echo:
  "req_key r = req_key (pr_request P) \<Longrightarrow> sreq_of P (echo r) = r"
  using success_request_echo [of r] by (simp add: sreq_of_def)

text \<open>What a proposer that nobody disturbs knows in each phase. \<open>d\<close> is the data every live
  process held at the start.\<close>

definition proposed :: "Proposer \<Rightarrow> Data \<Rightarrow> Data" where
  "proposed P d = data_propose (prep_of P) d"

definition accepted :: "Proposer \<Rightarrow> Data \<Rightarrow> Data" where
  "accepted P d = data_accept (areq_of P no_promises) (proposed P d)"

definition committed :: "Proposer \<Rightarrow> Data \<Rightarrow> Data" where
  "committed P d = data_success (areq_of P no_promises) (accepted P d)"

fun doing :: "Net \<Rightarrow> nat set \<Rightarrow> nat set \<Rightarrow> Data \<Rightarrow> World \<Rightarrow> Proposer \<Rightarrow> phase \<Rightarrow> bool" where
  "doing N S D d w P Ready = stage N (S - D) (req_key (pr_request P)) d d [] w"
| "doing N S D d w P (Pinging todo live) =
     (stage N (S - D) (req_key (pr_request P)) d d [] w \<and>
      (\<exists>tried. pr_members P = tried @ todo \<and> live = live_nodes N D tried))"
| "doing N S D d w P (Proposing todo live pr) =
     (stage N (S - D) (req_key (pr_request P)) d (proposed P d) todo w \<and>
      live = live_nodes N D (pr_members P) \<and> accepted_id pr = 0 \<and>
      (\<exists>tried. live = tried @ todo \<and> num_accepted_proposals pr = int (length tried)))"
| "doing N S D d w P (Accepting pr todo num acceptance) =
     (stage N (S - D) (req_key (pr_request P)) (proposed P d) (accepted P d) todo w \<and>
      accepted_id pr = 0 \<and>
      (\<exists>tried. live_nodes N D (pr_members P) = tried @ todo \<and> num = int (length tried) \<and>
         (tried \<noteq> [] \<longrightarrow> acceptance = echo (areq_of P no_promises))))"
| "doing N S D d w P (Announcing acceptance todo) =
     (stage N (S - D) (req_key (pr_request P)) (accepted P d) (committed P d) todo w \<and>
      acceptance = echo (areq_of P no_promises) \<and> (\<exists>tried. pr_members P = tried @ todo))"
| "doing N S D d w P (Finished s response) =
     (stage N (S - D) (req_key (pr_request P)) (committed P d) (committed P d) [] w \<and>
      s = Status_OK \<and> response = echo (areq_of P no_promises))"

definition on_track :: "Net \<Rightarrow> nat set \<Rightarrow> nat set \<Rightarrow> Data \<Rightarrow> Proposer \<Rightarrow> World \<Rightarrow> bool" where
  "on_track N S D d P w \<longleftrightarrow> connected N S w \<and> card S \<le> 2 * card (S - D) \<and> log_full (d_log d) \<and>
     rounds (d_log d) (req_key (pr_request P)) < 2 ^ 31 \<and> pr_at P \<in> S - D \<and>
     (pr_phase P \<noteq> Ready \<longrightarrow> pr_members P = member_nodes w (pr_at P) \<and>
        pr_round P = int (rounds (d_log d) (req_key (pr_request P)))) \<and>
     doing N S D d w P (pr_phase P)"

lemma doing_stage:
  assumes "doing N S D d w P ph"
    and "\<And>q. slot (req_key (pr_request P)) (data w' q) = slot (req_key (pr_request P)) (data w q)"
  shows "doing N S D d w' P ph"
  using assms by (cases ph) (simp_all add: stage_def)

lemma doing_phase [simp]: "doing N S D d w (P\<lparr>pr_phase := ph\<rparr>) = doing N S D d w P"
  by (rule ext) (case_tac x, simp_all add: proposed_def accepted_def committed_def)

lemma on_track_other:
  assumes "on_track N S D d P w" and "advance M Q w = (Q', w')"
    and "req_key (pr_request Q) \<noteq> req_key (pr_request P)"
  shows "on_track N S D d P w'"
proof -
  have st: "static w' q = static w q" for q by (rule advance_frame(1) [OF assms(2)])
  show ?thesis
    using assms(1) doing_stage [OF _ advance_slot_other [OF assms(2,3)]]
    by (simp add: on_track_def connected_static [OF st] members_static [OF st])
qed

lemma live_nodes_append: "live_nodes N D (xs @ ys) = live_nodes N D xs @ live_nodes N D ys"
  by (simp add: live_nodes_def)

lemma live_nodes_Cons:
  "live_nodes N D (node # xs) = (if alive (routed N) D node then node # live_nodes N D xs
                                else live_nodes N D xs)"
  by (simp add: live_nodes_def)

lemma live_nodes_empty [simp]: "live_nodes N D [] = []"
  by (simp add: live_nodes_def)

lemma live_nodes_alive: "node \<in> set (live_nodes N D xs) \<Longrightarrow> alive (routed N) D node"
  by (simp add: live_nodes_def)

lemma distinct_reached_suffix:
  "distinct (reached t ms) \<Longrightarrow> ms = xs @ ys \<Longrightarrow> distinct (reached t ys)"
  by (simp add: reached_append)

lemma on_track_doing: "on_track N S D d P w \<Longrightarrow> doing N S D d w P (pr_phase P)"
  unfolding on_track_def by blast

text \<open>The members as a proposer on track sees them.\<close>

lemma on_track_members:
  assumes "on_track N S D d P w" and "pr_phase P \<noteq> Ready"
  shows "distinct (reached (routed N) (pr_members P))" "set (reached (routed N) (pr_members P)) = S"
    "distinct (reached (routed N) (live_nodes N D (pr_members P)))"
    "set (reached (routed N) (live_nodes N D (pr_members P))) = S - D"
    "length (live_nodes N D (pr_members P)) = card (S - D)"
    "2 * card (S - D) \<ge> length (pr_members P)" "length (pr_members P) < 2 ^ 31"
proof -
  from assms have con: "connected N S w" and p: "pr_at P \<in> S" and ms: "pr_members P = member_nodes w (pr_at P)"
    and maj: "card S \<le> 2 * card (S - D)" by (auto simp: on_track_def)
  note c = connectedD [OF con p]
  show dist: "distinct (reached (routed N) (pr_members P))"
    and set: "set (reached (routed N) (pr_members P)) = S"
    using c(3,4) by (simp_all add: ms member_pids_def)
  then show "set (reached (routed N) (live_nodes N D (pr_members P))) = S - D"
    and "length (live_nodes N D (pr_members P)) = card (S - D)"
    by (simp_all add: set_reached_live length_live)
  show "distinct (reached (routed N) (live_nodes N D (pr_members P)))"
    unfolding live_nodes_def by (rule distinct_reached_filter [OF dist])
  show "2 * card (S - D) \<ge> length (pr_members P)" "length (pr_members P) < 2 ^ 31"
    using c(1,5) maj by (simp_all add: ms cluster_ok_def)
qed

lemma not_missed:
  assumes "on_track N S D d P w" and "pr_phase P \<noteq> Ready" and "num = int (card (S - D))"
  shows "\<not> missed num P"
  using on_track_members(6,7) [OF assms(1,2)] assms(3) by (simp add: missed_def quorum_missed_iff)

lemma live_node_member:
  assumes "on_track N S D d P w" and "pr_phase P \<noteq> Ready"
    and "node \<in> set (live_nodes N D (pr_members P))"
  shows "\<exists>q \<in> S - D. routed N node = Some q"
  using live_nodes_alive [OF assms(3)] assms(3) on_track_members(4) [OF assms(1,2)]
  by (auto simp: alive_iff set_reached)

text \<open>The turns of each loop.\<close>

lemma doing_ping:
  assumes tr: "on_track N S D d P w" and ph: "pr_phase P = Pinging (node # todo) live"
    and adv: "advance (crash_net N D) P w = (P', w')"
  shows "doing N S D d w' P (pr_phase P')"
proof -
  obtain w1 s u where call: "stub_ping (crash_net N D) (pr_at P) node w = (w1, s, u)"
    by (cases "stub_ping (crash_net N D) (pr_at P) node w")
  have "ok s \<longleftrightarrow> alive (routed N) D node"
  proof (cases "alive (routed N) D node")
    case True
    then obtain q where "routed N node = Some q" "q \<notin> D" by (auto simp: alive_iff)
    from ping_c.live_answer [OF this, where w = w and p = "pr_at P"] call True show ?thesis by simp
  next
    case False
    with ping_c.call_dead [of N D node "pr_at P" w] call show ?thesis by simp
  qed
  moreover have "data w1 q = data w q" for q
    using ping_s.call_once [of "crash_net N D" "pr_at P" node w q] call by auto
  moreover obtain tried where "pr_members P = tried @ node # todo" "live = live_nodes N D tried"
    using on_track_doing [OF tr] ph by auto
  moreover have "w' = w1" "pr_phase P' = Pinging todo (if ok s then live @ [node] else live)"
    using adv ph call by (auto simp: advance_def)
  moreover have "stage N (S - D) (req_key (pr_request P)) d d [] w" using tr ph by (simp add: on_track_def)
  ultimately show ?thesis
    by (auto simp: stage_def live_nodes_append live_nodes_Cons intro!: exI [of _ "tried @ [node]"])
qed

lemma doing_propose:
  assumes tr: "on_track N S D d P w" and ph: "pr_phase P = Proposing (node # todo) live pr"
    and adv: "advance (crash_net N D) P w = (P', w')"
  shows "doing N S D d w' P (pr_phase P')"
proof -
  let ?k = "req_key (pr_request P)"
  obtain w1 s response where call: "stub_propose (crash_net N D) (pr_at P) (prep_of P) node w = (w1, s, response)"
    by (cases "stub_propose (crash_net N D) (pr_at P) (prep_of P) node w")
  from tr ph have st: "stage N (S - D) ?k d (proposed P d) (node # todo) w"
    and live: "live = live_nodes N D (pr_members P)" and full: "log_full (d_log d)"
    and rnd: "pr_round P = int (rounds (d_log d) ?k)" by (auto simp: on_track_def)
  from tr ph obtain tried where tried: "live = tried @ node # todo"
    and num: "num_accepted_proposals pr = int (length tried)" "accepted_id pr = 0"
    by (auto simp: on_track_def)
  have dist: "distinct (reached (routed N) (node # todo))"
    by (rule distinct_reached_suffix [OF _ tried]) (use on_track_members(3) [OF tr] ph live in auto)
  have "node \<in> set (live_nodes N D (pr_members P))" by (simp flip: live add: tried)
  from live_node_member [OF tr _ this] ph obtain q where
    q: "routed N node = Some q" "q \<notin> D" and "q \<in> S - D" by auto
  with st q have "slot ?k (data w q) = slot ?k d" by (simp add: stage_def)
  from slot_congruent(4) [OF this, of "prep_of P"]
  have ans: "answer_propose (prep_of P) (data w q) = answer_propose (prep_of P) d" by simp
  have answer: "answer_propose (prep_of P) d =
      (Status_OK, default_Response\<lparr>resp_round := req_round (prep_of P), resp_pserver_id := 1\<rparr>)"
    using log_full_next [OF full, of ?k] by (simp add: answer_propose_def rnd default_LogEntry_def)
  with propose_c.live_answer [OF q, where r = "prep_of P" and w = w and p = "pr_at P"] ans call
  have res: "(s, response) = (Status_OK, default_Response\<lparr>resp_round := req_round (prep_of P),
      resp_pserver_id := 1\<rparr>)" by simp
  have "stage N (S - D) ?k d (proposed P d) todo w1"
    using propose_c.stage_call [OF refl _ slot_congruent(1) _ dist st,
        where D = D and r = "prep_of P" and p = "pr_at P"] call
    by (auto simp: proposed_def)
  moreover have "w' = w1" "pr_phase P' = Proposing todo live (collect_promise (s, response) pr)"
    using adv ph call by (auto simp: advance_def)
  ultimately show ?thesis
    using res num live tried
    by (auto simp: collect_promise_def Let_def default_Response_def intro!: exI [of _ "tried @ [node]"])
qed

lemma doing_accept:
  assumes tr: "on_track N S D d P w" and ph: "pr_phase P = Accepting pr (node # todo) num acceptance"
    and adv: "advance (crash_net N D) P w = (P', w')"
  shows "doing N S D d w' P (pr_phase P')"
proof -
  let ?k = "req_key (pr_request P)"
  obtain w1 s response where call: "stub_accept (crash_net N D) (pr_at P) (areq_of P pr) node w = (w1, s, response)"
    by (cases "stub_accept (crash_net N D) (pr_at P) (areq_of P pr) node w")
  from tr ph have st: "stage N (S - D) ?k (proposed P d) (accepted P d) (node # todo) w"
    and id: "accepted_id pr = 0" by (auto simp: on_track_def)
  note areq = areq_of_plain [OF id, of P]
  from tr ph obtain tried where tried: "live_nodes N D (pr_members P) = tried @ node # todo"
    and num: "num = int (length tried)" by (auto simp: on_track_def)
  have dist: "distinct (reached (routed N) (node # todo))"
    by (rule distinct_reached_suffix [OF _ tried]) (use on_track_members(3) [OF tr] ph in auto)
  have "node \<in> set (live_nodes N D (pr_members P))" by (simp add: tried)
  from live_node_member [OF tr _ this] ph obtain q where
    q: "routed N node = Some q" "q \<notin> D" by auto
  with accept_c.live_answer [OF q, where r = "areq_of P pr" and w = w and p = "pr_at P"] call
  have res: "s = Status_OK" "response = echo (areq_of P no_promises)" by (simp_all add: areq)
  have "stage N (S - D) ?k (proposed P d) (accepted P d) todo w1"
    using accept_c.stage_call [OF refl _ slot_congruent(2) _ dist st,
        where D = D and r = "areq_of P pr" and p = "pr_at P"] call
    by (auto simp: accepted_def areq)
  moreover have "w' = w1" "pr_phase P' = Accepting pr todo (num + 1) response"
    using adv ph call by (auto simp: advance_def res)
  ultimately show ?thesis
    using res num tried id by (auto intro!: exI [of _ "tried @ [node]"])
qed

lemma doing_announce:
  assumes tr: "on_track N S D d P w" and ph: "pr_phase P = Announcing acceptance (node # todo)"
    and adv: "advance (crash_net N D) P w = (P', w')"
  shows "doing N S D d w' P (pr_phase P')"
proof -
  let ?k = "req_key (pr_request P)"
  obtain w1 res where call: "stub_success (crash_net N D) (pr_at P) (sreq_of P acceptance) node w = (w1, res)"
    by (cases "stub_success (crash_net N D) (pr_at P) (sreq_of P acceptance) node w")
  from tr ph have st: "stage N (S - D) ?k (accepted P d) (committed P d) (node # todo) w"
    and acc: "acceptance = echo (areq_of P no_promises)" by (auto simp: on_track_def)
  from acc have sreq: "sreq_of P acceptance = areq_of P no_promises" by (simp add: sreq_of_echo)
  from on_track_doing [OF tr] ph obtain tried where tried: "pr_members P = tried @ node # todo"
    by auto
  have dist: "distinct (reached (routed N) (node # todo))"
    by (rule distinct_reached_suffix [OF _ tried]) (use on_track_members(1) [OF tr] ph in auto)
  have "stage N (S - D) ?k (accepted P d) (committed P d) todo w1"
    using success_c.stage_call [OF refl _ slot_congruent(3) _ dist st,
        where D = D and r = "sreq_of P acceptance" and p = "pr_at P"] call
    by (auto simp: committed_def sreq)
  moreover have "w' = w1" "pr_phase P' = Announcing acceptance todo"
    using adv ph call by (auto simp: advance_def)
  ultimately show ?thesis using acc tried by (auto intro!: exI [of _ "tried @ [node]"])
qed

text \<open>The tests between the loops, none of which stops a proposer on track.\<close>

lemma doing_ping_end:
  assumes tr: "on_track N S D d P w" and ph: "pr_phase P = Pinging [] live"
    and adv: "advance (crash_net N D) P w = (P', w')"
  shows "doing N S D d w' P (pr_phase P')"
proof -
  have r: "pr_phase P \<noteq> Ready" by (simp add: ph)
  note m = on_track_members [OF tr r]
  from on_track_doing [OF tr] ph have live: "live = live_nodes N D (pr_members P)"
    and st: "stage N (S - D) (req_key (pr_request P)) d d [] w" by auto
  from m(5) have len: "length live = card (S - D)" by (simp add: live)
  have "length live \<le> length (pr_members P)" by (simp add: live live_nodes_def)
  with m(7) have "int_of_size (length live) = int (card (S - D))" by (simp add: len)
  with not_missed [OF tr r] have "\<not> missed (int_of_size (length live)) P" by simp
  with adv ph have "w' = w" "pr_phase P' = Proposing live live no_promises"
    by (auto simp: advance_def)
  moreover have "stage N (S - D) (req_key (pr_request P)) d (proposed P d) live w"
    by (rule stage_start [OF st]) (simp add: live m(4))
  ultimately show ?thesis using live by (simp add: no_promises_def)
qed

lemma doing_propose_end:
  assumes tr: "on_track N S D d P w" and ph: "pr_phase P = Proposing [] live pr"
    and adv: "advance (crash_net N D) P w = (P', w')"
  shows "doing N S D d w' P (pr_phase P')"
proof -
  have r: "pr_phase P \<noteq> Ready" by (simp add: ph)
  note m = on_track_members [OF tr r]
  from on_track_doing [OF tr] ph have live: "live = live_nodes N D (pr_members P)"
    and id: "accepted_id pr = 0" and num: "num_accepted_proposals pr = int (length live)"
    and st: "stage N (S - D) (req_key (pr_request P)) d (proposed P d) [] w" by auto
  with m not_missed [OF tr r] have "\<not> missed (num_accepted_proposals pr) P" by simp
  with adv ph have "w' = w" "pr_phase P' = Accepting pr live 0 default_Response"
    by (auto simp: advance_def)
  moreover have "stage N (S - D) (req_key (pr_request P)) (proposed P d) (accepted P d) live w"
    by (rule stage_start [OF stage_done [THEN iffD1, OF st]]) (simp add: live m(4))
  ultimately show ?thesis using live id by simp
qed

lemma doing_accept_end:
  assumes tr: "on_track N S D d P w" and ph: "pr_phase P = Accepting pr [] num acceptance"
    and adv: "advance (crash_net N D) P w = (P', w')"
  shows "doing N S D d w' P (pr_phase P')"
proof -
  have r: "pr_phase P \<noteq> Ready" by (simp add: ph)
  note m = on_track_members [OF tr r]
  from on_track_doing [OF tr] ph have num: "num = int (card (S - D))"
    and acc: "card (S - D) \<noteq> 0 \<longrightarrow> acceptance = echo (areq_of P no_promises)"
    and st: "stage N (S - D) (req_key (pr_request P)) (proposed P d) (accepted P d) [] w"
    using m(5) by auto
  have "pr_at P \<in> S - D" "finite S" using tr by (simp_all add: on_track_def connected_def)
  then have "card (S - D) \<noteq> 0" by auto
  with acc have acc: "acceptance = echo (areq_of P no_promises)" by simp
  from not_missed [OF tr r num] adv ph
  have "w' = w" "pr_phase P' = Announcing acceptance (pr_members P)" by (auto simp: advance_def)
  moreover have "stage N (S - D) (req_key (pr_request P)) (accepted P d) (committed P d)
      (pr_members P) w"
    by (rule stage_start [OF stage_done [THEN iffD1, OF st]]) (simp add: m(2))
  ultimately show ?thesis using acc by simp
qed

lemma doing_turn:
  assumes tr: "on_track N S D d P w" and r: "pr_phase P \<noteq> Ready"
    and adv: "advance (crash_net N D) P w = (P', w')"
  shows "doing N S D d w' P (pr_phase P')"
proof (cases "pr_phase P")
  case Ready
  with r show ?thesis by simp
next
  case (Pinging todo live)
  then show ?thesis using doing_ping [OF tr _ adv] doing_ping_end [OF tr _ adv] by (cases todo) auto
next
  case (Proposing todo live pr)
  then show ?thesis
    using doing_propose [OF tr _ adv] doing_propose_end [OF tr _ adv] by (cases todo) auto
next
  case (Accepting pr todo num acceptance)
  then show ?thesis
    using doing_accept [OF tr _ adv] doing_accept_end [OF tr _ adv] by (cases todo) auto
next
  case (Announcing acceptance todo)
  then show ?thesis
    using doing_announce [OF tr _ adv] on_track_doing [OF tr] adv
    by (cases todo) (auto simp: advance_def intro: stage_done [THEN iffD1])
next
  case (Finished s response)
  with on_track_doing [OF tr] adv show ?thesis by (auto simp: advance_def)
qed

lemma on_track_turn:
  assumes tr: "on_track N S D d P w" and adv: "advance (crash_net N D) P w = (P', w')"
  shows "on_track N S D d P' w'"
proof -
  have st: "static w' q = static w q" for q by (rule advance_frame(1) [OF adv])
  show ?thesis
  proof (cases "pr_phase P = Ready")
    case True
    with tr have "slot (req_key (pr_request P)) (data w (pr_at P)) = slot (req_key (pr_request P)) d"
      by (simp add: on_track_def stage_def)
    from slot_congruent(5) [OF this] tr
    have "int_of_size (rounds (pax_log (procs w (pr_at P))) (req_key (pr_request P))) =
        int (rounds (d_log d) (req_key (pr_request P)))" by (simp add: on_track_def)
    moreover have "doing N S D d w P Ready" using on_track_doing [OF tr] True by simp
    moreover have "doing N S D d w (P\<lparr>pr_members := ms, pr_round := rnd, pr_phase := ph\<rparr>) (Pinging ms []) \<longleftrightarrow>
        doing N S D d w P Ready" for ms rnd ph by (auto intro: exI [of _ "[]"])
    ultimately show ?thesis
      using tr adv True
      by (auto simp: on_track_def advance_def Let_def member_nodes_def rounds_def Get_Log_all_def)
  next
    case False
    note ph = advance_phase [OF adv False]
    have "doing N S D d w' P' (pr_phase P')"
      using doing_turn [OF tr False adv] ph(1) by (metis doing_phase)
    moreover have "pr_members P' = pr_members P" "pr_round P' = pr_round P"
      by (subst ph(1), simp)+
    ultimately show ?thesis
      using tr False ph(2) advance_frame(2,3) [OF adv]
      by (simp add: on_track_def connected_static [OF st] members_static [OF st])
  qed
qed

interpretation track_i: noninterference "crash_net N D" "on_track N S D d"
  "\<lambda>r r'. req_key r \<noteq> req_key r'" for N S D d
  by unfold_locales (rule on_track_turn on_track_other; assumption)+

text \<open>The keys of no proposer are not touched.\<close>

definition untouched :: "World \<Rightarrow> string set \<Rightarrow> Proposer \<Rightarrow> World \<Rightarrow> bool" where
  "untouched w0 K P w \<longleftrightarrow> req_key (pr_request P) \<in> K \<and>
     (\<forall>k q. k \<notin> K \<longrightarrow> slot k (data w q) = slot k (data w0 q))"

interpretation frame_i: noninterference N "untouched w0 K" "\<lambda>r r'. True" for N w0 K
proof unfold_locales
  fix P w P' w'
  assume P: "untouched w0 K P w" and adv: "advance N P w = (P', w')"
  have "slot k (data w' q) = slot k (data w q)" if "k \<notin> K" for k q
    using P that by (intro advance_slot_other [OF adv]) (auto simp: untouched_def)
  with P show u: "untouched w0 K P' w'" by (simp add: untouched_def advance_frame(2) [OF adv])
  fix Q assume "untouched w0 K Q w"
  with u show "untouched w0 K Q w'" by (simp add: untouched_def)
qed

subsection \<open>Concurrent calls for different keys\<close>

definition writes_of :: "(nat \<times> Request) list \<Rightarrow> string \<Rightarrow> string option" where
  "writes_of calls = map_of (map (\<lambda>c. (req_key (snd c), req_value (snd c))) calls)"

lemma writes_of_nth:
  assumes "distinct (map (\<lambda>c. req_key (snd c)) calls)" and "i < length calls"
  shows "writes_of calls (req_key (snd (calls ! i))) = Some (req_value (snd (calls ! i)))"
  unfolding writes_of_def
  using assms by (intro map_of_is_SomeI) (auto simp: comp_def)

lemma writes_of_None:
  "writes_of calls k = None \<longleftrightarrow> k \<notin> set (map (\<lambda>c. req_key (snd c)) calls)"
  by (force simp: writes_of_def map_of_eq_None_iff image_iff)

lemma committed_eq:
  assumes "on_track N S D d P w" and "pr_phase P \<noteq> Ready"
  shows "committed P d = commit_data (pr_request P) d"
  unfolding committed_def accepted_def proposed_def
  by (rule commit_steps(1)) (use assms in \<open>simp_all add: on_track_def\<close>)

lemma slot_commit:
  "held (req_key r) (commit_data r d) = Some (req_value r)"
  by (simp add: held_def Set_KV_def)

text \<open>All callers start on track, have different keys, and come to their end.\<close>

lemma calls_start:
  assumes "healthy N S D n w d" and "n < 2 ^ 31" and "\<forall>(p, r) \<in> set calls. p \<in> S - D"
    and "i < length calls"
  shows "on_track N S D d (readied calls ! i) w"
proof -
  have "fst (calls ! i) \<in> S - D" using assms(3) nth_mem [OF assms(4)] by (auto simp: case_prod_beta)
  moreover have "rounds (d_log d) k < 2 ^ 31" for k
    using assms(1,2) by (simp add: healthy_def bounded_def) (meson le_less_trans)
  ultimately show ?thesis
    using assms(1,4)
    by (simp add: healthy_def on_track_def readied_def case_prod_beta ready_def stage_def replicas_def)
qed

lemma calls_on_track:
  assumes "healthy N S D n w d" and "n < 2 ^ 31" and "\<forall>(p, r) \<in> set calls. p \<in> S - D"
    and keys: "distinct (map (\<lambda>c. req_key (snd c)) calls)"
    and st: "steps (crash_net N D) (readied calls, w) (ps, w')" and "i < length ps"
  shows "on_track N S D d (ps ! i) w'"
proof -
  have "req_key (snd (calls ! i)) \<noteq> req_key (snd (calls ! j))"
    if "i < length calls" "j < length calls" "i \<noteq> j" for i j
    using that nth_eq_iff_index_eq [OF keys] by simp
  then have "track_i.all_own N S D d (readied calls, w)"
    using calls_start [OF assms(1-3)]
    by (simp add: track_i.all_own_def readied_def case_prod_beta ready_def)
  from track_i.all_own_steps [OF st this] show ?thesis using assms(6) by (simp add: track_i.all_own_def)
qed

lemma calls_finish:
  assumes con: "connected N S w" and at: "\<forall>(p, r) \<in> set calls. p \<in> S - D"
    and run: "run_schedule M sched (readied calls, w) = (ps, w')"
    and turns: "\<forall>i < length calls. 4 * card S + 5 \<le> count_list sched i" and i: "i < length calls"
  shows "finished (ps ! i)"
proof -
  have "remaining w (readied calls ! i) \<le> count_list sched i" if "i < length calls" for i
  proof -
    have "fst (calls ! i) \<in> S" using at nth_mem [OF that] by (auto simp: case_prod_beta)
    from connectedD(5) [OF con this] turns that show ?thesis
      by (simp add: remaining_def readied_def case_prod_beta ready_def)
  qed
  then show ?thesis using schedule_finishes [OF _ run] i by (simp add: readied_def)
qed

lemma other_keys_untouched:
  assumes st: "steps M (readied calls, w) (ps, w')"
    and k: "k \<notin> set (map (\<lambda>c. req_key (snd c)) calls)"
  shows "slot k (data w' q) = slot k (data w q)"
proof (cases "calls = []")
  case True
  with st have "w' = w" by (auto simp: readied_def elim: converse_rtranclpE elim!: stepE)
  then show ?thesis by simp
next
  case False
  let ?K = "set (map (\<lambda>c. req_key (snd c)) calls)"
  from step_length [OF st] have "length ps = length calls" by (simp add: readied_def)
  moreover have "frame_i.all_own w ?K (readied calls, w)"
    by (auto simp: frame_i.all_own_def untouched_def readied_def case_prod_beta ready_def)
  from frame_i.all_own_steps [OF st this] have "frame_i.all_own w ?K (ps, w')" .
  ultimately have "untouched w ?K (ps ! 0) w'" using False by (simp add: frame_i.all_own_def)
  with k show ?thesis by (simp add: untouched_def)
qed

lemma isolated_stages:
  assumes h: "healthy N S D n w d" and n: "n < 2 ^ 31"
    and keys: "distinct (map (\<lambda>c. req_key (snd c)) calls)"
    and at: "\<forall>(p, r) \<in> set calls. p \<in> S - D"
    and run: "run_schedule (crash_net N D) sched (readied calls, w) = (ps, w')"
    and turns: "\<forall>i < length calls. 4 * card S + 5 \<le> count_list sched i"
    and i: "i < length calls"
  shows "\<exists>response. pr_phase (ps ! i) = Finished Status_OK response \<and>
      resp_value response = req_value (snd (calls ! i))"
    and "stage N (S - D) (req_key (snd (calls ! i))) (commit_data (snd (calls ! i)) d)
      (commit_data (snd (calls ! i)) d) [] w'"
proof -
  from h have con: "connected N S w" by (simp add: healthy_def)
  have st: "steps (crash_net N D) (readied calls, w) (ps, w')"
    using schedule_steps [of "crash_net N D" "(readied calls, w)" sched] by (simp add: run)
  from step_length [OF st] have len: "length ps = length calls" by (simp add: readied_def)
  from step_length [OF st] i have req: "pr_request (ps ! i) = snd (calls ! i)"
    by (auto simp: readied_def case_prod_beta ready_def dest: arg_cong [where f = "\<lambda>l. l ! i"])
  have tr: "on_track N S D d (ps ! i) w'" by (rule calls_on_track [OF h n at keys st]) (simp add: len i)
  from calls_finish [OF con at run turns i] obtain s response where
    ph: "pr_phase (ps ! i) = Finished s response" by (auto simp: finished_iff)
  from on_track_doing [OF tr] committed_eq [OF tr] ph
  show "\<exists>response. pr_phase (ps ! i) = Finished Status_OK response \<and>
      resp_value response = req_value (snd (calls ! i))"
    and "stage N (S - D) (req_key (snd (calls ! i))) (commit_data (snd (calls ! i)) d)
      (commit_data (snd (calls ! i)) d) [] w'" by (simp_all add: req)
qed

lemma isolated_calls:
  assumes h: "healthy N S D n w d" and n: "n < 2 ^ 31"
    and keys: "distinct (map (\<lambda>c. req_key (snd c)) calls)"
    and at: "\<forall>(p, r) \<in> set calls. p \<in> S - D"
    and run: "run_schedule (crash_net N D) sched (readied calls, w) = (ps, w')"
    and turns: "\<forall>i < length calls. 4 * card S + 5 \<le> count_list sched i"
  shows "\<forall>i < length calls. \<exists>response. pr_phase (ps ! i) = Finished Status_OK response \<and>
      resp_value response = req_value (snd (calls ! i))"
    and "\<forall>q \<in> S - D. \<forall>k. held k (data w' q) =
      (case writes_of calls k of None \<Rightarrow> held k (data w q) | Some v \<Rightarrow> Some v)"
proof -
  have st: "steps (crash_net N D) (readied calls, w) (ps, w')"
    using schedule_steps [of "crash_net N D" "(readied calls, w)" sched] by (simp add: run)
  note fin = isolated_stages [OF assms]
  show "\<forall>i < length calls. \<exists>response. pr_phase (ps ! i) = Finished Status_OK response \<and>
      resp_value response = req_value (snd (calls ! i))" using fin(1) by blast
  have "held k (data w' q) = Some v" if "q \<in> S - D" "writes_of calls k = Some v" for q k v
  proof -
    from that(2) have "k \<in> set (map (\<lambda>c. req_key (snd c)) calls)" by (metis writes_of_None option.distinct(1))
    then obtain i where i: "i < length calls" "k = req_key (snd (calls ! i))"
      by (auto simp: in_set_conv_nth case_prod_beta)
    have "slot k (data w' q) = slot k (commit_data (snd (calls ! i)) d)"
      using fin(2) [OF i(1)] that(1) by (simp add: stage_def i(2))
    from slot_held [OF this] writes_of_nth [OF keys i(1)] that(2) show ?thesis
      by (simp add: i(2) slot_commit)
  qed
  then show "\<forall>q \<in> S - D. \<forall>k. held k (data w' q) =
      (case writes_of calls k of None \<Rightarrow> held k (data w q) | Some v \<Rightarrow> Some v)"
    using slot_held [OF other_keys_untouched [OF st]] by (auto simp: writes_of_None split: option.split)
qed

end
