(* ===== verification/Race.thy ===== *)
theory Race
  imports Isolation Scenarios
begin

text \<open>
  Two writes of one key at the same time. \<open>data_advance\<close> is a turn of a proposer on the
  replicated data alone, as \<open>data_attempt\<close> is for a whole attempt; the schedules below are
  executed on it and carried over to the code's proposers.
\<close>

definition data_advance ::
    "Net \<Rightarrow> Node list \<Rightarrow> Proposer \<Rightarrow> data_state \<Rightarrow> Proposer \<times> data_state" where
  "data_advance N ms P st =
     (case pr_phase P of
        Ready \<Rightarrow>
          (P\<lparr>pr_members := ms,
             pr_round := int_of_size (rounds (d_log (fst st ! pr_at P)) (req_key (pr_request P))),
             pr_phase := Pinging ms []\<rparr>, st)
      | Pinging [] live \<Rightarrow>
          (P\<lparr>pr_phase := if missed (int_of_size (length live)) P
                        then Finished not_enough default_Response
                        else Proposing live live no_promises\<rparr>, st)
      | Pinging (node # todo) live \<Rightarrow>
          (case data_call N (\<lambda>d. d) (\<lambda>_. (Status_OK, ())) () node st of
             (st', s, _) \<Rightarrow>
               (P\<lparr>pr_phase := Pinging todo (if ok s then live @ [node] else live)\<rparr>, st'))
      | Proposing [] live promises \<Rightarrow>
          (P\<lparr>pr_phase := if missed (num_accepted_proposals promises) P
                        then Finished not_enough default_Response
                        else Accepting promises live 0 default_Response\<rparr>, st)
      | Proposing (node # todo) live promises \<Rightarrow>
          (case data_call N (data_propose (prep_of P)) (answer_propose (prep_of P))
                  default_Response node st of
             (st', res) \<Rightarrow>
               (P\<lparr>pr_phase := Proposing todo live (collect_promise res promises)\<rparr>, st'))
      | Accepting promises [] num acceptance \<Rightarrow>
          (P\<lparr>pr_phase := if missed num P then Finished not_enough default_Response
                        else Announcing acceptance (pr_members P)\<rparr>, st)
      | Accepting promises (node # todo) num acceptance \<Rightarrow>
          (case data_call N (data_accept (areq_of P promises))
                  (\<lambda>_. (Status_OK, echo (areq_of P promises))) default_Response node st of
             (st', s, response) \<Rightarrow>
               (P\<lparr>pr_phase := if ok s then Accepting promises todo (num + 1) response
                             else Accepting promises todo num acceptance\<rparr>, st'))
      | Announcing acceptance [] \<Rightarrow> (P\<lparr>pr_phase := Finished Status_OK acceptance\<rparr>, st)
      | Announcing acceptance (node # todo) \<Rightarrow>
          (case data_call N (data_success (sreq_of P acceptance))
                  (answer_success (sreq_of P acceptance)) () node st of
             (st', _) \<Rightarrow> (P\<lparr>pr_phase := Announcing acceptance todo\<rparr>, st'))
      | Finished s response \<Rightarrow> (P, st))"

fun data_schedule ::
    "Net \<Rightarrow> Node list \<Rightarrow> nat list \<Rightarrow> Proposer list \<times> data_state \<Rightarrow> Proposer list \<times> data_state" where
  "data_schedule N ms [] c = c"
| "data_schedule N ms (i # is) (ps, st) =
     (if i < length ps \<and> \<not> finished (ps ! i)
      then (case data_advance N ms (ps ! i) st of
              (P, st') \<Rightarrow> data_schedule N ms is (ps[i := P], st'))
      else data_schedule N ms is (ps, st))"

text \<open>One simulated call gives the same answer and related states.\<close>

lemma call_mirrors:
  assumes "mirrors N w st"
  shows "mirrors N (fst (stub_ping N p node w)) (fst (data_call N (\<lambda>d. d) (\<lambda>_. (Status_OK, ())) () node st))"
    "snd (stub_ping N p node w) = snd (data_call N (\<lambda>d. d) (\<lambda>_. (Status_OK, ())) () node st)"
    "mirrors N (fst (stub_propose N p r node w))
      (fst (data_call N (data_propose r) (answer_propose r) default_Response node st))"
    "snd (stub_propose N p r node w) =
      snd (data_call N (data_propose r) (answer_propose r) default_Response node st)"
    "mirrors N (fst (stub_accept N p r node w))
      (fst (data_call N (data_accept r) (\<lambda>_. (Status_OK, echo r)) default_Response node st))"
    "snd (stub_accept N p r node w) =
      snd (data_call N (data_accept r) (\<lambda>_. (Status_OK, echo r)) default_Response node st)"
    "mirrors N (fst (stub_success N p r node w))
      (fst (data_call N (data_success r) (answer_success r) () node st))"
    "snd (stub_success N p r node w) =
      snd (data_call N (data_success r) (answer_success r) () node st)"
  using ping_sim.step [OF assms] propose_sim.step [OF assms] accept_sim.step [OF assms]
    success_sim.step [OF assms] by blast+

lemma advance_mirrors:
  assumes m: "mirrors N w st" and p: "pr_at P < length (fst st)" and ms: "member_nodes w (pr_at P) = ms"
  shows "mirrors N (snd (advance N P w)) (snd (data_advance N ms P st)) \<and>
    fst (advance N P w) = fst (data_advance N ms P st)"
proof (cases "pr_phase P")
  case Ready
  have "data w (pr_at P) = fst st ! pr_at P" using m p by (simp add: mirrors_def)
  then have "d_log (fst st ! pr_at P) = pax_log (procs w (pr_at P))" by (metis data_of_sel(1))
  with Ready m ms show ?thesis
    by (simp add: advance_def data_advance_def Let_def rounds_def Get_Log_all_def member_nodes_def)
next
  case (Pinging todo live)
  with m call_mirrors(1,2) [OF m] show ?thesis
    by (cases todo) (auto simp: advance_def data_advance_def case_prod_beta)
next
  case (Proposing todo live pr)
  with m call_mirrors(3,4) [OF m] show ?thesis
    by (cases todo) (auto simp: advance_def data_advance_def case_prod_beta)
next
  case (Accepting pr todo num acceptance)
  with m call_mirrors(5,6) [OF m] show ?thesis
    by (cases todo) (auto simp: advance_def data_advance_def case_prod_beta)
next
  case (Announcing acceptance todo)
  with m call_mirrors(7,8) [OF m] show ?thesis
    by (cases todo) (auto simp: advance_def data_advance_def case_prod_beta)
next
  case (Finished s response)
  with m show ?thesis by (simp add: advance_def data_advance_def)
qed

lemma data_advance_length: "length (fst (snd (data_advance N ms P st))) = length (fst st)"
  by (cases "pr_phase P")
    (auto simp: data_advance_def case_prod_beta split: list.split)

lemma schedule_mirrors:
  assumes "mirrors N w st" and "\<forall>P \<in> set ps. pr_at P < length (fst st)"
    and "\<And>p. member_nodes w p = ms"
  shows "mirrors N (snd (run_schedule N is (ps, w))) (snd (data_schedule N ms is (ps, st))) \<and>
    fst (run_schedule N is (ps, w)) = fst (data_schedule N ms is (ps, st))"
  using assms
proof (induction "is" arbitrary: ps w st)
  case Nil
  then show ?case by simp
next
  case (Cons i "is")
  show ?case
  proof (cases "i < length ps \<and> \<not> finished (ps ! i)")
    case True
    obtain P w1 where adv: "advance N (ps ! i) w = (P, w1)" by fastforce
    from True Cons.prems(2) have p: "pr_at (ps ! i) < length (fst st)" by simp
    from advance_mirrors [OF Cons.prems(1) p Cons.prems(3)] obtain st1 where
      m: "mirrors N w1 st1" and d: "data_advance N ms (ps ! i) st = (P, st1)"
      by (metis adv fst_conv prod.collapse snd_conv)
    have "length (fst st1) = length (fst st)" using data_advance_length [of N ms "ps ! i" st] d by simp
    moreover have "pr_at P = pr_at (ps ! i)" by (rule advance_frame(3) [OF adv])
    ultimately have "\<forall>P \<in> set (ps[i := P]). pr_at P < length (fst st1)"
      using Cons.prems(2) p set_update_subset_insert [of ps i P] by auto
    moreover have "member_nodes w1 p = ms" for p
      using members_static(1) [OF advance_frame(1) [OF adv]] Cons.prems(3) by simp
    ultimately show ?thesis using Cons.IH [OF m] True adv d by simp
  next
    case False
    with Cons.IH [OF Cons.prems] show ?thesis by auto
  qed
qed

subsection \<open>A race at the leader\<close>

text \<open>Two requests to write the key \<open>k\<close> arrive at the leader of a healthy cluster of three.
  Both read the same round and both are proposed and accepted everywhere; their last messages
  reach the other processes in different orders.\<close>

definition race_calls :: "(nat \<times> Request) list" where
  "race_calls = [(0, put ''k'' ''a''), (0, put ''k'' ''b'')]"

definition race_schedule :: "nat list" where
  "race_schedule = concat (replicate 13 [0, 1]) @ [0, 1, 0, 1, 1, 0] @ [0, 1]"

lemma race_run:
  "map pr_phase (fst (data_schedule (ex_net 3) (ex_members 3) race_schedule
      (readied race_calls, replicate 3 ex_data, 0))) =
    [Finished Status_OK (default_Response\<lparr>resp_value := ''a'', resp_pserver_id := 1\<rparr>),
     Finished Status_OK (default_Response\<lparr>resp_value := ''b'', resp_pserver_id := 1\<rparr>)]"
  "map d_kv (fst (snd (data_schedule (ex_net 3) (ex_members 3) race_schedule
      (readied race_calls, replicate 3 ex_data, 0)))) =
    [[(''k'', ''b'')], [(''k'', ''b'')], [(''k'', ''a'')]]"
  by code_simp+

end
