(* ===== verification/Properties_Concurrent.thy ===== *)
theory Properties_Concurrent
  imports Race
begin

text \<open>
  The properties of proposers that run at the same time, as the threads of a gRPC server do.
\<close>

text \<open>Claim C8: writes of different keys do not interfere. In a healthy cluster whose processes
  only crash, let any number of calls of \<open>AttemptConsensus\<close>, at any live processes and with
  pairwise different keys (one of them may be an election), run at the same time, interleaved
  in any order in which each gets its turns. Every one of them succeeds with its own value, and
  every live process ends with exactly these writes made, and everything else as it was.\<close>

theorem different_keys_do_not_interfere:
  assumes "healthy N S D n w d" and "n < 2 ^ 31"
    and "distinct (map (\<lambda>c. req_key (snd c)) calls)" and "\<forall>(p, r) \<in> set calls. p \<in> S - D"
    and "run_schedule (crash_net N D) sched (readied calls, w) = (ps, w')"
    and "\<forall>i < length calls. 4 * card S + 5 \<le> count_list sched i"
  shows "(\<forall>i < length calls. \<exists>response. pr_phase (ps ! i) = Finished Status_OK response \<and>
      resp_value response = req_value (snd (calls ! i))) \<and>
    (\<forall>q \<in> S - D.
      leader (procs w' q) = (case writes_of calls ''leader'' of None \<Rightarrow> leader (procs w q) | Some a \<Rightarrow> a) \<and>
      (\<forall>k. k \<noteq> ''leader'' \<longrightarrow> map_of (kv_store (procs w' q)) k =
        (case writes_of calls k of None \<Rightarrow> map_of (kv_store (procs w q)) k | Some v \<Rightarrow> Some v)))"
proof -
  note iso = isolated_calls [OF assms]
  have slot: "held k (data w' q) =
      (case writes_of calls k of None \<Rightarrow> held k (data w q) | Some v \<Rightarrow> Some v)"
    if "q \<in> S - D" for q k
    using iso(2) that by blast
  have "leader (procs w' q) = (case writes_of calls ''leader'' of None \<Rightarrow> leader (procs w q) | Some a \<Rightarrow> a)"
    if "q \<in> S - D" for q
    using slot [OF that, of "''leader''"] by (simp add: held_def split: option.splits)
  moreover have "map_of (kv_store (procs w' q)) k =
      (case writes_of calls k of None \<Rightarrow> map_of (kv_store (procs w q)) k | Some v \<Rightarrow> Some v)"
    if "q \<in> S - D" "k \<noteq> ''leader''" for q k
    using slot [OF that(1), of k] that(2) by (simp add: held_def split: option.splits)
  ultimately show ?thesis using iso(1) by blast
qed

definition ex_calls :: "(nat \<times> Request) list" where
  "ex_calls = [(0, put ''k'' ''a''), (1, put ''l'' ''b'')]"

definition ex_turns :: "nat list" where
  "ex_turns = replicate 17 0 @ replicate 17 1"

definition ex_parallel :: proposers where
  "ex_parallel = run_schedule (crash_net (ex_net 3) {2}) ex_turns (readied ex_calls, ex_world 3)"

lemma put_fields [simp]: "req_key (put k v) = k" "req_value (put k v) = v"
  by (simp_all add: put_def set_request_def default_Request_def)

theorem different_keys_do_not_interfere_witness:
  "map_of (kv_store (procs (snd ex_parallel) 1)) ''k'' = Some ''a'' \<and>
   map_of (kv_store (procs (snd ex_parallel) 1)) ''l'' = Some ''b''"
proof -
  have "run_schedule (crash_net (ex_net 3) {2}) ex_turns (readied ex_calls, ex_world 3) =
      (fst ex_parallel, snd ex_parallel)" by (simp add: ex_parallel_def)
  moreover have "\<forall>i < length ex_calls. 4 * card {0, 1, 2 :: nat} + 5 \<le> count_list ex_turns i"
    by (auto simp: ex_calls_def ex_turns_def count_replicate count_list_append less_Suc_eq)
  moreover have "distinct (map (\<lambda>c. req_key (snd c)) ex_calls)"
    "\<forall>(p, r) \<in> set ex_calls. p \<in> {0, 1, 2} - {2 :: nat}"
    "writes_of ex_calls ''k'' = Some ''a''" "writes_of ex_calls ''l'' = Some ''b''"
    by (simp_all add: ex_calls_def writes_of_def)
  ultimately show ?thesis
    using different_keys_do_not_interfere [OF ex_healthy [of "{2}"], of ex_calls ex_turns
        "fst ex_parallel" "snd ex_parallel"] by simp
qed

text \<open>Claim C24: no write hangs because of the others. On any network, whatever the other proposers
  do, a proposer that has had \<open>4 n + 5\<close> turns in a cluster of \<open>n\<close> members has finished.\<close>

theorem every_proposer_finishes:
  assumes "run_schedule N sched (readied calls, w) = (ps, w')"
    and "\<forall>i < length calls. 4 * length (member_nodes w (fst (calls ! i))) + 5 \<le> count_list sched i"
  shows "length ps = length calls \<and> (\<forall>i < length calls. finished (ps ! i))"
proof -
  have "steps N (readied calls, w) (ps, w')"
    using schedule_steps [of N "(readied calls, w)" sched] assms(1) by simp
  from step_length [OF this] have "length ps = length calls" by (simp add: readied_def)
  moreover have "\<forall>i < length (readied calls). remaining w (readied calls ! i) \<le> count_list sched i"
    using assms(2) by (simp add: remaining_def readied_def case_prod_beta ready_def)
  from schedule_finishes [OF this assms(1)] have "\<forall>i < length calls. finished (ps ! i)"
    by (simp add: readied_def)
  ultimately show ?thesis by blast
qed

definition ex_storm :: proposers where
  "ex_storm = run_schedule (ex_lossy 3 (\<lambda>t q. if even t then Lose else Cancel)) ex_turns
     (readied ex_calls, ex_world 3)"

theorem every_proposer_finishes_witness: "finished (fst ex_storm ! 1)"
proof -
  have "run_schedule (ex_lossy 3 (\<lambda>t q. if even t then Lose else Cancel)) ex_turns
      (readied ex_calls, ex_world 3) = (fst ex_storm, snd ex_storm)" by (simp add: ex_storm_def)
  moreover have "\<forall>i < length ex_calls.
      4 * length (member_nodes (ex_world 3) (fst (ex_calls ! i))) + 5 \<le> count_list ex_turns i"
    by (auto simp: ex_calls_def ex_turns_def count_replicate count_list_append less_Suc_eq)
  ultimately have "\<forall>i < length ex_calls. finished (fst ex_storm ! i)"
    using every_proposer_finishes by blast
  then show ?thesis by (simp add: ex_calls_def)
qed

text \<open>An attempt is its turns. A proposer that runs alone reaches, within \<open>4 n + 5\<close> turns,
  the state, the status and the response of \<open>AttemptConsensus\<close>.\<close>

lemma attempt_is_its_turns:
  "\<exists>k \<le> 4 * length (member_nodes w p) + 5. \<exists>P'.
     (solo N ^^ k) (ready p r, w) = (P', fst (AttemptConsensus N p r w)) \<and>
     pr_phase P' = Finished (fst (snd (AttemptConsensus N p r w))) (snd (snd (AttemptConsensus N p r w)))"
proof -
  obtain w' s response where "AttemptConsensus N p r w = (w', s, response)"
    by (cases "AttemptConsensus N p r w")
  from alone_attempt [OF this] this show ?thesis by (auto simp: runs_to_def)
qed

text \<open>Claim C13: no interleaving invents a value or damages a log. Let \<open>V\<close> give for each key the
  values that the logs and stores hold under it at the start and those the proposers are asked
  to write. Whatever the network does and however the proposers interleave, logs and stores
  stay well formed, every accepted or stored value is one of \<open>V\<close>, and so is every value that
  is reported as agreed.\<close>

theorem interleaving_invents_nothing:
  assumes "steps N (readied calls, w) (ps, w')" and "sound V w" and "starting V calls w"
    and "calls \<noteq> []"
  shows "sound V w' \<and> (\<forall>i s response. i < length ps \<and> pr_phase (ps ! i) = Finished s response \<and> ok s \<longrightarrow>
    resp_value response \<in> V (req_key (pr_request (ps ! i))))"
proof (intro conjI allI impI)
  note inv = interleaved_sound [OF assms]
  then show "sound V w'" by blast
  fix i s response assume i: "i < length ps \<and> pr_phase (ps ! i) = Finished s response \<and> ok s"
  with inv have "informed V w' (ps ! i)" by blast
  with i show "resp_value response \<in> V (req_key (pr_request (ps ! i)))" by (simp add: informed_def)
qed

definition ex_values :: "string \<Rightarrow> string set" where
  "ex_values k = (if k = ''leader'' then {''h:1''} else {''a'', ''b''})"

definition ex_race :: proposers where
  "ex_race = run_schedule (ex_net 3) race_schedule (readied race_calls, ex_world 3)"

theorem interleaving_invents_nothing_witness: "sound ex_values (snd ex_race)"
proof -
  have "steps (ex_net 3) (readied race_calls, ex_world 3) (fst ex_race, snd ex_race)"
    using schedule_steps [of "ex_net 3" "(readied race_calls, ex_world 3)" race_schedule]
    by (simp add: ex_race_def)
  moreover have "sound ex_values (ex_world 3)"
    by (simp add: sound_def data_ok_def allowed_def ex_data_def ex_values_def log_find_def smap_ok_def)
  moreover have "starting ex_values race_calls (ex_world 3)"
    using ex_cluster_ok by (simp add: starting_def race_calls_def ex_values_def)
  ultimately show ?thesis
    using interleaving_invents_nothing [of "ex_net 3" race_calls "ex_world 3" "fst ex_race" "snd ex_race"
        ex_values] by (simp add: race_calls_def)
qed

text \<open>Claim C32: replicas can diverge without any fault. Two requests to write one key are served at
  the same time by the leader of a healthy cluster of three, on a network that delivers every
  message. Both report success at the same round, each with its own value, and the stores
  of the three processes end up different.\<close>

theorem concurrent_writes_diverge:
  "map pr_phase (fst (run_schedule (ex_net 3) race_schedule (readied race_calls, ex_world 3))) =
     [Finished Status_OK (default_Response\<lparr>resp_value := ''a'', resp_pserver_id := 1\<rparr>),
      Finished Status_OK (default_Response\<lparr>resp_value := ''b'', resp_pserver_id := 1\<rparr>)] \<and>
   map (\<lambda>q. kv_store (procs (snd (run_schedule (ex_net 3) race_schedule
     (readied race_calls, ex_world 3))) q)) [0, 1, 2] =
     [[(''k'', ''b'')], [(''k'', ''b'')], [(''k'', ''a'')]] \<and>
   race_calls = [(0, put ''k'' ''a''), (0, put ''k'' ''b'')]"
proof -
  let ?c = "data_schedule (ex_net 3) (ex_members 3) race_schedule (readied race_calls, replicate 3 ex_data, 0)"
  let ?w = "snd (run_schedule (ex_net 3) race_schedule (readied race_calls, ex_world 3))"
  have "\<forall>P \<in> set (readied race_calls). pr_at P < length (fst (replicate 3 ex_data, 0 :: nat))"
    by (simp add: readied_def race_calls_def ready_def)
  from schedule_mirrors [OF ex_mirrors this ex_member_nodes]
  have m: "mirrors (ex_net 3) ?w (snd ?c)"
    and ps: "fst (run_schedule (ex_net 3) race_schedule (readied race_calls, ex_world 3)) = fst ?c" by auto
  have len: "length (fst (snd ?c)) = 3"
    using arg_cong [where f = length, OF race_run(2)] by simp
  have "kv_store (procs ?w q) = map d_kv (fst (snd ?c)) ! q" if "q < 3" for q
  proof -
    have "data ?w q = fst (snd ?c) ! q" using m that len by (simp add: mirrors_def)
    then show ?thesis using that len by (metis data_of_sel(2) nth_map)
  qed
  then have "map (\<lambda>q. kv_store (procs ?w q)) [0, 1, 2] = [[(''k'', ''b'')], [(''k'', ''b'')], [(''k'', ''a'')]]"
    by (simp add: race_run(2))
  then show ?thesis
    unfolding ps race_run(1) by (intro conjI refl race_calls_def)
qed

end
