(* ===== verification/Threads.thy ===== *)
theory Threads
  imports Interleaving
begin

text \<open>
  The threads of the database service (rpc.cc). Each request a gRPC server receives runs its
  handler on a thread of its own; \<open>DatabaseRPC::get\<close> and \<open>set\<close> call other processes, whose
  handlers run on threads there while the caller waits. \<open>activation\<close> is one handler under way
  and the point it has reached; a stack of activations is a request with the forwards it is
  waiting for, the innermost first. \<open>turn\<close> executes the innermost handler up to and including
  its next remote call. Run alone, a stack computes what \<open>Database_get\<close> and \<open>Database_set\<close>
  return.
\<close>

subsection \<open>Handlers under way\<close>

datatype job = Get_job string | Set_job string string

datatype point =
    Entered
  | Leading Proposer
  | Forwarded fate
  | Failing
  | Electing fate nat Proposer
  | Elected
  | Retried fate
  | Replied Status GetResponse

record activation =
  ac_at :: nat
  ac_job :: job
  ac_cancelled :: bool
  ac_point :: point

type_synonym thread_state = "activation list \<times> World"

fun handler_name :: "job \<Rightarrow> string" where
  "handler_name (Get_job key) = ''DatabaseRPC::get''"
| "handler_name (Set_job key v) = ''DatabaseRPC::set''"

fun stub_name :: "job \<Rightarrow> string" where
  "stub_name (Get_job key) = ''DatabaseRPCWrapperCall::get''"
| "stub_name (Set_job key v) = ''DatabaseRPCWrapperCall::set''"

text \<open>A call of the database service: \<open>None\<close> when it fails before a handler runs.\<close>

definition send_job :: "Net \<Rightarrow> string \<Rightarrow> job \<Rightarrow> World \<Rightarrow> (fate \<times> activation) option \<times> World" where
  "send_job N addr j w =
     (case database_route N addr of
        None \<Rightarrow> (None, tick w)
      | Some q \<Rightarrow>
          (let f = fate N (clock w) q
           in (if f = Drop then None
               else Some (f, \<lparr>ac_at = q, ac_job = j, ac_cancelled = (f = Cancel), ac_point = Entered\<rparr>),
               tick w)))"

text \<open>What the caller sees of the reply.\<close>

fun received :: "fate \<Rightarrow> Status \<Rightarrow> GetResponse \<Rightarrow> Status \<times> GetResponse" where
  "received Deliver s r = (s, if ok s then r else default_GetResponse)"
| "received Drop s r = (unavailable, default_GetResponse)"
| "received Lose s r = (deadline_exceeded, default_GetResponse)"
| "received Cancel s r = (client_cancelled, default_GetResponse)"

abbreviation at_point :: "activation \<Rightarrow> point \<Rightarrow> activation" where
  "at_point A pt \<equiv> A\<lparr>ac_point := pt\<rparr>"

abbreviation replies_with :: "activation \<Rightarrow> Status \<Rightarrow> activation" where
  "replies_with A s \<equiv> at_point A (Replied s default_GetResponse)"

text \<open>The request of the handler sent on to another process.\<close>

definition pass_on ::
    "Net \<Rightarrow> string \<Rightarrow> activation \<Rightarrow> (fate \<Rightarrow> point) \<Rightarrow> point \<Rightarrow> activation list \<Rightarrow> World \<Rightarrow> thread_state"
  where
  "pass_on N addr A waiting failed stack w =
     (case send_job N addr (ac_job A) w of
        (None, w) \<Rightarrow> (at_point A failed # stack, w)
      | (Some (f, B), w) \<Rightarrow> (B # at_point A (waiting f) # stack, w))"

text \<open>The code up to the call of the leader, or at the leader.\<close>

definition enter :: "Net \<Rightarrow> activation \<Rightarrow> activation list \<Rightarrow> World \<Rightarrow> thread_state" where
  "enter N A stack w =
     (let p = ac_at A;
          w = update p (count_in (handler_name (ac_job A))) w;
          addr = leader (procs w p)
      in if ac_cancelled A then (replies_with A cancelled_status # stack, w)
         else if addr = '''' then (replies_with A no_leader # stack, w)
         else if addr = self_address (procs w p)
         then (case ac_job A of
                 Get_job key \<Rightarrow>
                   (at_point A (Replied Status_OK (local_get \<lparr>get_key = key\<rparr> (procs w p))) # stack, w)
               | Set_job key v \<Rightarrow>
                   (at_point A (Leading (ready p (set_request \<lparr>set_key = key, set_value = v\<rparr>))) # stack, w))
         else
           (case map_of (memberList (procs w p)) (leader (procs w p)) of
              None \<Rightarrow> (replies_with A uncaught_exception # stack, w)
            | Some node \<Rightarrow> pass_on N (databaseEndpoint node) A Forwarded Failing stack w))"

text \<open>The election after a leader that did not answer: the stub, and \<open>elect_leader\<close> where it is
  executed.\<close>

definition start_election :: "Net \<Rightarrow> activation \<Rightarrow> activation list \<Rightarrow> World \<Rightarrow> thread_state" where
  "start_election N A stack w =
     (let p = ac_at A;
          w = update p (count_out ''ConsensusRPCWrapperCall::trigger_election'') w;
          r = default_Request\<lparr>req_value := self_address (procs w p), req_key := ''leader'',
                req_op := SET_LEADER\<rparr>
      in case consensus_route N (consensusEndpoint (currentNode (procs w p))) of
           None \<Rightarrow> (replies_with A no_suitable_leader # stack, tick w)
         | Some x \<Rightarrow>
             (let f = fate N (clock w) x; w = tick w
              in if f = Drop then (replies_with A no_suitable_leader # stack, w)
                 else
                   (let w = update x (count_in ''ConsensusRPC::elect_leader'') w
                    in if f = Cancel then (replies_with A no_suitable_leader # stack, w)
                       else (at_point A (Electing f x (ready x r)) # stack, w))))"

definition end_election ::
    "activation \<Rightarrow> fate \<Rightarrow> nat \<Rightarrow> Status \<Rightarrow> Response \<Rightarrow> activation list \<Rightarrow> World \<Rightarrow> thread_state" where
  "end_election A f x s response stack w =
     ((if ok s \<and> f = Deliver then at_point A Elected else replies_with A no_suitable_leader) # stack,
      if ok s then update x (\<lambda>P. P\<lparr>leader := resp_value response\<rparr>) w else w)"

text \<open>The reply of an inner handler reaches the one that waits for it.\<close>

definition resume :: "Status \<Rightarrow> GetResponse \<Rightarrow> activation \<Rightarrow> activation" where
  "resume s r B =
     (case ac_point B of
        Forwarded f \<Rightarrow>
          (case received f s r of
             (s, r) \<Rightarrow> if ok s then at_point B (Replied Status_OK (relay r)) else at_point B Failing)
      | Retried f \<Rightarrow>
          (case received f s r of
             (s, r) \<Rightarrow> if ok s then at_point B (Replied Status_OK (relay r))
                       else replies_with B new_leader_failed)
      | _ \<Rightarrow> B)"

fun turn :: "Net \<Rightarrow> thread_state \<Rightarrow> thread_state" where
  "turn N ([], w) = ([], w)"
| "turn N (A # stack, w) =
     (case ac_point A of
        Entered \<Rightarrow> enter N A stack w
      | Leading P \<Rightarrow>
          (case pr_phase P of
             Finished s response \<Rightarrow> (replies_with A s # stack, w)
           | _ \<Rightarrow> (case advance N P w of (P', w') \<Rightarrow> (at_point A (Leading P') # stack, w')))
      | Failing \<Rightarrow> start_election N A stack w
      | Electing f x P \<Rightarrow>
          (case pr_phase P of
             Finished s response \<Rightarrow> end_election A f x s response stack w
           | _ \<Rightarrow> (case advance N P w of (P', w') \<Rightarrow> (at_point A (Electing f x P') # stack, w')))
      | Elected \<Rightarrow>
          (case map_of (memberList (procs w (ac_at A))) (leader (procs w (ac_at A))) of
             None \<Rightarrow> (replies_with A uncaught_exception # stack, w)
           | Some node \<Rightarrow>
               pass_on N (databaseEndpoint node) A Retried (Replied new_leader_failed default_GetResponse)
                 stack w)
      | Replied s r \<Rightarrow>
          (case stack of [] \<Rightarrow> ([A], w) | B # rest \<Rightarrow> (resume s r B # rest, w))
      | _ \<Rightarrow> (A # stack, w))"

declare turn.simps [simp del]

subsection \<open>A stack that runs alone\<close>

definition turns_to :: "Net \<Rightarrow> thread_state \<Rightarrow> thread_state \<Rightarrow> bool" where
  "turns_to N st st' \<longleftrightarrow> (\<exists>n. (turn N ^^ n) st = st')"

lemma turns_to_refl [simp]: "turns_to N st st"
  unfolding turns_to_def by (rule exI [of _ 0]) simp

lemma turns_to_step: "turns_to N (turn N st) st' \<Longrightarrow> turns_to N st st'"
  unfolding turns_to_def by (metis comp_apply funpow_Suc_right)

lemma turns_to_trans: "turns_to N st st' \<Longrightarrow> turns_to N st' st'' \<Longrightarrow> turns_to N st st''"
  unfolding turns_to_def by (metis comp_apply funpow_add)

lemma turns_to_last: "turns_to N st st' \<Longrightarrow> turn N st' = st'' \<Longrightarrow> turns_to N st st''"
  by (metis turns_to_refl turns_to_step turns_to_trans)

text \<open>A proposer inside an activation takes its turns there until it has finished.\<close>

lemma leading_turns:
  assumes "(solo N ^^ n) (P, w) = (P', w')"
    and "\<And>P w. \<not> finished P \<Longrightarrow> turn N (A P # stack, w) = (A (fst (advance N P w)) # stack, snd (advance N P w))"
  shows "turns_to N (A P # stack, w) (A P' # stack, w')"
  using assms(1)
proof (induction n arbitrary: P w)
  case 0
  then show ?case by simp
next
  case (Suc n)
  show ?case
  proof (cases "finished P")
    case True
    then have "solo N (P, w) = (P, w)" by (auto simp: solo_def advance_def finished_iff)
    with Suc show ?thesis by (simp add: funpow_swap1)
  next
    case False
    have "solo N (P, w) = advance N P w" by (simp add: solo_def)
    with Suc.prems have "(solo N ^^ n) (fst (advance N P w), snd (advance N P w)) = (P', w')"
      by (simp add: funpow_Suc_right del: funpow.simps)
    from Suc.IH [OF this] show ?thesis
      unfolding assms(2) [OF False, symmetric] by (rule turns_to_step)
  qed
qed

lemma attempt_turns:
  assumes att: "AttemptConsensus N x r w = (w', s, response)"
    and A: "\<And>P w. \<not> finished P \<Longrightarrow> turn N (A P # stack, w) = (A (fst (advance N P w)) # stack, snd (advance N P w))"
  obtains P where "pr_phase P = Finished s response" "turns_to N (A (ready x r) # stack, w) (A P # stack, w')"
  using alone_attempt [OF att] leading_turns [OF _ A] that unfolding runs_to_def by blast

lemma turn_leading:
  "\<not> finished P \<Longrightarrow> turn N (at_point A (Leading P) # stack, w) =
    (at_point A (Leading (fst (advance N P w))) # stack, snd (advance N P w))"
  by (cases "pr_phase P") (auto simp: turn.simps finished_def split: prod.split)

lemma turn_electing:
  "\<not> finished P \<Longrightarrow> turn N (at_point A (Electing f x P) # stack, w) =
    (at_point A (Electing f x (fst (advance N P w))) # stack, snd (advance N P w))"
  by (cases "pr_phase P") (auto simp: turn.simps finished_def split: prod.split)

text \<open>One handler by fuel, for both kinds of request.\<close>

fun serve :: "nat \<Rightarrow> Net \<Rightarrow> job \<Rightarrow> GetResponse fuel_handler" where
  "serve fuel N (Get_job key) c p w = Database_get fuel N \<lparr>get_key = key\<rparr> c p w"
| "serve fuel N (Set_job key v) c p w =
     map_option (\<lambda>(w, s, _). (w, s, default_GetResponse))
       (Database_set fuel N \<lparr>set_key = key, set_value = v\<rparr> c p w)"

definition forward_job ::
    "nat \<Rightarrow> Net \<Rightarrow> job \<Rightarrow> string \<Rightarrow> World \<Rightarrow> (World \<times> Status \<times> GetResponse) option" where
  "forward_job fuel N j addr w =
     rpc_forward N (database_route N) addr default_GetResponse (serve fuel N j) w"

definition retry_job ::
    "nat \<Rightarrow> Net \<Rightarrow> job \<Rightarrow> nat \<Rightarrow> World \<Rightarrow> (World \<times> Status \<times> GetResponse) option" where
  "retry_job fuel N j p w =
     (case trigger_election N p w of
        (w, s, _) \<Rightarrow>
          if \<not> ok s then Some (w, no_suitable_leader, default_GetResponse)
          else
            (case map_of (memberList (procs w p)) (leader (procs w p)) of
               None \<Rightarrow> Some (w, uncaught_exception, default_GetResponse)
             | Some node \<Rightarrow>
                 Option.bind (forward_job fuel N j (databaseEndpoint node) w)
                   (\<lambda>(w, s, r).
                      if \<not> ok s then Some (w, new_leader_failed, default_GetResponse)
                      else Some (w, Status_OK, relay r))))"

lemma forward_job_set:
  "forward_job fuel N (Set_job key v) addr w =
     map_option (\<lambda>(w, s, _). (w, s, default_GetResponse))
       (rpc_forward N (database_route N) addr ()
          (\<lambda>c q w. Database_set fuel N \<lparr>set_key = key, set_value = v\<rparr> c q w) w)"
proof (cases "database_route N addr")
  case None
  then show ?thesis by (simp add: forward_job_def rpc_forward_def)
next
  case (Some q)
  have "forward_job fuel N (Set_job key v) addr w =
      map_option (\<lambda>(w, s, _). (w, s, default_GetResponse)) x"
    if "rpc_forward N (database_route N) addr ()
      (\<lambda>c q w. Database_set fuel N \<lparr>set_key = key, set_value = v\<rparr> c q w) w = x" for x
    using Some that
    by (cases "fate N (clock w) q";
        cases "Database_set fuel N \<lparr>set_key = key, set_value = v\<rparr> False q (tick w)";
        cases "Database_set fuel N \<lparr>set_key = key, set_value = v\<rparr> True q (tick w)")
      (auto simp: forward_job_def rpc_forward_def)
  then show ?thesis by simp
qed

lemma retry_job_get:
  "get_failover N (\<lambda>addr w. rpc_forward N (database_route N) addr default_GetResponse
      (\<lambda>c q w. Database_get fuel N \<lparr>get_key = key\<rparr> c q w) w) p w = retry_job fuel N (Get_job key) p w"
proof -
  have "(\<lambda>c q w. Database_get fuel N \<lparr>get_key = key\<rparr> c q w) = serve fuel N (Get_job key)"
    by (intro ext) simp
  then show ?thesis unfolding get_failover_def retry_job_def forward_job_def by (rule subst) (rule refl)
qed

lemma map_option_bind_same:
  "(\<And>x. map_option f (g x) = h (k x)) \<Longrightarrow> map_option f (Option.bind m g) = Option.bind (map_option k m) h"
  by (cases m) simp_all

lemma retry_job_set:
  "map_option (\<lambda>(w, s, _). (w, s, default_GetResponse))
     (set_failover N (\<lambda>addr w. rpc_forward N (database_route N) addr ()
        (\<lambda>c q w. Database_set fuel N \<lparr>set_key = key, set_value = v\<rparr> c q w) w) p w) =
   retry_job fuel N (Set_job key v) p w"
  unfolding set_failover_def retry_job_def forward_job_set
  by (auto simp: relay_def intro!: map_option_bind_same split: prod.split option.split)

lemma serve_Suc:
  "serve (Suc fuel) N j c p w =
     (let w = update p (count_in (handler_name j)) w;
          addr = leader (procs w p)
      in if c then Some (w, cancelled_status, default_GetResponse)
         else if addr = '''' then Some (w, no_leader, default_GetResponse)
         else if addr = self_address (procs w p)
         then (case j of
                 Get_job key \<Rightarrow> Some (w, Status_OK, local_get \<lparr>get_key = key\<rparr> (procs w p))
               | Set_job key v \<Rightarrow>
                   (case AttemptConsensus N p (set_request \<lparr>set_key = key, set_value = v\<rparr>) w of
                      (w, s, _) \<Rightarrow> Some (w, s, default_GetResponse)))
         else
           (case map_of (memberList (procs w p)) addr of
              None \<Rightarrow> Some (w, uncaught_exception, default_GetResponse)
            | Some node \<Rightarrow>
                Option.bind (forward_job fuel N j (databaseEndpoint node) w)
                  (\<lambda>(w, s, r). if \<not> ok s then retry_job fuel N j p w else Some (w, Status_OK, relay r))))"
proof (cases j)
  case (Get_job key)
  have h: "(\<lambda>c q w. Database_get fuel N \<lparr>get_key = key\<rparr> c q w) = serve fuel N (Get_job key)"
    by (intro ext) simp
  show ?thesis
    unfolding Get_job serve.simps Database_get.simps get_step_def GetRequest.simps retry_job_get
    unfolding h forward_job_def [symmetric]
    by (simp cong: if_cong option.case_cong)
next
  case (Set_job key v)
  show ?thesis
    by (auto simp: Set_job Database_set.simps set_step_def retry_job_set forward_job_set Let_def
        relay_def intro!: map_option_bind_same split: option.split prod.split)
qed

declare serve.simps [simp del]

lemma serve_0 [simp]: "serve 0 N j c p w = None"
  by (cases j) (simp_all add: serve.simps Database_get.simps Database_set.simps)

subsection \<open>The turns of a request nobody disturbs\<close>

definition computes :: "Net \<Rightarrow> job \<Rightarrow> GetResponse fuel_handler \<Rightarrow> bool" where
  "computes N j h \<longleftrightarrow> (\<forall>c q w w' s r stack. h c q w = Some (w', s, r) \<longrightarrow>
     turns_to N (\<lparr>ac_at = q, ac_job = j, ac_cancelled = c, ac_point = Entered\<rparr> # stack, w)
       (\<lparr>ac_at = q, ac_job = j, ac_cancelled = c, ac_point = Replied s r\<rparr> # stack, w'))"

lemma computesD:
  assumes "computes N j h" and "h (ac_cancelled A) (ac_at A) w = Some (w', s, r)"
    and "ac_job A = j" "ac_point A = Entered"
  shows "turns_to N (A # stack, w) (at_point A (Replied s r) # stack, w')"
  using assms unfolding computes_def by (cases A) fastforce

lemma set_turns:
  assumes att: "AttemptConsensus N q r w = (w', s, response)"
  shows "turns_to N (at_point A (Leading (ready q r)) # stack, w) (replies_with A s # stack, w')"
proof -
  obtain P where "pr_phase P = Finished s response"
    and run: "turns_to N (at_point A (Leading (ready q r)) # stack, w) (at_point A (Leading P) # stack, w')"
    using attempt_turns [OF att, of "\<lambda>P. at_point A (Leading P)", OF turn_leading] by blast
  then have "turn N (at_point A (Leading P) # stack, w') = (replies_with A s # stack, w')"
    by (simp add: turn.simps)
  with run show ?thesis by (rule turns_to_last)
qed

text \<open>A forward and its reply, seen from the handler that waits.\<close>

lemma pass_on_turns:
  assumes h: "computes N (ac_job A) h"
    and f: "rpc_forward N (database_route N) addr default_GetResponse h w = Some (w', s, r)"
    and reply: "\<And>f s r. resume s r (at_point A (waiting f)) = (case received f s r of
      (s, r) \<Rightarrow> at_point A (if ok s then Replied Status_OK (relay r) else failed))"
  shows "turns_to N (pass_on N addr A waiting failed stack w)
    (at_point A (if ok s then Replied Status_OK (relay r) else failed) # stack, w')"
proof (cases "database_route N addr")
  case None
  with f show ?thesis by (auto simp: pass_on_def send_job_def rpc_forward_def)
next
  case (Some q)
  let ?f = "fate N (clock w) q"
  show ?thesis
  proof (cases "?f = Drop")
    case True
    with Some f show ?thesis by (auto simp: pass_on_def send_job_def rpc_forward_def)
  next
    case False
    with Some f obtain s0 r0 where h0: "h (?f = Cancel) q (tick w) = Some (w', s0, r0)"
      and rec: "received ?f s0 r0 = (s, r)"
      by (cases ?f) (auto simp: rpc_forward_def bind_eq_Some_conv)
    let ?B = "\<lparr>ac_at = q, ac_job = ac_job A, ac_cancelled = (?f = Cancel), ac_point = Entered\<rparr>"
    have "turns_to N (?B # at_point A (waiting ?f) # stack, tick w)
        (at_point ?B (Replied s0 r0) # at_point A (waiting ?f) # stack, w')"
      by (rule computesD [OF h]) (simp_all add: h0)
    moreover have "turn N (at_point ?B (Replied s0 r0) # at_point A (waiting ?f) # stack, w') =
        (at_point A (if ok s then Replied Status_OK (relay r) else failed) # stack, w')"
      using reply [of s0 r0 ?f] rec by (simp add: turn.simps)
    moreover have "pass_on N addr A waiting failed stack w = (?B # at_point A (waiting ?f) # stack, tick w)"
      using Some False by (simp add: pass_on_def send_job_def Let_def)
    ultimately show ?thesis by (metis turns_to_last)
  qed
qed

text \<open>The election and what follows it.\<close>

lemma election_turns:
  assumes tr: "trigger_election N (ac_at A) w = (w', s, u)"
  shows "turns_to N (start_election N A stack w)
    ((if ok s then at_point A Elected else replies_with A no_suitable_leader) # stack, w')"
proof -
  let ?p = "ac_at A"
  let ?w = "update ?p (count_out ''ConsensusRPCWrapperCall::trigger_election'') w"
  let ?addr = "consensusEndpoint (currentNode (procs w ?p))"
  let ?req = "\<lparr>elect_key = ''leader'', elect_value = self_address (procs ?w ?p)\<rparr>"
  have node: "currentNode (procs ?w ?p) = currentNode (procs w ?p)" by (simp add: update_def count_out_def)
  from tr have send: "rpc_send N (consensus_route N) ?addr () (elect_leader N ?req) ?w = (w', s, u)"
    by (simp add: trigger_election_def stub_trigger_election_def Let_def)
  show ?thesis
  proof (cases "consensus_route N ?addr")
    case None
    with send show ?thesis
      by (auto simp: start_election_def rpc_send_def Let_def node)
  next
    case (Some x)
    let ?f = "fate N (clock ?w) x"
    let ?w1 = "update x (count_in ''ConsensusRPC::elect_leader'') (tick ?w)"
    let ?r = "default_Request\<lparr>req_value := self_address (procs ?w ?p), req_key := ''leader'',
                req_op := SET_LEADER\<rparr>"
    show ?thesis
    proof (cases "?f = Drop \<or> ?f = Cancel")
      case True
      with Some send show ?thesis
        by (auto simp: start_election_def rpc_send_def elect_leader_def Let_def node)
    next
      case False
      obtain w2 s2 response where att: "AttemptConsensus N x ?r ?w1 = (w2, s2, response)"
        by (metis prod_cases3)
      have A: "turn N (at_point A (Electing ?f x P) # stack, w) =
          (at_point A (Electing ?f x (fst (advance N P w))) # stack, snd (advance N P w))"
        if "\<not> finished P" for P w using that by (rule turn_electing)
      obtain P where P: "pr_phase P = Finished s2 response"
        and run: "turns_to N (at_point A (Electing ?f x (ready x ?r)) # stack, ?w1)
          (at_point A (Electing ?f x P) # stack, w2)"
        using attempt_turns [OF att, of "\<lambda>P. at_point A (Electing ?f x P)", OF A] by blast
      have "start_election N A stack w = (at_point A (Electing ?f x (ready x ?r)) # stack, ?w1)"
        using Some False by (simp add: start_election_def Let_def node)
      moreover have "turn N (at_point A (Electing ?f x P) # stack, w2) =
          ((if ok s then at_point A Elected else replies_with A no_suitable_leader) # stack, w')"
        using Some False send att P
        by (cases ?f) (auto simp: turn.simps end_election_def rpc_send_def elect_leader_def Let_def)
      ultimately show ?thesis using run by (metis turns_to_last)
    qed
  qed
qed

lemma failover_turns:
  assumes h: "computes N (ac_job A) (serve fuel N (ac_job A))"
    and res: "retry_job fuel N (ac_job A) (ac_at A) w = Some (w', s, r)"
  shows "turns_to N (at_point A Failing # stack, w) (at_point A (Replied s r) # stack, w')"
proof -
  obtain w1 s1 where tr: "trigger_election N (ac_at A) w = (w1, s1, ())" by (metis prod_cases3 unit.exhaust)
  let ?E = "if ok s1 then at_point A Elected else replies_with A no_suitable_leader"
  have "turns_to N (turn N (at_point A Failing # stack, w)) (?E # stack, w1)"
    using election_turns [of N "at_point A Failing" w w1 s1 "()" stack] tr
    by (cases "ok s1") (simp_all add: turn.simps)
  then have "turns_to N (at_point A Failing # stack, w) (?E # stack, w1)" by (rule turns_to_step)
  moreover have "turns_to N (?E # stack, w1) (at_point A (Replied s r) # stack, w')"
  proof (cases "ok s1")
    case False
    with tr res show ?thesis by (simp add: retry_job_def)
  next
    case True
    have turn: "turn N (at_point A Elected # stack, w1) =
        (case map_of (memberList (procs w1 (ac_at A))) (leader (procs w1 (ac_at A))) of
           None \<Rightarrow> (replies_with A uncaught_exception # stack, w1)
         | Some node \<Rightarrow>
             pass_on N (databaseEndpoint node) (at_point A Elected) Retried
               (Replied new_leader_failed default_GetResponse) stack w1)"
      by (simp add: turn.simps split: option.split)
    show ?thesis
    proof (cases "map_of (memberList (procs w1 (ac_at A))) (leader (procs w1 (ac_at A)))")
      case None
      with tr res True turn show ?thesis by (auto simp: retry_job_def intro: turns_to_step)
    next
      case (Some node)
      with tr res True obtain s2 r2 where
        f: "forward_job fuel N (ac_job A) (databaseEndpoint node) w1 = Some (w', s2, r2)"
        and s: "Replied s r = (if ok s2 then Replied Status_OK (relay r2)
                  else Replied new_leader_failed default_GetResponse)"
        by (auto simp: retry_job_def bind_eq_Some_conv split: if_splits)
      have "turns_to N (turn N (at_point A Elected # stack, w1)) (at_point A (Replied s r) # stack, w')"
        unfolding turn Some s
        using pass_on_turns [of N "at_point A Elected", OF _ f [unfolded forward_job_def],
          of Retried "Replied new_leader_failed default_GetResponse" stack] h
        by (simp add: resume_def split: prod.split if_split)
      with True show ?thesis by (simp add: turns_to_step)
    qed
  qed
  ultimately show ?thesis by (rule turns_to_trans)
qed

lemma serve_computes: "computes N j (serve fuel N j)"
proof (induction fuel)
  case 0
  show ?case by (simp add: computes_def)
next
  case (Suc fuel)
  show ?case
    unfolding computes_def
  proof (intro allI impI)
    fix c q w w' s r stack
    assume res: "serve (Suc fuel) N j c q w = Some (w', s, r)"
    let ?A = "\<lparr>ac_at = q, ac_job = j, ac_cancelled = c, ac_point = Entered\<rparr>"
    let ?w = "update q (count_in (handler_name j)) w"
    let ?addr = "leader (procs ?w q)"
    have "turns_to N (enter N ?A stack w) (at_point ?A (Replied s r) # stack, w')"
    proof (cases "c \<or> ?addr = '''' \<or> ?addr = self_address (procs ?w q)")
      case True
      show ?thesis
      proof (cases "\<not> c \<and> ?addr \<noteq> '''' \<and> (\<exists>key v. j = Set_job key v)")
        case True
        then obtain key v where j: "j = Set_job key v" and c: "\<not> c" "?addr \<noteq> ''''" by blast
        let ?r = "set_request \<lparr>set_key = key, set_value = v\<rparr>"
        from \<open>c \<or> ?addr = '''' \<or> ?addr = self_address (procs ?w q)\<close> c
        have self: "?addr = self_address (procs ?w q)" by simp
        obtain response where att: "AttemptConsensus N q ?r ?w = (w', s, response)"
          and r: "r = default_GetResponse"
          using res self c by (auto simp: serve_Suc Let_def j split: prod.splits)
        from set_turns [OF att, where A = ?A and stack = stack] show ?thesis using self c by (simp add: enter_def Let_def j r)
      next
        case False
        with True res show ?thesis by (auto simp: enter_def serve_Suc Let_def split: job.splits)
      qed
    next
      case False
      show ?thesis
      proof (cases "map_of (memberList (procs ?w q)) ?addr")
        case None
        with False res show ?thesis by (simp add: enter_def serve_Suc Let_def)
      next
        case (Some node)
        with False res obtain w1 s1 r1 where
          f: "forward_job fuel N j (databaseEndpoint node) ?w = Some (w1, s1, r1)"
          and fin: "(if ok s1 then Some (w1, Status_OK, relay r1) else retry_job fuel N j q w1) =
            Some (w', s, r)"
          by (auto simp: serve_Suc Let_def bind_eq_Some_conv split: if_splits)
        have "turns_to N (enter N ?A stack w)
            (at_point ?A (if ok s1 then Replied Status_OK (relay r1) else Failing) # stack, w1)"
          using pass_on_turns [of N ?A, OF _ f [unfolded forward_job_def], of Forwarded Failing stack]
            Suc.IH False Some
          by (simp add: enter_def Let_def resume_def split: prod.split if_split)
        moreover have "turns_to N (at_point ?A Failing # stack, w1) (at_point ?A (Replied s r) # stack, w')"
          if "\<not> ok s1"
          using failover_turns [of N ?A fuel w1 w' s r stack] Suc.IH fin that by simp
        ultimately show ?thesis using fin by (cases "ok s1") (auto intro: turns_to_trans)
      qed
    qed
    then show "turns_to N (?A # stack, w)
        (\<lparr>ac_at = q, ac_job = j, ac_cancelled = c, ac_point = Replied s r\<rparr> # stack, w')"
      by - (rule turns_to_step, simp add: turn.simps)
  qed
qed

end
