(* ===== verification/Serial.thy ===== *)
theory Serial
  imports Isolation Runs
begin

text \<open>
  Proposers for different keys that overlap leave the state that running them one after
  another leaves. The slots of all keys determine the replicated data as long as its maps are
  sorted (\<open>ordered\<close>, which every operation keeps), and a commit changes the slot of its own
  key only.
\<close>

subsection \<open>The slots determine the data\<close>

definition ordered :: "Data \<Rightarrow> bool" where
  "ordered d \<longleftrightarrow> log_ok (d_log d) \<and> smap_ok (d_kv d)"

lemma ordered_ops:
  "ordered d \<Longrightarrow> ordered (data_propose r d)" "ordered d \<Longrightarrow> ordered (data_accept r d)"
  "ordered d \<Longrightarrow> ordered (data_success r d)"
  by (simp_all add: ordered_def data_propose_def data_accept_def data_success_def Let_def log_ok_ops
      Set_KV_ok)

lemma ordered_commit: "ordered d \<Longrightarrow> ordered (commit_data r d)"
  by (simp add: ordered_def log_ok_accept Set_KV_ok)

lemma advance_ordered:
  assumes "ordered (data w q)" and "advance N P w = (P', w')"
  shows "ordered (data w' q)"
proof -
  have w': "w' = snd (advance N P w)" using assms(2) by simp
  show ?thesis
    unfolding w' using assms(1) by (cases N P w q rule: advance_data) (simp_all add: ordered_ops)
qed

lemma steps_ordered:
  "steps N (ps, w) (ps', w') \<Longrightarrow> ordered (data w q) \<Longrightarrow> ordered (data w' q)"
  by (induction rule: rtranclp_induct2) (auto elim!: stepE intro: advance_ordered)

lemma slots_determine:
  assumes "ordered d" and "ordered d'" and "\<And>k. slot k d = slot k d'"
  shows "d = d'"
proof -
  have "map_of (d_log d) = map_of (d_log d')" "map_of (d_kv d) = map_of (d_kv d')"
    using assms(3) by (auto simp: slot_def fun_eq_iff)
  with assms(1,2) have "d_log d = d_log d'" "d_kv d = d_kv d'"
    by (auto simp: ordered_def log_ok_def intro: smap_extensional)
  moreover have "d_leader d = d_leader d'" using assms(3) [of "''leader''"] by (simp add: slot_def)
  ultimately show ?thesis by (cases d; cases d') simp
qed

subsection \<open>A series of commits\<close>

lemma slot_commit_other: "req_key r \<noteq> k \<Longrightarrow> slot k (commit_data r d) = slot k d"
  by (auto simp: slot_def Set_Log_accept_eq entry_update_def Let_def Set_KV_def)

lemma slot_commit_cong:
  assumes "slot k d = slot k d'"
  shows "slot k (commit_data r d) = slot k (commit_data r d')"
proof (cases "req_key r = k")
  case True
  with slot_log [OF assms] assms show ?thesis
    by (auto simp: slot_def Set_Log_accept_eq entry_update_def Let_def Set_KV_def rounds_def)
next
  case False
  with assms show ?thesis by (simp add: slot_commit_other)
qed

lemma slot_commits_other:
  "k \<notin> set (map req_key rs) \<Longrightarrow> slot k (fold commit_data rs d) = slot k d"
  by (induction rs arbitrary: d) (auto simp: slot_commit_other)

lemma slot_commits:
  "distinct (map req_key rs) \<Longrightarrow> r \<in> set rs \<Longrightarrow>
    slot (req_key r) (fold commit_data rs d) = slot (req_key r) (commit_data r d)"
proof (induction rs arbitrary: d)
  case Nil
  then show ?case by simp
next
  case (Cons r' rs)
  show ?case
  proof (cases "r = r'")
    case True
    with Cons.prems show ?thesis by (simp add: slot_commits_other)
  next
    case False
    with Cons.prems have r: "r \<in> set rs" "req_key r' \<noteq> req_key r" by (auto simp: image_iff)
    from Cons.IH [OF _ r(1)] Cons.prems(1)
    have "slot (req_key r) (fold commit_data (r' # rs) d) = slot (req_key r) (commit_data r (commit_data r' d))"
      by simp
    also have "\<dots> = slot (req_key r) (commit_data r d)"
      by (rule slot_commit_cong) (simp add: slot_commit_other r(2))
    finally show ?thesis .
  qed
qed

lemma commits_ordered: "ordered d \<Longrightarrow> ordered (fold commit_data rs d)"
  by (induction rs arbitrary: d) (simp_all add: ordered_commit)

text \<open>Commits of different keys commute.\<close>

lemma commits_commute:
  assumes "ordered d" and "distinct (map req_key rs)" and "distinct (map req_key rs')" and "set rs = set rs'"
  shows "fold commit_data rs d = fold commit_data rs' d"
proof (rule slots_determine)
  show "ordered (fold commit_data rs d)" "ordered (fold commit_data rs' d)"
    using assms(1) by (rule commits_ordered)+
  fix k
  show "slot k (fold commit_data rs d) = slot k (fold commit_data rs' d)"
  proof (cases "\<exists>r \<in> set rs. req_key r = k")
    case True
    then obtain r where r: "r \<in> set rs" "req_key r = k" by blast
    with slot_commits [OF assms(2) r(1)] slot_commits [OF assms(3), of r] assms(4) show ?thesis by auto
  next
    case False
    with assms(4) show ?thesis by (subst (1 2) slot_commits_other) auto
  qed
qed

text \<open>One attempt after another on a healthy cluster.\<close>

definition in_turn :: "Net \<Rightarrow> (nat \<times> Request) list \<Rightarrow> attempt list" where
  "in_turn N calls = map (\<lambda>(p, r). (N, p, r)) calls"

lemma attempts_healthy:
  assumes "healthy N S D n w d" and "n + length calls < 2 ^ 31" and "\<forall>(p, r) \<in> set calls. p \<in> S - D"
    and "\<forall>(p, r) \<in> set calls. req_key r = ''leader'' \<longrightarrow> (\<exists>q \<in> S. req_value r = self_address (procs w q))"
  shows "healthy N S D (n + length calls) (fst (attempts (in_turn (crash_net N D) calls) w))
    (fold commit_data (map snd calls) d)"
  using assms
proof (induction calls arbitrary: n w d)
  case Nil
  then show ?case by (simp add: in_turn_def)
next
  case (Cons c calls)
  obtain p r where c: "c = (p, r)" by (cases c)
  obtain w1 s response where att: "AttemptConsensus (crash_net N D) p r w = (w1, s, response)"
    by (metis prod_cases3)
  from healthy_attempt [OF Cons.prems(1) _ _ att] Cons.prems(2-)
  have h: "healthy N S D (Suc n) w1 (commit_data r d)" and st: "\<And>q. static w1 q = static w q"
    by (auto simp: c)
  have "healthy N S D (Suc n + length calls) (fst (attempts (in_turn (crash_net N D) calls) w1))
      (fold commit_data (map snd calls) (commit_data r d))"
    using Cons.prems(2-) by (intro Cons.IH [OF h]) (auto simp: self_address_static [OF st])
  then show ?case by (simp add: c in_turn_def att case_prod_beta)
qed

lemma bounded_slots:
  assumes "\<And>k. \<exists>d'. slot k d = slot k d' \<and> rounds (d_log d') k \<le> n"
  shows "bounded n d"
  unfolding bounded_def by (metis assms slot_congruent(5))

subsection \<open>Overlapping writes as a series\<close>

lemma isolated_serial:
  assumes h: "healthy N S D n w d" and n: "n < 2 ^ 31" and ord: "ordered d"
    and keys: "distinct (map (\<lambda>c. req_key (snd c)) calls)"
    and at: "\<forall>(p, r) \<in> set calls. p \<in> S - D"
    and run: "run_schedule (crash_net N D) sched (readied calls, w) = (ps, w')"
    and turns: "\<forall>i < length calls. 4 * card S + 5 \<le> count_list sched i"
    and q: "q \<in> S - D"
  shows "data w' q = fold commit_data (map snd calls) d"
proof (rule slots_determine)
  have st: "steps (crash_net N D) (readied calls, w) (ps, w')"
    using schedule_steps [of "crash_net N D" "(readied calls, w)" sched] by (simp add: run)
  have start: "data w q = d" using h q by (simp add: healthy_def replicas_def)
  with steps_ordered [OF st] ord show "ordered (data w' q)" by simp
  show "ordered (fold commit_data (map snd calls) d)" by (rule commits_ordered [OF ord])
  fix k
  have dist: "distinct (map req_key (map snd calls))" using keys by (simp add: comp_def)
  show "slot k (data w' q) = slot k (fold commit_data (map snd calls) d)"
  proof (cases "k \<in> set (map (\<lambda>c. req_key (snd c)) calls)")
    case True
    then obtain i where i: "i < length calls" "k = req_key (snd (calls ! i))"
      by (auto simp: in_set_conv_nth case_prod_beta)
    with isolated_stages(2) [OF h n keys at run turns i(1)] q
    have "slot k (data w' q) = slot k (commit_data (snd (calls ! i)) d)" by (simp add: stage_def)
    also have "\<dots> = slot k (fold commit_data (map snd calls) d)"
      unfolding i(2) by (rule slot_commits [OF dist, symmetric]) (simp add: i(1))
    finally show ?thesis .
  next
    case False
    then have "k \<notin> set (map req_key (map snd calls))" by auto
    with other_keys_untouched [OF st False] start show ?thesis by (simp add: slot_commits_other)
  qed
qed

lemma serial_data:
  assumes h: "healthy N S D n w d" and n: "n + length calls < 2 ^ 31"
    and at: "\<forall>(p, r) \<in> set calls. p \<in> S - D"
    and leader: "\<forall>(p, r) \<in> set calls. req_key r = ''leader'' \<longrightarrow> (\<exists>q \<in> S. req_value r = self_address (procs w q))"
    and q: "q \<in> S - D"
  shows "data (fst (attempts (in_turn (crash_net N D) calls) w)) q = fold commit_data (map snd calls) d"
  using attempts_healthy [OF h n at leader] q by (simp add: healthy_def replicas_def)

end
