(* ===== verification/Simulation.thy ===== *)
theory Simulation
  imports Prelude
begin

text \<open>
  Simulations between step relations. \<open>simulation\<close> relates the states of an implementation to
  those of its specification; \<open>forward_simulation\<close> is the case where an invariant holds and a
  function gives the abstract state. The users of the database (\<open>Linearizable\<close>) interpret the
  second, the handlers of an acceptor (\<open>Acceptor_Threads\<close>) the first.
\<close>

locale simulation =
  fixes cstep :: "'c \<Rightarrow> 'c \<Rightarrow> bool"
    and astep :: "'a \<Rightarrow> 'a \<Rightarrow> bool"
    and rel :: "'c \<Rightarrow> 'a \<Rightarrow> bool"
  assumes sim_step: "rel c a \<Longrightarrow> cstep c c' \<Longrightarrow> \<exists>a'. astep\<^sup>*\<^sup>* a a' \<and> rel c' a'"
begin

lemma sim_run: "cstep\<^sup>*\<^sup>* c c' \<Longrightarrow> rel c a \<Longrightarrow> \<exists>a'. astep\<^sup>*\<^sup>* a a' \<and> rel c' a'"
proof (induction rule: rtranclp_induct)
  case base
  then show ?case by blast
next
  case (step c1 c2)
  then obtain a1 where a1: "astep\<^sup>*\<^sup>* a a1" "rel c1 a1" by blast
  from sim_step [OF a1(2) step.hyps(2)] obtain a2 where "astep\<^sup>*\<^sup>* a1 a2" "rel c2 a2" by blast
  with a1(1) show ?case by (blast intro: rtranclp_trans)
qed

end

text \<open>Each step of the implementation is some steps of the specification, between the
  abstractions of its states, as long as the invariant holds.\<close>

locale forward_simulation =
  fixes cstep :: "'c \<Rightarrow> 'c \<Rightarrow> bool"
    and astep :: "'a \<Rightarrow> 'a \<Rightarrow> bool"
    and abs :: "'c \<Rightarrow> 'a"
    and inv :: "'c \<Rightarrow> bool"
  assumes inv_step: "inv c \<Longrightarrow> cstep c c' \<Longrightarrow> inv c'"
    and abs_step: "inv c \<Longrightarrow> cstep c c' \<Longrightarrow> astep\<^sup>*\<^sup>* (abs c) (abs c')"

sublocale forward_simulation \<subseteq> by_inv: simulation cstep astep "\<lambda>c a. inv c \<and> a = abs c"
  by unfold_locales (use inv_step abs_step in blast)

context forward_simulation
begin

lemma inv_run: "cstep\<^sup>*\<^sup>* c c' \<Longrightarrow> inv c \<Longrightarrow> inv c'"
  using by_inv.sim_run by blast

lemma abs_run: "cstep\<^sup>*\<^sup>* c c' \<Longrightarrow> inv c \<Longrightarrow> astep\<^sup>*\<^sup>* (abs c) (abs c')"
  using by_inv.sim_run by blast

end

end
