(* ===== verification/Clients.thy ===== *)
theory Clients
  imports Threads Serial Simulation
begin

text \<open>
  Users of the database (rpc.cc, \<open>DatabaseRPCWrapperCall::get\<close> and \<open>set\<close>) that issue requests
  at the same time. A client is a request that is under way, with the stack of handlers that
  serve it, or one that has returned; a step invokes a new request, or lets one request take
  its next turn. The state records the history of the calls and returns. \<open>atomic_step\<close> is the
  specification: one map, on which each request takes effect at one moment between its call
  and its return.
\<close>

subsection \<open>Requests under way\<close>

datatype client =
    Waiting string job fate "activation list"
  | Returned string job Status GetResponse

datatype user_event = Call nat string job | Return nat Status GetResponse

type_synonym clients = "client list \<times> World \<times> user_event list"

text \<open>The reply at the bottom of the stack; an empty stack is a call that reached nobody.\<close>

fun reply :: "activation list \<Rightarrow> (Status \<times> GetResponse) option" where
  "reply [] = Some (unavailable, default_GetResponse)"
| "reply [A] = (case ac_point A of Replied s r \<Rightarrow> Some (s, r) | _ \<Rightarrow> None)"
| "reply (A # B # stack) = None"

definition invoke :: "Net \<Rightarrow> nat \<Rightarrow> string \<Rightarrow> job \<Rightarrow> clients \<Rightarrow> clients" where
  "invoke N p addr j st =
     (case st of (cs, w, h) \<Rightarrow>
       (case send_job N addr j (update p (count_out (stub_name j)) w) of (sent, w') \<Rightarrow>
         (cs @ [case sent of None \<Rightarrow> Waiting addr j Drop [] | Some (f, A) \<Rightarrow> Waiting addr j f [A]],
          w', h @ [Call (length cs) addr j])))"

definition move :: "Net \<Rightarrow> nat \<Rightarrow> clients \<Rightarrow> clients" where
  "move N i st =
     (case st of (cs, w, h) \<Rightarrow>
       (case cs ! i of
          Returned addr j s r \<Rightarrow> st
        | Waiting addr j f stack \<Rightarrow>
            (case reply stack of
               Some (s, r) \<Rightarrow>
                 (case received f s r of
                    (s, r) \<Rightarrow> (cs[i := Returned addr j s r], w, h @ [Return i s r]))
             | None \<Rightarrow>
                 (case turn N (stack, w) of
                    (stack', w') \<Rightarrow> (cs[i := Waiting addr j f stack'], w', h)))))"

text \<open>\<open>admitted\<close> says which requests may be made when; \<open>M\<close> bounds their number.\<close>

inductive client_step ::
    "Net \<Rightarrow> nat \<Rightarrow> (string \<Rightarrow> job \<Rightarrow> client list \<Rightarrow> bool) \<Rightarrow> clients \<Rightarrow> clients \<Rightarrow> bool"
  for N M admitted where
  call: "length cs < M \<Longrightarrow> admitted addr j cs \<Longrightarrow>
    client_step N M admitted (cs, w, h) (invoke N p addr j (cs, w, h))"
| moves: "i < length cs \<Longrightarrow> client_step N M admitted (cs, w, h) (move N i (cs, w, h))"

inductive_cases client_stepE: "client_step N M admitted st st'"

text \<open>A given order of turns.\<close>

fun moves_of :: "Net \<Rightarrow> nat list \<Rightarrow> clients \<Rightarrow> clients" where
  "moves_of N [] st = st"
| "moves_of N (i # is) st = moves_of N is (if i < length (fst st) then move N i st else st)"

lemma moves_of_steps: "(client_step N M admitted)\<^sup>*\<^sup>* st (moves_of N is st)"
proof (induction "is" arbitrary: st)
  case Nil
  then show ?case by simp
next
  case (Cons i "is")
  obtain cs w h where st: "st = (cs, w, h)" by (metis prod_cases3)
  show ?case
  proof (cases "i < length cs")
    case True
    have "client_step N M admitted (cs, w, h) (move N i (cs, w, h))" by (rule moves [OF True])
    with Cons.IH [of "move N i (cs, w, h)"] True show ?thesis
      by (simp add: st converse_rtranclp_into_rtranclp)
  next
    case False
    with Cons.IH show ?thesis by (simp add: st)
  qed
qed

subsection \<open>A request that runs alone\<close>

lemma turn_replied: "ac_point A = Replied s r \<Longrightarrow> turn N ([A], w) = ([A], w)"
  by (simp add: turn.simps)

lemma alone_moves:
  assumes "(turn N ^^ n) (stack, w) = ([A], w')" and "ac_point A = Replied s r"
  shows "\<exists>k. moves_of N (replicate k 0) ([Waiting addr j f stack], w, h) =
    (case received f s r of (s, r) \<Rightarrow> ([Returned addr j s r], w', h @ [Return 0 s r]))"
  using assms(1)
proof (induction n arbitrary: stack w)
  case 0
  then show ?case
    using assms(2) by (intro exI [of _ 1]) (simp add: move_def split: prod.split)
next
  case (Suc n)
  obtain stack1 w1 where t: "turn N (stack, w) = (stack1, w1)" by fastforce
  with Suc.prems have rest: "(turn N ^^ n) (stack1, w1) = ([A], w')" by (simp add: funpow_swap1)
  show ?case
  proof (cases "reply stack")
    case None
    from Suc.IH [OF rest] obtain k where
      "moves_of N (replicate k 0) ([Waiting addr j f stack1], w1, h) =
        (case received f s r of (s, r) \<Rightarrow> ([Returned addr j s r], w', h @ [Return 0 s r]))" by blast
    with None t show ?thesis by (intro exI [of _ "Suc k"]) (simp add: move_def)
  next
    case (Some sr)
    have "stack1 = stack \<and> w1 = w"
      using Some t by (cases stack rule: reply.cases) (auto simp: turn.simps turn_replied split: point.splits)
    with Suc.IH [OF rest] show ?thesis by simp
  qed
qed

lemma request_alone:
  assumes f: "forward_job fuel N j addr (update p (count_out (stub_name j)) w) = Some (w', s, r)"
  shows "\<exists>k. moves_of N (replicate k 0) (invoke N p addr j ([], w, [])) =
    ([Returned addr j s r], w', [Call 0 addr j, Return 0 s r])"
proof -
  let ?w = "update p (count_out (stub_name j)) w"
  have none: "\<exists>k. moves_of N (replicate k 0) (invoke N p addr j ([], w, [])) =
      ([Returned addr j s r], w', [Call 0 addr j, Return 0 s r])"
    if "send_job N addr j ?w = (None, w')" "s = unavailable" "r = default_GetResponse"
    using that by (intro exI [of _ 1]) (simp add: invoke_def move_def)
  show ?thesis
  proof (cases "database_route N addr")
    case None
    with f show ?thesis by (intro none) (auto simp: send_job_def forward_job_def rpc_forward_def)
  next
    case (Some q)
    let ?f = "fate N (clock ?w) q"
    show ?thesis
    proof (cases "?f = Drop")
      case True
      with Some f show ?thesis by (intro none) (auto simp: send_job_def forward_job_def rpc_forward_def)
    next
      case False
      with Some f obtain s0 r0 where h: "serve fuel N j (?f = Cancel) q (tick ?w) = Some (w', s0, r0)"
        and rec: "received ?f s0 r0 = (s, r)"
        by (cases ?f) (auto simp: forward_job_def rpc_forward_def bind_eq_Some_conv)
      let ?B = "\<lparr>ac_at = q, ac_job = j, ac_cancelled = (?f = Cancel), ac_point = Entered\<rparr>"
      have "turns_to N ([?B], tick ?w) ([at_point ?B (Replied s0 r0)], w')"
        by (rule computesD [OF serve_computes [where fuel = fuel]]) (simp_all add: h [unfolded clock_update])
      then obtain n where "(turn N ^^ n) ([?B], tick ?w) = ([at_point ?B (Replied s0 r0)], w')"
        by (auto simp: turns_to_def)
      from alone_moves [OF this, of s0 r0 addr j ?f "[Call 0 addr j]"] rec
      show ?thesis using Some False by (simp add: invoke_def send_job_def Let_def)
    qed
  qed
qed

subsection \<open>The specification\<close>

datatype progress = Pending | Served Status GetResponse | Gone

type_synonym atomic_state =
  "(string \<Rightarrow> string option) \<times> (string \<times> job \<times> progress) list \<times> user_event list"

fun perform ::
    "job \<Rightarrow> (string \<Rightarrow> string option) \<Rightarrow> (string \<Rightarrow> string option) \<times> Status \<times> GetResponse" where
  "perform (Get_job k) m =
     (m, Status_OK,
      case m k of
        None \<Rightarrow> \<lparr>get_error = 1, get_value = ''''\<rparr>
      | Some v \<Rightarrow> \<lparr>get_error = 0, get_value = v\<rparr>)"
| "perform (Set_job k v) m = (m(k \<mapsto> v), Status_OK, default_GetResponse)"

text \<open>\<open>up\<close> says which addresses answer; a request to another one has no effect and fails.\<close>

inductive atomic_step :: "(string \<Rightarrow> bool) \<Rightarrow> atomic_state \<Rightarrow> atomic_state \<Rightarrow> bool" for up where
  begins: "atomic_step up (m, ops, h) (m, ops @ [(addr, j, Pending)], h @ [Call (length ops) addr j])"
| takes_effect: "i < length ops \<Longrightarrow> ops ! i = (addr, j, Pending) \<Longrightarrow> up addr \<Longrightarrow>
    perform j m = (m', s, r) \<Longrightarrow>
    atomic_step up (m, ops, h) (m', ops[i := (addr, j, Served s r)], h)"
| refused: "i < length ops \<Longrightarrow> ops ! i = (addr, j, Pending) \<Longrightarrow> \<not> up addr \<Longrightarrow>
    atomic_step up (m, ops, h) (m, ops[i := (addr, j, Served unavailable default_GetResponse)], h)"
| ends: "i < length ops \<Longrightarrow> ops ! i = (addr, j, Served s r) \<Longrightarrow>
    atomic_step up (m, ops, h) (m, ops[i := (addr, j, Gone)], h @ [Return i s r])"

end
