(* ===== verification/Linearizable.thy ===== *)
theory Linearizable
  imports Clients
begin

text \<open>
  Users of a healthy cluster see one atomic map. Some processes \<open>D\<close> are down, the others
  answer, and a live process \<open>l\<close> leads. However the handlers of the requests interleave, every
  request takes effect at one moment between its call and its return: a read when the leader
  looks the key up, a write when its last message reaches the leader. The only condition is
  that no two writes of one key overlap.
\<close>

subsection \<open>Turns in a healthy cluster\<close>

definition led_by :: "Net \<Rightarrow> nat set \<Rightarrow> nat set \<Rightarrow> nat \<Rightarrow> World \<Rightarrow> bool" where
  "led_by N S D l w \<longleftrightarrow> connected N S w \<and> card S \<le> 2 * card (S - D) \<and> l \<in> S - D \<and>
     (\<forall>q \<in> S - D. d_leader (data w q) = self_address (procs w l))"

definition same_state :: "World \<Rightarrow> World \<Rightarrow> bool" where
  "same_state w w' \<longleftrightarrow> (\<forall>q. data w' q = data w q \<and> static w' q = static w q)"

lemma same_state_simps [simp]:
  "same_state w w" "same_state w (tick w') = same_state w w'"
  "same_state w (update p (count_in s) w') = same_state w w'"
  "same_state w (update p (count_out s) w') = same_state w w'"
  by (simp_all add: same_state_def data_count_out)

lemma led_by_frame:
  assumes "led_by N S D l w" and "\<And>q. static w' q = static w q"
    and "\<And>q. q \<in> S - D \<Longrightarrow> d_leader (data w' q) = d_leader (data w q)"
  shows "led_by N S D l w'"
  using assms(1,3) connected_static [OF assms(2)] assms(2) [THEN self_address_static]
  by (simp add: led_by_def)

lemma led_by_same: "led_by N S D l w \<Longrightarrow> same_state w w' \<Longrightarrow> led_by N S D l w'"
  by (erule led_by_frame) (simp_all add: same_state_def)

lemma count_in_simps [simp]:
  "leader (procs (update p (count_in s) w) q) = leader (procs w q)"
  "self_address (procs (update p (count_in s) w) q) = self_address (procs w q)"
  "memberList (procs (update p (count_in s) w) q) = memberList (procs w q)"
  "kv_store (procs (update p (count_in s) w) q) = kv_store (procs w q)"
  by (simp_all add: procs_update count_in_def self_address_def)

lemma led_by_leader:
  assumes "led_by N S D l w" and "q \<in> S - D"
  shows "leader (procs w q) = self_address (procs w l)" "self_address (procs w l) \<noteq> ''''"
  using assms connectedD(7) [of N S w l] by (auto simp: led_by_def data_of_def)

abbreviation fresh :: "nat \<Rightarrow> job \<Rightarrow> activation" where
  "fresh q j \<equiv> \<lparr>ac_at = q, ac_job = j, ac_cancelled = False, ac_point = Entered\<rparr>"

lemma turn_forward:
  assumes led: "led_by N S D l w" and q: "ac_at A \<in> S - D" "ac_at A \<noteq> l"
    and A: "ac_point A = Entered" "\<not> ac_cancelled A"
  shows "turn (crash_net N D) (A # stack, w) =
    (fresh l (ac_job A) # at_point A (Forwarded Deliver) # stack,
     tick (update (ac_at A) (count_in (handler_name (ac_job A))) w))"
proof -
  let ?q = "ac_at A"
  from led have con: "connected N S w" and l: "l \<in> S - D" by (simp_all add: led_by_def)
  have "self_address (procs w l) \<noteq> self_address (procs w ?q)"
    using self_address_inject [OF con, of l ?q] l q by auto
  moreover from con q l obtain node where
    "map_of (memberList (procs w ?q)) (self_address (procs w l)) = Some node"
    "database_route N (databaseEndpoint node) = Some l" by (metis DiffD1 connected_lookup)
  ultimately show ?thesis
    using led_by_leader [OF led q(1)] l A
    by (simp add: turn.simps enter_def Let_def pass_on_def send_job_def)
qed

lemma turn_get:
  assumes led: "led_by N S D l w" and A: "ac_at A = l" "ac_job A = Get_job k"
    "ac_point A = Entered" "\<not> ac_cancelled A"
  shows "turn (crash_net N D) (A # stack, w) =
    (at_point A (Replied Status_OK (answer_get \<lparr>get_key = k\<rparr> (kv_store (procs w l)))) # stack,
     update l (count_in ''DatabaseRPC::get'') w)"
proof -
  from led have "l \<in> S - D" by (simp add: led_by_def)
  from led_by_leader [OF led this] A show ?thesis
    by (simp add: turn.simps enter_def Let_def local_get_answer)
qed

lemma turn_set:
  assumes led: "led_by N S D l w" and A: "ac_at A = l" "ac_job A = Set_job k v"
    "ac_point A = Entered" "\<not> ac_cancelled A"
  shows "turn (crash_net N D) (A # stack, w) =
    (at_point A (Leading (ready l (set_request \<lparr>set_key = k, set_value = v\<rparr>))) # stack,
     update l (count_in ''DatabaseRPC::set'') w)"
proof -
  from led have "l \<in> S - D" by (simp add: led_by_def)
  from led_by_leader [OF led this] A show ?thesis by (simp add: turn.simps enter_def Let_def)
qed

lemma turn_lead:
  assumes "ac_point A = Leading P"
  shows "turn N (A # stack, w) =
    (case pr_phase P of
       Finished s response \<Rightarrow> (replies_with A s # stack, w)
     | _ \<Rightarrow> (at_point A (Leading (fst (advance N P w))) # stack, snd (advance N P w)))"
  using assms by (simp add: turn.simps case_prod_beta split: phase.split)

lemma turn_resume:
  assumes "ac_point A = Replied Status_OK r" and "ac_point B = Forwarded Deliver"
  shows "turn N (A # B # stack, w) = (at_point B (Replied Status_OK r) # stack, w)"
  using assms by (simp add: turn.simps resume_def)

subsection \<open>What a write has done at the leader\<close>

text \<open>The write has reached process \<open>l\<close>.\<close>

definition announced :: "Net \<Rightarrow> nat \<Rightarrow> Proposer \<Rightarrow> bool" where
  "announced N l P =
     (case pr_phase P of
        Announcing acceptance todo \<Rightarrow> l \<notin> set (reached (routed N) todo)
      | Finished s response \<Rightarrow> True
      | _ \<Rightarrow> False)"

lemma announced_turn:
  "announced N l P \<Longrightarrow> advance M P w = (P', w') \<Longrightarrow> announced N l P'"
  by (cases "pr_phase P") (auto simp: announced_def advance_def split: list.splits prod.splits option.splits)

lemma on_track_held:
  assumes tr: "on_track N S D d P w" and l: "l \<in> S - D"
  shows "held (req_key (pr_request P)) (data w l) =
    (if announced N l P then Some (req_value (pr_request P)) else held (req_key (pr_request P)) d)"
proof -
  let ?k = "req_key (pr_request P)"
  have held_slot: "held ?k d = held ?k d'" if "snd (slot ?k d) = snd (slot ?k d')" for d d'
    using that by (auto simp: held_def slot_def split: if_splits)
  have kept: "held ?k (proposed P d) = held ?k d" "held ?k (accepted P d) = held ?k d"
    by (auto intro: held_slot simp: proposed_def accepted_def slot_ops)
  have commit: "held ?k (committed P d) = Some (req_value (pr_request P))" if "pr_phase P \<noteq> Ready"
    using committed_eq [OF tr that] by (simp add: slot_commit)
  from on_track_members(2) [OF tr] l have S: "l \<in> set (reached (routed N) (pr_members P))"
    if "pr_phase P \<noteq> Ready" using that by auto
  note doing = on_track_doing [OF tr]
  show ?thesis
    using doing kept commit S l
    by (cases "pr_phase P") (auto simp: announced_def stage_def dest!: bspec slot_held [of ?k] split: if_splits)
qed

lemma on_track_finished:
  assumes tr: "on_track N S D d P w" and ph: "pr_phase P = Finished s response"
  shows "s = Status_OK"
    and "stage N (S - D) (req_key (pr_request P)) (commit_data (pr_request P) d)
      (commit_data (pr_request P) d) [] w"
  using on_track_doing [OF tr] ph committed_eq [OF tr] by simp_all

text \<open>Nothing but the key of the proposer changes.\<close>

lemma advance_held_other:
  "advance N P w = (P', w') \<Longrightarrow> req_key (pr_request P) \<noteq> k \<Longrightarrow> held k (data w' q) = held k (data w q)"
  by (rule slot_held) (rule advance_slot_other)

lemma held_leader: "held ''leader'' d = Some (d_leader d)"
  by (simp add: held_def)

lemma held_kv: "k \<noteq> ''leader'' \<Longrightarrow> held k d = map_of (d_kv d) k"
  by (simp add: held_def)

lemma advance_kv_leader:
  assumes "advance N P w = (P', w')" and "req_key (pr_request P) \<noteq> ''leader''"
  shows "map_of (d_kv (data w' q)) ''leader'' = map_of (d_kv (data w q)) ''leader''"
  using advance_slot_other [OF assms] by (simp add: slot_def)

lemma advance_kv:
  assumes adv: "advance (crash_net N D) P w = (P', w')" and tr: "on_track N S D d P w"
    and l: "l \<in> S - D" and k: "req_key (pr_request P) \<noteq> ''leader''"
  shows "map_of (d_kv (data w' l)) =
    (if announced N l P' \<and> \<not> announced N l P
     then (map_of (d_kv (data w l)))(req_key (pr_request P) \<mapsto> req_value (pr_request P))
     else map_of (d_kv (data w l)))" (is "?lhs = ?rhs")
proof
  fix x
  note tr' = on_track_turn [OF tr adv]
  have req: "pr_request P' = pr_request P" by (rule advance_frame(2) [OF adv])
  show "?lhs x = ?rhs x"
  proof (cases "x = req_key (pr_request P)")
    case True
    with on_track_held [OF tr l] on_track_held [OF tr' l] announced_turn [OF _ adv] k
    show ?thesis by (auto simp: req held_kv)
  next
    case False
    show ?thesis
      using advance_held_other [OF adv, of x l] advance_kv_leader [OF adv k, of l] False
      by (cases "x = ''leader''") (simp_all add: held_kv)
  qed
qed

subsection \<open>The abstraction\<close>

fun status_of :: "Net \<Rightarrow> nat \<Rightarrow> client \<Rightarrow> progress" where
  "status_of N l (Returned addr j s r) = Gone"
| "status_of N l (Waiting addr j f []) = Served unavailable default_GetResponse"
| "status_of N l (Waiting addr j f (A # stack)) =
     (case ac_point A of
        Replied s r \<Rightarrow> Served s r
      | Leading P \<Rightarrow> if announced N l P then Served Status_OK default_GetResponse else Pending
      | _ \<Rightarrow> Pending)"

fun operation_of :: "client \<Rightarrow> string \<times> job" where
  "operation_of (Waiting addr j f stack) = (addr, j)"
| "operation_of (Returned addr j s r) = (addr, j)"

definition abstract_client :: "Net \<Rightarrow> nat \<Rightarrow> client \<Rightarrow> string \<times> job \<times> progress" where
  "abstract_client N l c = (fst (operation_of c), snd (operation_of c), status_of N l c)"

definition abstract :: "Net \<Rightarrow> nat \<Rightarrow> clients \<Rightarrow> atomic_state" where
  "abstract N l st =
     (case st of (cs, w, h) \<Rightarrow> (map_of (kv_store (procs w l)), map (abstract_client N l) cs, h))"

definition reachable_address :: "Net \<Rightarrow> nat set \<Rightarrow> string \<Rightarrow> bool" where
  "reachable_address N D addr =
     (case database_route N addr of None \<Rightarrow> False | Some q \<Rightarrow> q \<notin> D)"

subsection \<open>The invariant\<close>

text \<open>The shape of a stack: one handler, or one at the leader and one that waits for it.\<close>

definition serves :: "nat set \<Rightarrow> nat \<Rightarrow> job \<Rightarrow> activation \<Rightarrow> bool" where
  "serves L l j A \<longleftrightarrow> ac_at A \<in> L \<and> ac_job A = j \<and> \<not> ac_cancelled A \<and>
     (case ac_point A of
        Entered \<Rightarrow> True
      | Leading P \<Rightarrow> ac_at A = l \<and> pr_at P = l \<and>
          (case j of
             Get_job k \<Rightarrow> False
           | Set_job k v \<Rightarrow> pr_request P = set_request \<lparr>set_key = k, set_value = v\<rparr>)
      | Replied s r \<Rightarrow> s = Status_OK
      | _ \<Rightarrow> False)"

fun stack_ok :: "nat set \<Rightarrow> nat \<Rightarrow> job \<Rightarrow> activation list \<Rightarrow> bool" where
  "stack_ok L l j [A] = serves L l j A"
| "stack_ok L l j [A, B] =
     (serves L l j A \<and> ac_at A = l \<and> ac_at B \<in> L \<and> ac_job B = j \<and> \<not> ac_cancelled B \<and>
      ac_point B = Forwarded Deliver)"
| "stack_ok L l j stack = False"

fun shaped :: "Net \<Rightarrow> nat set \<Rightarrow> nat set \<Rightarrow> nat \<Rightarrow> client \<Rightarrow> bool" where
  "shaped N S D l (Returned addr j s r) = True"
| "shaped N S D l (Waiting addr j f []) = (f = Drop \<and> \<not> reachable_address N D addr)"
| "shaped N S D l (Waiting addr j f (A # stack)) =
     (f = Deliver \<and> reachable_address N D addr \<and> stack_ok (S - D) l j (A # stack))"

fun leading :: "client \<Rightarrow> Proposer option" where
  "leading (Waiting addr j f (A # stack)) =
     (case ac_point A of Leading P \<Rightarrow> Some P | _ \<Rightarrow> None)"
| "leading c = None"

fun job_key :: "job \<Rightarrow> string option" where
  "job_key (Get_job k) = None"
| "job_key (Set_job k v) = Some k"

fun writes :: "client \<Rightarrow> string option" where
  "writes (Waiting addr j f stack) = job_key j"
| "writes (Returned addr j s r) = None"

text \<open>The request has left the leader.\<close>

fun concluded :: "client \<Rightarrow> bool" where
  "concluded (Waiting addr j f (A # stack)) = (case ac_point A of Replied s r \<Rightarrow> True | _ \<Rightarrow> False)"
| "concluded c = True"

text \<open>Requests go to members, and a key is written by one request at a time.\<close>

definition one_writer :: "Net \<Rightarrow> nat set \<Rightarrow> string \<Rightarrow> job \<Rightarrow> client list \<Rightarrow> bool" where
  "one_writer N S addr j cs \<longleftrightarrow>
     (case database_route N addr of None \<Rightarrow> True | Some q \<Rightarrow> q \<in> S) \<and>
     (case j of
        Get_job k \<Rightarrow> True
      | Set_job k v \<Rightarrow> k \<noteq> ''leader'' \<and> list_all (\<lambda>c. writes c \<noteq> Some k) cs)"

text \<open>\<open>K\<close> are the keys that may be written.\<close>

definition within_keys :: "string set \<Rightarrow> Net \<Rightarrow> nat set \<Rightarrow> string \<Rightarrow> job \<Rightarrow> client list \<Rightarrow> bool" where
  "within_keys K N S addr j cs \<longleftrightarrow> one_writer N S addr j cs \<and> (\<forall>k. job_key j = Some k \<longrightarrow> k \<in> K)"

lemma within_UNIV: "within_keys UNIV = one_writer"
  by (simp add: within_keys_def fun_eq_iff)

definition apart :: "string set \<Rightarrow> client list \<Rightarrow> bool" where
  "apart K cs \<longleftrightarrow> (\<forall>i < length cs. \<forall>j < length cs. \<forall>k. writes (cs ! i) = Some k \<longrightarrow>
     k \<in> K \<and> k \<noteq> ''leader'' \<and> (writes (cs ! j) = Some k \<longrightarrow> i = j))"

definition leads :: "client list \<Rightarrow> string \<Rightarrow> nat \<Rightarrow> Proposer \<Rightarrow> bool" where
  "leads cs k i P \<longleftrightarrow> i < length cs \<and> leading (cs ! i) = Some P \<and> req_key (pr_request P) = k"

text \<open>Of each key the live processes agree, or one write is on its way through its stages.\<close>

definition key_ok :: "Net \<Rightarrow> nat set \<Rightarrow> nat set \<Rightarrow> nat \<Rightarrow> client list \<Rightarrow> World \<Rightarrow> string \<Rightarrow> bool" where
  "key_ok N S D b cs w k \<longleftrightarrow> (\<exists>d. log_full (d_log d) \<and> rounds (d_log d) k \<le> b \<and>
     (\<forall>i P. leads cs k i P \<longrightarrow> on_track N S D d P w) \<and>
     ((\<forall>i P. \<not> leads cs k i P) \<longrightarrow> stage N (S - D) k d d [] w))"

definition tally :: "client list \<Rightarrow> nat" where
  "tally cs = length (filter concluded cs)"

definition clients_ok ::
    "string set \<Rightarrow> Net \<Rightarrow> nat set \<Rightarrow> nat set \<Rightarrow> nat \<Rightarrow> nat \<Rightarrow> nat \<Rightarrow> clients \<Rightarrow> bool" where
  "clients_ok K N S D l n M st =
     (case st of (cs, w, h) \<Rightarrow>
        led_by N S D l w \<and> (\<forall>c \<in> set cs. shaped N S D l c) \<and> apart K cs \<and> length cs \<le> M \<and>
        (\<forall>k \<in> K. key_ok N S D (n + tally cs) cs w k) \<and> (\<forall>q \<in> S - D. ordered (data w q)))"

lemma tally_update:
  "i < length cs \<Longrightarrow> tally (cs[i := c]) + (if concluded (cs ! i) then 1 else 0) =
    tally cs + (if concluded c then 1 else 0)"
proof (induction cs arbitrary: i)
  case Nil
  then show ?case by simp
next
  case (Cons x cs)
  then show ?case by (cases i) (auto simp: tally_def)
qed

lemma tally_le: "tally cs \<le> length cs"
  by (simp add: tally_def)

lemma tally_less: "i < length cs \<Longrightarrow> \<not> concluded (cs ! i) \<Longrightarrow> tally cs < length cs"
  unfolding tally_def by (metis length_filter_less nth_mem)

lemma leading_writes:
  "shaped N S D l c \<Longrightarrow> leading c = Some P \<Longrightarrow>
    writes c = Some (req_key (pr_request P)) \<and> \<not> concluded c \<and> pr_at P = l"
  by (cases "(N, S, D, l, c)" rule: shaped.cases; cases c rule: writes.cases)
    (auto simp: serves_def set_request_def default_Request_def neq_Nil_conv
      split: point.splits job.splits elim!: stack_ok.elims)

subsection \<open>The invariant is kept\<close>

lemma clients_okD:
  assumes "clients_ok K N S D l n M (cs, w, h)"
  shows "led_by N S D l w" "i < length cs \<Longrightarrow> shaped N S D l (cs ! i)" "apart K cs" "length cs \<le> M"
    "k \<in> K \<Longrightarrow> key_ok N S D (n + tally cs) cs w k" "q \<in> S - D \<Longrightarrow> ordered (data w q)"
  using assms by (auto simp: clients_ok_def)

lemma leads_unique:
  assumes ok: "clients_ok K N S D l n M (cs, w, h)" and "leads cs k i P" and "leads cs k j Q"
  shows "i = j"
proof (rule ccontr)
  assume "i \<noteq> j"
  moreover have "writes (cs ! i) = Some k" "writes (cs ! j) = Some k"
    using assms leading_writes [OF clients_okD(2) [OF ok]] by (auto simp: leads_def)
  ultimately show False
    using assms(2,3) clients_okD(3) [OF ok] unfolding apart_def leads_def by blast
qed

lemma leads_update:
  "i < length cs \<Longrightarrow> leads (cs[i := c]) k j P \<longleftrightarrow>
    (if j = i then leading c = Some P \<and> req_key (pr_request P) = k else leads cs k j P)"
  by (auto simp: leads_def)

lemma stage_frame: "same_state w w' \<Longrightarrow> stage N L k X Y todo w' = stage N L k X Y todo w"
  by (simp add: stage_def same_state_def)

lemma on_track_frame:
  assumes "same_state w w'" and "on_track N S D d P w"
  shows "on_track N S D d P w'"
proof -
  have st: "static w' q = static w q" for q using assms(1) by (simp add: same_state_def)
  have "doing N S D d w' P (pr_phase P)"
    by (rule doing_stage [OF on_track_doing [OF assms(2)]]) (use assms(1) in \<open>simp add: same_state_def\<close>)
  with assms(2) show ?thesis
    by (simp add: on_track_def connected_static [OF st] members_static [OF st])
qed

lemma key_ok_mono:
  assumes "key_ok N S D b cs w k" and "b \<le> b'" and "\<And>i P. leads cs' k i P = leads cs k i P"
    and "same_state w w'"
  shows "key_ok N S D b' cs' w' k"
  using assms stage_frame [OF assms(4)] on_track_frame [OF assms(4)]
  unfolding key_ok_def by (meson order_trans)

lemma key_ok_start:
  assumes ok: "clients_ok K N S D l n M (cs, w, h)" and i: "i < length cs" "leading (cs ! i) = None"
    and none: "\<And>j P. \<not> leads cs (req_key r) j P" and c: "leading c = Some (ready l r)"
    and same: "same_state w w'" and b: "n + tally cs \<le> b" "b < 2 ^ 31" and K: "k \<in> K"
  shows "key_ok N S D b (cs[i := c]) w' k"
proof (cases "k = req_key r")
  case True
  from clients_okD(5) [OF ok K [unfolded True]] none obtain d where
    d: "log_full (d_log d)" "rounds (d_log d) k \<le> b" and st: "stage N (S - D) k d d [] w"
    using b(1) by (auto simp: key_ok_def True intro: order_trans)
  have "led_by N S D l w'" by (rule led_by_same [OF clients_okD(1) [OF ok] same])
  then have "on_track N S D d (ready l r) w'"
    using d st stage_frame [OF same] b(2)
    by (simp add: on_track_def ready_def led_by_def True)
  then show ?thesis
    using d none i(1) c
    by (auto simp: key_ok_def leads_update True ready_def intro!: exI [of _ d])
next
  case False
  with i c have "leads (cs[i := c]) k j P = leads cs k j P" for j P
    by (auto simp: leads_update ready_def) (auto simp: leads_def)
  from key_ok_mono [OF clients_okD(5) [OF ok K] b(1) this same] show ?thesis .
qed

lemma key_ok_advance:
  assumes ok: "clients_ok K N S D l n M (cs, w, h)" and i: "i < length cs" "leading (cs ! i) = Some P"
    and adv: "advance (crash_net N D) P w = (P', w')" and c: "leading c = Some P'"
    and b: "n + tally cs \<le> b" and K: "k \<in> K"
  shows "key_ok N S D b (cs[i := c]) w' k"
proof -
  note req = advance_frame(2) [OF adv]
  have st: "static w' q = static w q" for q by (rule advance_frame(1) [OF adv])
  from clients_okD(5) [OF ok K] obtain d where
    d: "log_full (d_log d)" "rounds (d_log d) k \<le> b"
    and tr: "\<And>i P. leads cs k i P \<Longrightarrow> on_track N S D d P w"
    and quiet: "(\<forall>i P. \<not> leads cs k i P) \<Longrightarrow> stage N (S - D) k d d [] w"
    using b by (auto simp: key_ok_def intro: order_trans)
  show ?thesis
  proof (cases "k = req_key (pr_request P)")
    case True
    then have lead: "leads cs k i P" using i by (simp add: leads_def)
    have "\<not> leads cs k j Q" if "j \<noteq> i" for j Q using leads_unique [OF ok lead] that by blast
    moreover have "on_track N S D d P' w'" by (rule on_track_turn [OF tr [OF lead] adv])
    ultimately show ?thesis
      using d i(1) c by (auto simp: key_ok_def leads_update True req intro!: exI [of _ d])
  next
    case False
    have "on_track N S D d Q w'" if "leads cs k j Q" for j Q
      by (rule on_track_other [OF tr [OF that] adv]) (use that False in \<open>auto simp: leads_def\<close>)
    moreover have "stage N (S - D) k d d [] w'" if "\<forall>i P. \<not> leads cs k i P"
      by (rule stage_data [OF _ quiet [OF that]]) (use advance_slot_other [OF adv] False in auto)
    moreover have "leads (cs[i := c]) k j Q = leads cs k j Q" for j Q
      using i c False req by (cases "j = i") (auto simp: leads_update leads_def)
    ultimately show ?thesis using d unfolding key_ok_def by (auto intro!: exI [of _ d])
  qed
qed

lemma key_ok_conclude:
  assumes ok: "clients_ok K N S D l n M (cs, w, h)" and i: "i < length cs" "leading (cs ! i) = Some P"
    and ph: "pr_phase P = Finished s response" and c: "leading c = None"
    and b: "Suc (n + tally cs) \<le> b" and K: "k \<in> K"
  shows "key_ok N S D b (cs[i := c]) w k"
proof (cases "k = req_key (pr_request P)")
  case True
  then have lead: "leads cs k i P" using i by (simp add: leads_def)
  with clients_okD(5) [OF ok K] obtain d where
    d: "log_full (d_log d)" "rounds (d_log d) k \<le> n + tally cs" and tr: "on_track N S D d P w"
    unfolding key_ok_def by blast
  let ?d = "commit_data (pr_request P) d"
  have "log_full (d_log ?d)" using log_full_accept(1) [OF d(1)] by simp
  moreover have "rounds (d_log ?d) k \<le> b" using log_full_accept(2) [OF d(1)] d(2) b by (simp add: True)
  moreover have "stage N (S - D) k ?d ?d [] w" using on_track_finished(2) [OF tr ph] by (simp add: True)
  moreover have "\<not> leads (cs[i := c]) k j Q" for j Q
    using leads_unique [OF ok lead] i(1) c by (auto simp: leads_update)
  ultimately show ?thesis unfolding key_ok_def by blast
next
  case False
  with i c have "leads (cs[i := c]) k j Q = leads cs k j Q" for j Q
    by (auto simp: leads_update) (auto simp: leads_def)
  with key_ok_mono [OF clients_okD(5) [OF ok K]] b show ?thesis by simp
qed

lemma clients_ok_update:
  assumes ok: "clients_ok K N S D l n M (cs, w, h)" and i: "i < length cs" and c: "shaped N S D l c"
    and w: "writes c = None \<or> writes c = writes (cs ! i)" and led: "led_by N S D l w'"
    and ord: "\<And>q. q \<in> S - D \<Longrightarrow> ordered (data w' q)"
    and keys: "\<And>k. k \<in> K \<Longrightarrow> key_ok N S D (n + tally (cs[i := c])) (cs[i := c]) w' k"
  shows "clients_ok K N S D l n M (cs[i := c], w', h')"
proof -
  have "apart K (cs[i := c])"
    using clients_okD(3) [OF ok] i w unfolding apart_def length_list_update
    by (metis nth_list_update option.distinct(1))
  moreover have "\<forall>c' \<in> set (cs[i := c]). shaped N S D l c'"
    using c ok set_update_subset_insert [of cs i c] by (auto simp: clients_ok_def)
  moreover have "\<forall>k \<in> K. key_ok N S D (n + tally (cs[i := c])) (cs[i := c]) w' k" using keys by blast
  ultimately show ?thesis using ok led ord unfolding clients_ok_def by simp
qed

lemma clients_ok_quiet:
  assumes ok: "clients_ok K N S D l n M (cs, w, h)" and i: "i < length cs" and c: "shaped N S D l c"
    and w: "writes c = None \<or> writes c = writes (cs ! i)" and same: "same_state w w'"
    and lead: "leading c = leading (cs ! i)" and con: "concluded (cs ! i) \<longrightarrow> concluded c"
  shows "clients_ok K N S D l n M (cs[i := c], w', h')"
proof (rule clients_ok_update [OF ok i c w])
  show "led_by N S D l w'" by (rule led_by_same [OF clients_okD(1) [OF ok] same])
  show "ordered (data w' q)" if "q \<in> S - D" for q
    using clients_okD(6) [OF ok that] same by (simp add: same_state_def)
  have "tally cs \<le> tally (cs[i := c])" using tally_update [OF i, of c] con by (auto split: if_splits)
  moreover have "leads (cs[i := c]) k j P = leads cs k j P" for k j P
    using lead i by (auto simp: leads_update) (auto simp: leads_def)
  ultimately show "key_ok N S D (n + tally (cs[i := c])) (cs[i := c]) w' k" if "k \<in> K" for k
    using key_ok_mono [OF clients_okD(5) [OF ok that] _ _ same] by simp
qed

lemma clients_ok_start:
  assumes ok: "clients_ok K N S D l n M (cs, w, h)" and M: "n + M \<le> 2 ^ 31" and i: "i < length cs"
    and c: "shaped N S D l c" "writes c = writes (cs ! i)" "leading c = Some (ready l r)"
    and old: "leading (cs ! i) = None" "\<not> concluded (cs ! i)" and same: "same_state w w'"
  shows "clients_ok K N S D l n M (cs[i := c], w', h')"
proof (rule clients_ok_update [OF ok i c(1)])
  note c_writes = leading_writes [OF c(1,3)]
  show "writes c = None \<or> writes c = writes (cs ! i)" using c(2) by simp
  show "led_by N S D l w'" by (rule led_by_same [OF clients_okD(1) [OF ok] same])
  show "ordered (data w' q)" if "q \<in> S - D" for q
    using clients_okD(6) [OF ok that] same by (simp add: same_state_def)
  have "\<not> leads cs (req_key r) j P" for j P
  proof
    assume "leads cs (req_key r) j P"
    then have j: "j < length cs" "leading (cs ! j) = Some P" "req_key (pr_request P) = req_key r"
      by (simp_all add: leads_def)
    from leading_writes [OF clients_okD(2) [OF ok j(1)] j(2)] j(3) have "writes (cs ! j) = Some (req_key r)"
      by simp
    moreover have "writes (cs ! i) = Some (req_key r)" using c_writes c(2) by (simp add: ready_def)
    ultimately have "i = j" using clients_okD(3) [OF ok] i j(1) unfolding apart_def by blast
    with j(2) old(1) show False by simp
  qed
  moreover have "tally (cs[i := c]) = tally cs" using tally_update [OF i, of c] c_writes old(2) by simp
  moreover have "n + tally cs < 2 ^ 31"
    using tally_less [OF i old(2)] clients_okD(4) [OF ok] M by simp
  ultimately show "key_ok N S D (n + tally (cs[i := c])) (cs[i := c]) w' k" if "k \<in> K" for k
    using that key_ok_start [OF ok i old(1) _ c(3) same] by simp
qed

lemma clients_ok_advance:
  assumes ok: "clients_ok K N S D l n M (cs, w, h)" and i: "i < length cs"
    and c: "shaped N S D l c" "writes c = writes (cs ! i)" "leading c = Some P'"
    and old: "leading (cs ! i) = Some P" and adv: "advance (crash_net N D) P w = (P', w')"
  shows "clients_ok K N S D l n M (cs[i := c], w', h')"
proof (rule clients_ok_update [OF ok i c(1)])
  note c_writes = leading_writes [OF c(1,3)] leading_writes [OF clients_okD(2) [OF ok i] old]
  show "writes c = None \<or> writes c = writes (cs ! i)" using c(2) by simp
  have "req_key (pr_request P) \<noteq> ''leader''"
    using c_writes clients_okD(3) [OF ok] i unfolding apart_def by blast
  then have "d_leader (data w' q) = d_leader (data w q)" for q
    using advance_held_other [OF adv, of "''leader''" q] by (simp add: held_leader)
  then show "led_by N S D l w'"
    by (intro led_by_frame [OF clients_okD(1) [OF ok]] advance_frame(1) [OF adv])
  show "ordered (data w' q)" if "q \<in> S - D" for q
    using clients_okD(6) [OF ok that] adv by (rule advance_ordered)
  have "tally (cs[i := c]) = tally cs" using tally_update [OF i, of c] c_writes by simp
  then show "key_ok N S D (n + tally (cs[i := c])) (cs[i := c]) w' k" if "k \<in> K" for k
    using that key_ok_advance [OF ok i old adv c(3)] by simp
qed

lemma clients_ok_conclude:
  assumes ok: "clients_ok K N S D l n M (cs, w, h)" and i: "i < length cs"
    and c: "shaped N S D l c" "writes c = writes (cs ! i)" "leading c = None" "concluded c"
    and old: "leading (cs ! i) = Some P" and ph: "pr_phase P = Finished s response"
  shows "clients_ok K N S D l n M (cs[i := c], w, h')"
proof (rule clients_ok_update [OF ok i c(1)])
  show "writes c = None \<or> writes c = writes (cs ! i)" using c(2) by simp
  show "led_by N S D l w" by (rule clients_okD(1) [OF ok])
  show "ordered (data w q)" if "q \<in> S - D" for q using clients_okD(6) [OF ok that] .
  have "tally (cs[i := c]) = Suc (tally cs)"
    using tally_update [OF i, of c] c(4) leading_writes [OF clients_okD(2) [OF ok i] old] by simp
  then show "key_ok N S D (n + tally (cs[i := c])) (cs[i := c]) w k" if "k \<in> K" for k
    using that key_ok_conclude [OF ok i old ph c(3)] by simp
qed

lemma leading_track:
  assumes ok: "clients_ok K N S D l n M (cs, w, h)" and i: "i < length cs" and "leading (cs ! i) = Some P"
  obtains d where "on_track N S D d P w"
proof -
  from leading_writes [OF clients_okD(2) [OF ok i] assms(3)] clients_okD(3) [OF ok] i
  have "req_key (pr_request P) \<in> K" unfolding apart_def by blast
  from clients_okD(5) [OF ok this] assms(2,3) that show thesis unfolding key_ok_def leads_def by blast
qed

subsection \<open>A turn is at most one step of the specification\<close>

abbreviation atomic_steps :: "Net \<Rightarrow> nat set \<Rightarrow> atomic_state \<Rightarrow> atomic_state \<Rightarrow> bool" where
  "atomic_steps N D \<equiv> (atomic_step (reachable_address N D))\<^sup>*\<^sup>*"

lemma abstract_update:
  "abstract N l (cs[i := c], w', h) =
    (map_of (kv_store (procs w' l)), (map (abstract_client N l) cs)[i := abstract_client N l c], h)"
  by (simp add: abstract_def map_update)

lemma same_state_kv: "same_state w w' \<Longrightarrow> kv_store (procs w' l) = kv_store (procs w l)"
  unfolding same_state_def by (metis data_of_sel(2))

lemma atomic_stutter:
  assumes "abstract_client N l c = abstract_client N l (cs ! i)" and "i < length cs"
    and "map_of (kv_store (procs w' l)) = map_of (kv_store (procs w l))"
  shows "atomic_steps N D (abstract N l (cs, w, h)) (abstract N l (cs[i := c], w', h))"
  using assms by (simp add: abstract_update map_update [symmetric]) (simp add: abstract_def map_update)

lemma atomic_effect:
  assumes "abstract_client N l (cs ! i) = (addr, j, Pending)" and "abstract_client N l c = (addr, j, Served s r)"
    and "i < length cs" and "reachable_address N D addr"
    and "perform j (map_of (kv_store (procs w l))) = (map_of (kv_store (procs w' l)), s, r)"
  shows "atomic_steps N D (abstract N l (cs, w, h)) (abstract N l (cs[i := c], w', h))"
  unfolding abstract_update assms(2)
  using takes_effect [of i "map (abstract_client N l) cs" addr j "reachable_address N D"
      "map_of (kv_store (procs w l))"] assms
  by (simp add: abstract_def r_into_rtranclp)

lemma perform_get:
  "perform (Get_job k) (map_of kv) = (map_of kv, Status_OK, answer_get \<lparr>get_key = k\<rparr> kv)"
  by (simp add: answer_get_def split: option.split)

lemma not_announced_ready [simp]: "\<not> announced N l (ready p r)"
  by (simp add: announced_def ready_def)

lemma set_request_simps [simp]:
  "req_key (set_request r) = set_key r" "req_value (set_request r) = set_value r"
  by (simp_all add: set_request_def)

text \<open>The turns of a handler that has just been entered.\<close>

lemma entered_turn:
  assumes ok: "clients_ok K N S D l n M (cs, w, h)" and M: "n + M \<le> 2 ^ 31" and i: "i < length cs"
    and c: "cs ! i = Waiting addr j Deliver (A # rest)" and A: "ac_point A = Entered"
    and up: "reachable_address N D addr" and st: "stack_ok (S - D) l j (A # rest)"
    and turn: "turn (crash_net N D) (A # rest, w) = (stack', w')"
  shows "clients_ok K N S D l n M (cs[i := Waiting addr j Deliver stack'], w', h) \<and>
    atomic_steps N D (abstract N l (cs, w, h)) (abstract N l (cs[i := Waiting addr j Deliver stack'], w', h))"
proof -
  note led = clients_okD(1) [OF ok]
  from st have sv: "ac_at A \<in> S - D" "ac_job A = j" "\<not> ac_cancelled A"
    and one: "ac_at A \<noteq> l \<Longrightarrow> rest = []" by (auto simp: serves_def elim: stack_ok.elims)
  have l: "l \<in> S - D" using led by (simp add: led_by_def)
  show ?thesis
  proof (cases "ac_at A = l")
    case False
    from turn_forward [OF led sv(1) False A sv(3)] turn one [OF False]
    have res: "stack' = [fresh l j, at_point A (Forwarded Deliver)]" and same: "same_state w w'"
      by (auto simp: sv(2))
    have "clients_ok K N S D l n M (cs[i := Waiting addr j Deliver stack'], w', h)"
      by (rule clients_ok_quiet [OF ok i _ _ same])
        (use up sv l c A one [OF False] in \<open>auto simp: res serves_def\<close>)
    moreover have "atomic_steps N D (abstract N l (cs, w, h))
        (abstract N l (cs[i := Waiting addr j Deliver stack'], w', h))"
      by (rule atomic_stutter [OF _ i]) (simp_all add: abstract_client_def c res A same_state_kv [OF same])
    ultimately show ?thesis ..
  next
    case True
    show ?thesis
    proof (cases j)
      case (Get_job k)
      let ?r = "answer_get \<lparr>get_key = k\<rparr> (kv_store (procs w l))"
      from turn_get [OF led True _ A sv(3), of k] turn sv(2)
      have res: "stack' = at_point A (Replied Status_OK ?r) # rest" and same: "same_state w w'"
        by (auto simp: Get_job)
      have "stack_ok (S - D) l j stack'"
        using st A by (auto simp: res serves_def elim: stack_ok.elims)
      then have "clients_ok K N S D l n M (cs[i := Waiting addr j Deliver stack'], w', h)"
        by (intro clients_ok_quiet [OF ok i _ _ same]) (simp_all add: up c A res Get_job)
      moreover have "atomic_steps N D (abstract N l (cs, w, h))
          (abstract N l (cs[i := Waiting addr j Deliver stack'], w', h))"
        by (rule atomic_effect [OF _ _ i up, where s = Status_OK and r = ?r])
          (unfold Get_job same_state_kv [OF same], simp add: abstract_client_def c A Get_job,
           simp add: abstract_client_def c A res Get_job, simp only: perform_get)
      ultimately show ?thesis ..
    next
      case (Set_job k v)
      let ?r = "set_request \<lparr>set_key = k, set_value = v\<rparr>"
      from turn_set [OF led True _ A sv(3), of k v] turn sv(2)
      have res: "stack' = at_point A (Leading (ready l ?r)) # rest" and same: "same_state w w'"
        by (auto simp: Set_job)
      have "stack_ok (S - D) l j stack'"
        using st A True by (auto simp: res serves_def Set_job ready_def elim: stack_ok.elims)
      then have "clients_ok K N S D l n M (cs[i := Waiting addr j Deliver stack'], w', h)"
        by (intro clients_ok_start [OF ok M i _ _ _ _ _ same]) (simp_all add: up c A res Set_job)
      moreover have "atomic_steps N D (abstract N l (cs, w, h))
          (abstract N l (cs[i := Waiting addr j Deliver stack'], w', h))"
        by (rule atomic_stutter [OF _ i]) (simp_all add: abstract_client_def c res A same_state_kv [OF same])
      ultimately show ?thesis ..
    qed
  qed
qed

lemma serving_turn:
  assumes ok: "clients_ok K N S D l n M (cs, w, h)" and i: "i < length cs"
    and c: "cs ! i = Waiting addr j Deliver (A # rest)" and A: "ac_point A = Leading P"
    and up: "reachable_address N D addr" and st: "stack_ok (S - D) l j (A # rest)"
    and turn: "turn (crash_net N D) (A # rest, w) = (stack', w')"
  shows "clients_ok K N S D l n M (cs[i := Waiting addr j Deliver stack'], w', h) \<and>
    atomic_steps N D (abstract N l (cs, w, h)) (abstract N l (cs[i := Waiting addr j Deliver stack'], w', h))"
proof -
  let ?c = "Waiting addr j Deliver stack'"
  have l: "l \<in> S - D" using clients_okD(1) [OF ok] by (simp add: led_by_def)
  have old: "leading (cs ! i) = Some P" by (simp add: c A)
  obtain d where tr: "on_track N S D d P w" by (rule leading_track [OF ok i old])
  from st A obtain k v where j: "j = Set_job k v"
    and P: "pr_request P = set_request \<lparr>set_key = k, set_value = v\<rparr>"
    by (auto simp: serves_def split: job.splits elim: stack_ok.elims)
  have k: "k \<noteq> ''leader''" using clients_okD(3) [OF ok] i c j by (auto simp: apart_def)
  note lead = turn_lead [OF A, of "crash_net N D" rest w, unfolded turn]
  show ?thesis
  proof (cases "finished P")
    case False
    obtain P' where adv: "advance (crash_net N D) P w = (P', w')"
      and res: "stack' = at_point A (Leading P') # rest"
      using lead False by (cases "advance (crash_net N D) P w") (auto simp: finished_def split: phase.splits)
    note frame = advance_frame(2,3) [OF adv]
    have "stack_ok (S - D) l j stack'"
      using st A by (auto simp: res serves_def frame elim: stack_ok.elims split: job.splits)
    then have "clients_ok K N S D l n M (cs[i := ?c], w', h)"
      by (intro clients_ok_advance [OF ok i _ _ _ old adv]) (simp_all add: up c res)
    moreover have kv: "map_of (kv_store (procs w' l)) =
        (if announced N l P' \<and> \<not> announced N l P then (map_of (kv_store (procs w l)))(k \<mapsto> v)
         else map_of (kv_store (procs w l)))"
      using advance_kv [OF adv tr l] k by (simp add: P)
    have "atomic_steps N D (abstract N l (cs, w, h)) (abstract N l (cs[i := ?c], w', h))"
    proof (cases "announced N l P' \<and> \<not> announced N l P")
      case True
      with kv show ?thesis
        by (intro atomic_effect [OF _ _ i up, where s = Status_OK and r = default_GetResponse])
          (simp_all add: abstract_client_def c res A, simp add: j)
    next
      case False
      with kv announced_turn [OF _ adv, of N l] show ?thesis
        by (intro atomic_stutter [OF _ i]) (auto simp: abstract_client_def c res A)
    qed
    ultimately show ?thesis ..
  next
    case True
    then obtain s response where ph: "pr_phase P = Finished s response" by (auto simp: finished_iff)
    with lead have res: "stack' = replies_with A s # rest" and w: "w' = w" by auto
    have s: "s = Status_OK" by (rule on_track_finished(1) [OF tr ph])
    have "stack_ok (S - D) l j stack'"
      using st A by (auto simp: res s serves_def elim: stack_ok.elims)
    then have "clients_ok K N S D l n M (cs[i := ?c], w', h)"
      unfolding w by (intro clients_ok_conclude [OF ok i _ _ _ _ old ph]) (simp_all add: up c res)
    moreover have "atomic_steps N D (abstract N l (cs, w, h)) (abstract N l (cs[i := ?c], w', h))"
      by (rule atomic_stutter [OF _ i]) (simp_all add: abstract_client_def c res A w announced_def ph s)
    ultimately show ?thesis ..
  qed
qed

lemma waiting_turn:
  assumes ok: "clients_ok K N S D l n M (cs, w, h)" and M: "n + M \<le> 2 ^ 31" and i: "i < length cs"
    and c: "cs ! i = Waiting addr j f stack" and "reply stack = None"
    and turn: "turn (crash_net N D) (stack, w) = (stack', w')"
  shows "clients_ok K N S D l n M (cs[i := Waiting addr j f stack'], w', h) \<and>
    atomic_steps N D (abstract N l (cs, w, h)) (abstract N l (cs[i := Waiting addr j f stack'], w', h))"
proof -
  from \<open>reply stack = None\<close> obtain A rest where stack: "stack = A # rest" by (cases stack) auto
  from clients_okD(2) [OF ok i] have f: "f = Deliver" and up: "reachable_address N D addr"
    and st: "stack_ok (S - D) l j (A # rest)" by (simp_all add: c stack)
  note c = c [unfolded f stack] and turn = turn [unfolded stack]
  from st have "serves (S - D) l j A" by (auto elim: stack_ok.elims)
  then consider "ac_point A = Entered" | P where "ac_point A = Leading P"
    | r where "ac_point A = Replied Status_OK r"
    by (auto simp: serves_def split: point.splits)
  then show ?thesis
  proof cases
    case 1
    with entered_turn [OF ok M i c _ up st turn] show ?thesis by (simp add: f)
  next
    case 2
    with serving_turn [OF ok i c _ up st turn] show ?thesis by (simp add: f)
  next
    case 3
    with \<open>reply stack = None\<close> st obtain B where rest: "rest = [B]"
      and B: "ac_at B \<in> S - D" "ac_job B = j" "\<not> ac_cancelled B" "ac_point B = Forwarded Deliver"
      by (auto simp: stack elim: stack_ok.elims)
    from turn_resume [OF 3 B(4)] turn have res: "stack' = [at_point B (Replied Status_OK r)]" "w' = w"
      by (simp_all add: rest)
    have "clients_ok K N S D l n M (cs[i := Waiting addr j f stack'], w', h)"
      by (rule clients_ok_quiet [OF ok i]) (use up B 3 in \<open>simp_all add: res f c serves_def rest\<close>)
    moreover have "atomic_steps N D (abstract N l (cs, w, h))
        (abstract N l (cs[i := Waiting addr j f stack'], w', h))"
      by (rule atomic_stutter [OF _ i]) (simp_all add: abstract_client_def c res f 3)
    ultimately show ?thesis ..
  qed
qed

subsection \<open>Whole runs\<close>

lemma move_simulated:
  assumes ok: "clients_ok K N S D l n M (cs, w, h)" and M: "n + M \<le> 2 ^ 31" and i: "i < length cs"
  shows "clients_ok K N S D l n M (move (crash_net N D) i (cs, w, h)) \<and>
    atomic_steps N D (abstract N l (cs, w, h)) (abstract N l (move (crash_net N D) i (cs, w, h)))"
proof (cases "cs ! i")
  case (Returned addr j s r)
  with ok show ?thesis by (simp add: move_def)
next
  case (Waiting addr j f stack)
  show ?thesis
  proof (cases "reply stack")
    case None
    obtain stack' w' where "turn (crash_net N D) (stack, w) = (stack', w')" by fastforce
    with waiting_turn [OF ok M i Waiting None this] Waiting None show ?thesis by (simp add: move_def)
  next
    case (Some sr)
    obtain s r where sr: "sr = (s, r)" by (cases sr)
    from clients_okD(2) [OF ok i] Some have rec: "received f s r = (s, r)"
      and status: "status_of N l (Waiting addr j f stack) = Served s r"
      by (auto simp: Waiting sr serves_def elim!: reply.elims split: point.splits)
    let ?c = "Returned addr j s r"
    have m: "move (crash_net N D) i (cs, w, h) = (cs[i := ?c], w, h @ [Return i s r])"
      using Waiting Some by (simp add: move_def sr rec)
    have lead: "leading (cs ! i) = None"
      using Some by (auto simp: Waiting elim!: reply.elims split: point.splits)
    have "clients_ok K N S D l n M (cs[i := ?c], w, h @ [Return i s r])"
      by (rule clients_ok_quiet [OF ok i]) (simp_all add: lead)
    moreover have "atomic_step (reachable_address N D) (abstract N l (cs, w, h))
        (abstract N l (cs[i := ?c], w, h @ [Return i s r]))"
      unfolding abstract_update
      using ends [of i "map (abstract_client N l) cs" addr j s r] i status
      by (simp add: abstract_def abstract_client_def Waiting)
    ultimately show ?thesis by (simp add: m r_into_rtranclp)
  qed
qed

lemma clients_ok_append:
  assumes ok: "clients_ok K N S D l n M (cs, w, h)" and len: "length cs < M"
    and c: "shaped N S D l c" "leading c = None"
    and w: "\<And>k. writes c = Some k \<Longrightarrow> k \<in> K \<and> k \<noteq> ''leader'' \<and> (\<forall>c' \<in> set cs. writes c' \<noteq> Some k)"
    and same: "same_state w w'"
  shows "clients_ok K N S D l n M (cs @ [c], w', h')"
proof -
  have "apart K (cs @ [c])"
    using clients_okD(3) [OF ok] w unfolding apart_def by (auto simp: nth_append less_Suc_eq)
  moreover have "leads (cs @ [c]) k i P = leads cs k i P" for k i P
    using c(2) by (auto simp: leads_def nth_append less_Suc_eq)
  then have "\<forall>k \<in> K. key_ok N S D (n + tally (cs @ [c])) (cs @ [c]) w' k"
    by (intro ballI key_ok_mono [OF clients_okD(5) [OF ok] _ _ same]) (simp_all add: tally_def)
  moreover have "led_by N S D l w'" by (rule led_by_same [OF clients_okD(1) [OF ok] same])
  ultimately show ?thesis
    using ok len c(1) same by (simp add: clients_ok_def same_state_def)
qed

lemma turned_away:
  assumes "\<not> up addr"
  shows "(atomic_step up)\<^sup>*\<^sup>* (m, ops, h)
    (m, ops @ [(addr, j, Served unavailable default_GetResponse)], h @ [Call (length ops) addr j])"
proof -
  let ?ops = "ops @ [(addr, j, Pending)]"
  have "atomic_step up (m, ?ops, h') (m, ?ops[length ops := (addr, j, Served unavailable default_GetResponse)], h')"
    for h' by (rule refused) (simp_all add: assms)
  then have "atomic_step up (m, ?ops, h @ [Call (length ops) addr j])
      (m, ops @ [(addr, j, Served unavailable default_GetResponse)], h @ [Call (length ops) addr j])"
    by simp
  with begins show ?thesis by (rule converse_rtranclp_into_rtranclp [OF _ r_into_rtranclp])
qed

lemma call_simulated:
  assumes ok: "clients_ok K N S D l n M (cs, w, h)" and len: "length cs < M" and adm: "within_keys K N S addr j cs"
  shows "clients_ok K N S D l n M (invoke (crash_net N D) p addr j (cs, w, h)) \<and>
    atomic_steps N D (abstract N l (cs, w, h)) (abstract N l (invoke (crash_net N D) p addr j (cs, w, h)))"
proof -
  let ?h = "h @ [Call (length cs) addr j]"
  let ?u = "tick (update p (count_out (stub_name j)) w)"
  have same: "same_state w ?u" by simp
  note kv = same_state_kv [OF same, of l, unfolded tick_simps]
  have w: "k \<in> K \<and> k \<noteq> ''leader'' \<and> (\<forall>c \<in> set cs. writes c \<noteq> Some k)" if "job_key j = Some k" for k
    using adm that by (cases j) (auto simp: within_keys_def one_writer_def list_all_iff)
  show ?thesis
  proof (cases "reachable_address N D addr")
    case True
    then obtain q where q: "database_route N addr = Some q" "q \<notin> D" by (auto simp: reachable_address_def split: option.splits)
    with adm have "q \<in> S - D" by (simp add: within_keys_def one_writer_def)
    let ?c = "Waiting addr j Deliver [fresh q j]"
    have inv: "invoke (crash_net N D) p addr j (cs, w, h) = (cs @ [?c], ?u, ?h)"
      using q by (simp add: invoke_def send_job_def)
    have "clients_ok K N S D l n M (cs @ [?c], ?u, ?h)"
      by (rule clients_ok_append [OF ok len]) (use w \<open>q \<in> S - D\<close> True in \<open>simp_all add: serves_def\<close>)
    moreover have "atomic_step (reachable_address N D) (abstract N l (cs, w, h)) (abstract N l (cs @ [?c], ?u, ?h))"
      using begins [of "reachable_address N D" "map_of (kv_store (procs w l))" "map (abstract_client N l) cs" h addr j]
      by (simp add: abstract_def abstract_client_def kv)
    ultimately show ?thesis by (simp add: inv r_into_rtranclp)
  next
    case False
    let ?c = "Waiting addr j Drop []"
    have inv: "invoke (crash_net N D) p addr j (cs, w, h) = (cs @ [?c], ?u, ?h)"
      using False by (auto simp: invoke_def send_job_def reachable_address_def split: option.splits)
    have "clients_ok K N S D l n M (cs @ [?c], ?u, ?h)"
      by (rule clients_ok_append [OF ok len]) (use w False in simp_all)
    moreover have "atomic_steps N D (abstract N l (cs, w, h)) (abstract N l (cs @ [?c], ?u, ?h))"
      using turned_away [of "reachable_address N D" addr, OF False, of _ "map (abstract_client N l) cs" h j]
      by (simp add: abstract_def abstract_client_def kv)
    ultimately show ?thesis by (simp add: inv)
  qed
qed

lemma clients_simulated:
  assumes "clients_ok K N S D l n M st" and "client_step (crash_net N D) M (within_keys K N S) st st'"
    and "n + M \<le> 2 ^ 31"
  shows "clients_ok K N S D l n M st' \<and> atomic_steps N D (abstract N l st) (abstract N l st')"
  using assms(2,1)
proof (cases rule: client_step.cases)
  case (call cs addr j w h p)
  with call_simulated assms(1) show ?thesis by simp
next
  case (moves i cs w h)
  with move_simulated assms(1,3) show ?thesis by simp
qed

text \<open>The bound on the number of requests is part of the invariant given to the simulation, so
  that it need not be a hypothesis of the interpretation.\<close>

definition users_ok :: "string set \<Rightarrow> Net \<Rightarrow> nat set \<Rightarrow> nat set \<Rightarrow> nat \<Rightarrow> nat \<Rightarrow> nat \<Rightarrow> clients \<Rightarrow> bool" where
  "users_ok K N S D l n M st \<longleftrightarrow> n + M \<le> 2 ^ 31 \<and> clients_ok K N S D l n M st"

interpretation users: forward_simulation "client_step (crash_net N D) M (within_keys K N S)"
  "atomic_step (reachable_address N D)" "abstract N l" "users_ok K N S D l n M" for K N S D l n M
  by unfold_locales (use clients_simulated in \<open>auto simp: users_ok_def\<close>)

lemmas all_users = users.inv_run [where K = UNIV, unfolded within_UNIV]
  users.abs_run [where K = UNIV, unfolded within_UNIV]

text \<open>The requests may start when the live processes agree on the keys of \<open>K\<close> and on a leader
  that is alive.\<close>

definition settled :: "string set \<Rightarrow> Net \<Rightarrow> nat set \<Rightarrow> nat set \<Rightarrow> nat \<Rightarrow> World \<Rightarrow> bool" where
  "settled K N S D n w \<longleftrightarrow> connected N S w \<and> card S \<le> 2 * card (S - D) \<and>
     (\<forall>k \<in> K. \<exists>d. log_full (d_log d) \<and> rounds (d_log d) k \<le> n \<and> stage N (S - D) k d d [] w) \<and>
     (\<forall>q \<in> S - D. ordered (data w q))"

lemma settled_start:
  assumes "settled K N S D n w" and "l \<in> S - D" and "n + M \<le> 2 ^ 31"
    and "\<forall>q \<in> S - D. leader (procs w q) = self_address (procs w l)"
  shows "users_ok K N S D l n M ([], w, [])"
  using assms
  by (simp add: users_ok_def clients_ok_def settled_def apart_def tally_def led_by_def key_ok_def
      leads_def)

lemma healthy_settled:
  assumes h: "healthy N S D n w d" and "ordered d"
  shows "settled K N S D n w"
proof -
  from h have "log_full (d_log d)" "rounds (d_log d) k \<le> n" "stage N (S - D) k d d [] w" for k
    by (auto simp: healthy_def bounded_def stage_def replicas_def)
  with assms show ?thesis by (auto simp: settled_def healthy_def replicas_def)
qed

lemma clients_start:
  assumes h: "healthy N S D n w d" and l: "l \<in> S - D" "d_leader d = self_address (procs w l)"
    and ord: "ordered d" and "n + M \<le> 2 ^ 31"
  shows "users_ok K N S D l n M ([], w, [])"
  using settled_start [OF healthy_settled [OF h ord] l(1) assms(5)] healthy_leader [OF h] l(2) by simp

end
