(* ===== verification/Answers.thy ===== *)
theory Answers
  imports Linearizable
begin

text \<open>
  Users of a healthy cluster are answered. A request to a member that is up needs at most
  \<open>4 n + 10\<close> turns of its own, whatever the other requests do, and when no request is under
  way the live processes are replicas of one state again.
\<close>

subsection \<open>When no request is under way the replicas are equal again\<close>

definition answered :: "client \<Rightarrow> bool" where
  "answered c = (case c of Returned addr j s r \<Rightarrow> True | Waiting addr j f stack \<Rightarrow> False)"

lemma answered_iff: "answered c \<longleftrightarrow> (\<exists>addr j s r. c = Returned addr j s r)"
  by (cases c) (simp_all add: answered_def)

lemma quiet_healthy:
  assumes ok: "users_ok UNIV N S D l n M (cs, w, h)" and all: "\<forall>c \<in> set cs. answered c"
  shows "healthy N S D (n + length cs) w (data w l)"
proof -
  from ok have cok: "clients_ok UNIV N S D l n M (cs, w, h)" by (simp add: users_ok_def)
  note led = clients_okD(1) [OF cok] and ord = clients_okD(6) [OF cok]
  from led have l: "l \<in> S - D" by (simp add: led_by_def)
  have none: "\<not> leads cs k i P" for k i P
  proof
    assume "leads cs k i P"
    then have "i < length cs" "leading (cs ! i) = Some P" by (simp_all add: leads_def)
    with all nth_mem show False by (fastforce simp: answered_iff)
  qed
  have slots: "\<exists>d. log_full (d_log d) \<and> rounds (d_log d) k \<le> n + length cs \<and>
      (\<forall>q \<in> S - D. slot k (data w q) = slot k d)" for k
  proof -
    from clients_okD(5) [OF cok UNIV_I, of k] none obtain d where "log_full (d_log d)"
      "rounds (d_log d) k \<le> n + tally cs" "stage N (S - D) k d d [] w" unfolding key_ok_def by blast
    moreover from this(2) tally_le [of cs] have "rounds (d_log d) k \<le> n + length cs" by simp
    ultimately show ?thesis by (auto simp: stage_def)
  qed
  have "replicas (S - D) w (data w l)"
    unfolding replicas_def
  proof
    fix q assume q: "q \<in> S - D"
    have "slot k (data w q) = slot k (data w l)" for k using slots [of k] q l by fastforce
    then show "data w q = data w l" by (rule slots_determine [OF ord [OF q] ord [OF l]])
  qed
  moreover have "log_full (d_log (data w l))"
    unfolding log_full_def
  proof (intro conjI allI)
    show "log_ok (d_log (data w l))" using ord [OF l] by (simp add: ordered_def)
    fix k rnd
    from slots [of k] l obtain d where d: "log_full (d_log d)" "slot k (data w l) = slot k d" by blast
    show "(log_find (d_log (data w l)) k rnd \<noteq> None) = (0 \<le> rnd \<and> rnd < int (rounds (d_log (data w l)) k))"
      using d(1) slot_log [OF d(2)] unfolding log_full_def log_find_def rounds_def by simp
  qed
  moreover have "bounded (n + length cs) (data w l)"
    by (rule bounded_slots) (use slots l in blast)
  ultimately show ?thesis using led l unfolding healthy_def led_by_def by blast
qed

subsection \<open>Every request is answered\<close>

lemma pass_on_static: "static (snd (pass_on N addr B waiting failed st w)) q = static w q"
  by (auto simp: pass_on_def send_job_def Let_def split: option.split)

lemma enter_static: "static (snd (enter N A rest w)) q = static w q"
  by (simp add: enter_def Let_def pass_on_static split: option.split job.split)

lemma leader_static: "static (update x (\<lambda>P. P\<lparr>leader := v\<rparr>) w) q = static w q"
  by (simp add: static_eq procs_update)

lemma election_turn_static:
  "static (snd (start_election N A rest w)) q = static w q"
  "static (snd (end_election A f x s response rest w)) q = static w q"
  by (simp_all add: start_election_def end_election_def Let_def leader_static split: option.split)

lemma turn_static: "static (snd (turn N (stack, w))) q = static w q"
proof (cases stack)
  case Nil
  then show ?thesis by (simp add: turn.simps)
next
  case (Cons A rest)
  show ?thesis
  proof (cases "ac_point A")
    case (Electing f x P)
    then show ?thesis
      by (cases "pr_phase P") (simp_all add: Cons turn.simps case_prod_beta election_turn_static)
  next
    case (Leading P)
    then show ?thesis by (cases "pr_phase P") (simp_all add: Cons turn.simps case_prod_beta)
  next
    case Elected
    then show ?thesis by (simp add: Cons turn.simps pass_on_static split: option.split)
  next
    case (Replied s r)
    then show ?thesis by (cases rest) (simp_all add: Cons turn.simps)
  qed (simp_all add: Cons turn.simps enter_static election_turn_static)
qed

text \<open>The turns a request still needs.\<close>

fun turns_left :: "nat \<Rightarrow> World \<Rightarrow> client \<Rightarrow> nat" where
  "turns_left m w (Returned addr j s r) = 0"
| "turns_left m w (Waiting addr j f []) = 1"
| "turns_left m w (Waiting addr j f (A # rest)) =
     length rest +
     (case ac_point A of
        Replied s r \<Rightarrow> 1
      | Leading P \<Rightarrow> remaining w P + 2
      | _ \<Rightarrow> if rest = [] then 4 * m + 10 else 4 * m + 8)"

lemma turns_left_static:
  assumes "\<And>q. static w' q = static w q"
  shows "turns_left m w' c = turns_left m w c"
proof -
  have "remaining w' P = remaining w P" for P by (simp add: remaining_def members_static(1) [OF assms])
  then show ?thesis by (cases "(m, w, c)" rule: turns_left.cases) (simp_all split: point.split)
qed

lemma turns_left_0: "turns_left m w c = 0 \<longleftrightarrow> answered c"
  by (cases "(m, w, c)" rule: turns_left.cases) (auto simp: answered_def split: point.split)

lemma turns_left_waiting:
  assumes ok: "clients_ok K N S D l n M (cs, w, h)" and i: "i < length cs"
    and c: "cs ! i = Waiting addr j f stack" and "reply stack = None"
    and turn: "turn (crash_net N D) (stack, w) = (stack', w')"
  shows "turns_left (card S) w' (Waiting addr j f stack') < turns_left (card S) w (Waiting addr j f stack)"
proof -
  note led = clients_okD(1) [OF ok]
  have con: "connected N S w" and l: "l \<in> S" using led by (simp_all add: led_by_def)
  have st: "static w' q = static w q" for q using turn_static [of "crash_net N D" stack w q] turn by simp
  from connectedD(5) [OF con l] members_static(1) [OF st, of l]
  have ready: "remaining w' (ready l r) = 4 * card S + 5" for r by (simp add: remaining_def ready_def)
  from \<open>reply stack = None\<close> obtain A rest where stack: "stack = A # rest" by (cases stack) auto
  from clients_okD(2) [OF ok i] have so: "stack_ok (S - D) l j (A # rest)" by (simp add: c stack)
  then have sv: "serves (S - D) l j A" "ac_at A \<noteq> l \<Longrightarrow> rest = []" and len: "length rest \<le> 1"
    by (auto elim: stack_ok.elims)
  from sv(1) have A: "ac_at A \<in> S - D" "ac_job A = j" "\<not> ac_cancelled A" by (simp_all add: serves_def)
  from sv(1) consider "ac_point A = Entered" | P where "ac_point A = Leading P"
    | r where "ac_point A = Replied Status_OK r"
    by (auto simp: serves_def split: point.splits)
  then show ?thesis
  proof cases
    case 1
    show ?thesis
    proof (cases "ac_at A = l")
      case True
      show ?thesis
      proof (cases j)
        case (Get_job k)
        with turn_get [OF led True _ 1 A(3)] turn show ?thesis by (auto simp: stack A 1)
      next
        case (Set_job k v)
        with turn_set [OF led True _ 1 A(3), of k v rest] turn have
          "stack' = at_point A (Leading (ready l (set_request \<lparr>set_key = k, set_value = v\<rparr>))) # rest"
          by (simp add: stack A)
        then show ?thesis by (simp add: stack 1 ready)
      qed
    next
      case False
      with turn_forward [OF led A(1) False 1 A(3)] turn sv(2) show ?thesis by (auto simp: stack 1)
    qed
  next
    case 2
    note lead = turn_lead [OF 2, of "crash_net N D" rest w, folded stack, unfolded turn]
    show ?thesis
    proof (cases "finished P")
      case True
      with lead show ?thesis by (auto simp: stack 2 finished_iff)
    next
      case False
      then have "stack' = at_point A (Leading (fst (advance (crash_net N D) P w))) # rest"
        "w' = snd (advance (crash_net N D) P w)"
        using lead by (auto simp: finished_def split: phase.splits)
      with remaining_turn [of "crash_net N D" P w, OF _ False] show ?thesis by (auto simp: stack 2)
    qed
  next
    case 3
    with \<open>reply stack = None\<close> so obtain B where rest: "rest = [B]" "ac_point B = Forwarded Deliver"
      by (auto simp: stack elim: stack_ok.elims)
    from turn_resume [OF 3 rest(2)] turn show ?thesis by (auto simp: stack rest(1) 3)
  qed
qed

lemma move_effort:
  assumes ok: "clients_ok K N S D l n M (cs, w, h)" and i: "i < length cs"
    and m: "move (crash_net N D) i (cs, w, h) = (cs', w', h')"
  shows "\<And>q. static w' q = static w q"
    and "\<exists>c. cs' = cs[i := c] \<and> (answered (cs ! i) \<or>
      turns_left (card S) w' c < turns_left (card S) w (cs ! i))"
proof -
  have "(\<forall>q. static w' q = static w q) \<and> (\<exists>c. cs' = cs[i := c] \<and> (answered (cs ! i) \<or>
      turns_left (card S) w' c < turns_left (card S) w (cs ! i)))"
  proof (cases "cs ! i")
    case (Returned addr j s r)
    with m have "cs' = cs" "w' = w" "answered (cs ! i)" by (simp_all add: move_def answered_def)
    moreover have "cs[i := cs ! i] = cs" by simp
    ultimately show ?thesis by metis
  next
    case (Waiting addr j f stack)
    show ?thesis
    proof (cases "reply stack")
      case None
      obtain stack' w1 where turn: "turn (crash_net N D) (stack, w) = (stack', w1)" by fastforce
      with m Waiting None have "cs' = cs[i := Waiting addr j f stack']" "w' = w1" by (auto simp: move_def)
      with turns_left_waiting [OF ok i Waiting None turn] turn_static [of "crash_net N D" stack w] turn
      show ?thesis by (auto simp: Waiting)
    next
      case (Some sr)
      then have "0 < turns_left (card S) w (cs ! i)"
        using turns_left_0 [of "card S" w "cs ! i"] by (simp add: Waiting answered_def)
      with m Waiting Some show ?thesis by (auto simp: move_def split: prod.splits)
    qed
  qed
  then show "\<And>q. static w' q = static w q" and "\<exists>c. cs' = cs[i := c] \<and> (answered (cs ! i) \<or>
      turns_left (card S) w' c < turns_left (card S) w (cs ! i))" by blast+
qed

lemma moves_finish:
  assumes "users_ok K N S D l n M (cs, w, h)" and "\<forall>i < length cs. turns_left (card S) w (cs ! i) \<le> count_list sched i"
    and "moves_of (crash_net N D) sched (cs, w, h) = (cs', w', h')"
  shows "length cs' = length cs \<and> (\<forall>c \<in> set cs'. answered c)"
  using assms
proof (induction sched arbitrary: cs w h)
  case Nil
  then show ?case by (auto simp: turns_left_0 in_set_conv_nth)
next
  case (Cons i sched)
  show ?case
  proof (cases "i < length cs")
    case True
    obtain cs1 w1 h1 where m: "move (crash_net N D) i (cs, w, h) = (cs1, w1, h1)" by (metis prod_cases3)
    from Cons.prems(1) have ok: "clients_ok K N S D l n M (cs, w, h)" by (simp add: users_ok_def)
    note effort = move_effort [OF ok True m]
    from effort(2) obtain c where c: "cs1 = cs[i := c]"
      and less: "answered (cs ! i) \<or> turns_left (card S) w1 c < turns_left (card S) w (cs ! i)" by blast
    have "client_step (crash_net N D) M (within_keys K N S) (cs, w, h) (cs1, w1, h1)"
      using moves [OF True, of "crash_net N D" M "within_keys K N S" w h] by (simp add: m)
    with users.inv_step Cons.prems(1) have ok1: "users_ok K N S D l n M (cs1, w1, h1)" by blast
    have "turns_left (card S) w1 (cs1 ! j) \<le> count_list sched j" if "j < length cs1" for j
    proof (cases "j = i")
      case True
      show ?thesis
      proof (cases "answered (cs ! i)")
        case True
        then have "cs1 = cs" "w1 = w" using m by (auto simp: move_def answered_iff)
        with True \<open>j = i\<close> show ?thesis using turns_left_0 [of "card S" w "cs ! i"] by simp
      next
        case False
        with less Cons.prems(2) \<open>i < length cs\<close> show ?thesis by (fastforce simp: c \<open>j = i\<close>)
      qed
    next
      case False
      with that c turns_left_static [OF effort(1)] Cons.prems(2) show ?thesis by (auto split: if_splits)
    qed
    with Cons.IH [OF ok1] Cons.prems(3) True show ?thesis by (simp add: m c)
  next
    case False
    have "turns_left (card S) w (cs ! j) \<le> count_list sched j" if "j < length cs" for j
      using Cons.prems(2) that False by (fastforce split: if_splits)
    with Cons.IH [OF Cons.prems(1)] Cons.prems(3) False show ?thesis by simp
  qed
qed

lemma turns_left_bound:
  assumes "clients_ok K N S D l n M (cs, w, h)" and "i < length cs"
  shows "turns_left (card S) w (cs ! i) \<le> 4 * card S + 10"
proof (cases "cs ! i")
  case (Returned addr j s r)
  then show ?thesis by simp
next
  case (Waiting addr j f stack)
  show ?thesis
  proof (cases stack)
    case Nil
    with Waiting show ?thesis by simp
  next
    case (Cons A rest)
    from clients_okD(2) [OF assms] have so: "stack_ok (S - D) l j (A # rest)" by (simp add: Waiting Cons)
    then have len: "length rest \<le> 1" by (auto elim: stack_ok.elims)
    have "remaining w P \<le> 4 * card S + 5" if P: "ac_point A = Leading P" for P
    proof -
      have lead: "leading (cs ! i) = Some P" by (simp add: Waiting Cons P)
      obtain d where tr: "on_track N S D d P w" by (rule leading_track [OF assms lead])
      then have con: "connected N S w" and at: "pr_at P \<in> S" by (simp_all add: on_track_def)
      show ?thesis
      proof (cases "pr_phase P = Ready")
        case True
        with connectedD(5) [OF con at] show ?thesis by (simp add: remaining_def)
      next
        case False
        with tr connectedD(5) [OF con at] have n: "length (pr_members P) = card S" by (simp add: on_track_def)
        have live: "length (live_nodes N D xs) \<le> length xs" for xs by (simp add: live_nodes_def)
        have tried: "length (live_nodes N D tried) + length todo \<le> card S"
          if "pr_members P = tried @ todo" for tried todo
          using that n live [of tried] by simp
        show ?thesis
          using on_track_doing [OF tr] False n live [of "pr_members P"] tried
          by (cases "pr_phase P") (fastforce simp: remaining_def dest: arg_cong [where f = length])+
      qed
    qed
    with len show ?thesis by (auto simp: Waiting Cons split: point.split)
  qed
qed

end
