(* ===== verification/Eras.thy ===== *)
theory Eras
  imports Answers History
begin

text \<open>
  Users of a cluster whose processes crash, the leader among them. An era begins with crashes;
  its first request is served alone, at a process that is alive, and elects a leader when the
  old one is gone; then any number of users overlap until all of them are answered. The
  specification is one map that lives through all eras.
\<close>

subsection \<open>Turns keep the maps of the data sorted\<close>

lemma pass_on_data [simp]: "data (snd (pass_on N addr A waiting failed stack w)) q = data w q"
  by (auto simp: pass_on_def send_job_def Let_def split: option.split)

lemma enter_data [simp]: "data (snd (enter N A stack w)) q = data w q"
  by (simp add: enter_def Let_def data_simps split: option.split job.split)

lemma election_turn_ordered:
  "data (snd (start_election N A stack w)) q = data w q"
  "ordered (data w q) \<Longrightarrow> ordered (data (snd (end_election A f x s response stack w)) q)"
  by (auto simp: start_election_def end_election_def Let_def data_simps procs_update ordered_def
      split: option.split)

lemma turn_data_ordered:
  assumes "ordered (data w q)"
  shows "ordered (data (snd (turn N (stack, w))) q)"
proof (cases stack)
  case Nil
  with assms show ?thesis by (simp add: turn.simps)
next
  case (Cons A rest)
  have adv: "ordered (data (snd (advance N P w)) q)" for P
    using advance_ordered [OF assms, of N P] by (metis prod.collapse)
  show ?thesis
  proof (cases "ac_point A")
    case (Electing f x P)
    with assms adv show ?thesis
      by (cases "pr_phase P") (simp_all add: Cons turn.simps case_prod_beta election_turn_ordered)
  next
    case (Leading P)
    with assms adv show ?thesis by (cases "pr_phase P") (simp_all add: Cons turn.simps case_prod_beta)
  next
    case Elected
    with assms show ?thesis by (simp add: Cons turn.simps split: option.split)
  next
    case (Replied s r)
    with assms show ?thesis by (cases rest) (simp_all add: Cons turn.simps)
  qed (simp_all add: assms Cons turn.simps election_turn_ordered)
qed

lemma invoke_first: "\<exists>c w' h. invoke N p addr j ([], w, []) = ([c], w', h)"
  by (simp add: invoke_def split: prod.split)

lemma invoke_data: "data (fst (snd (invoke N p addr j (cs, w, h)))) q = data w q"
  by (auto simp: invoke_def send_job_def Let_def data_simps split: option.split)

lemma move_ordered:
  "ordered (data w q) \<Longrightarrow> ordered (data (fst (snd (move N i (cs, w, h)))) q)"
  using turn_data_ordered by (auto simp: move_def case_prod_beta split: client.split option.split)

lemma moves_ordered:
  "ordered (data (fst (snd st)) q) \<Longrightarrow> ordered (data (fst (snd (moves_of N is st))) q)"
proof (induction "is" arbitrary: st)
  case (Cons i "is")
  obtain cs w h where st: "st = (cs, w, h)" by (metis prod_cases3)
  with Cons.prems move_ordered [of w q N i cs h] have
    "ordered (data (fst (snd (if i < length (fst st) then move N i st else st))) q)" by simp
  with Cons.IH show ?case by simp
qed simp

subsection \<open>The first request of an era\<close>

lemma moves_of_append: "moves_of N (is @ js) st = moves_of N js (moves_of N is st)"
  by (induction "is" arbitrary: st) simp_all

lemma moves_returned: "moves_of N (replicate k 0) ([Returned addr j s r], w, h) = ([Returned addr j s r], w, h)"
  by (induction k) (simp_all add: move_def)

text \<open>However many turns it is given, a request alone returns the same.\<close>

lemma alone_unique:
  assumes "moves_of N (replicate k 0) st = ([Returned addr j s r], w, h)"
    and "moves_of N (replicate k' 0) st = ([c], w', h')" and "answered c"
  shows "c = Returned addr j s r \<and> w' = w \<and> h' = h"
proof -
  from assms(3) obtain addr' j' s' r' where c: "c = Returned addr' j' s' r'" by (auto simp: answered_iff)
  have "moves_of N (replicate (k + k') 0) st = ([Returned addr j s r], w, h)"
    by (simp only: replicate_add moves_of_append assms(1) moves_returned)
  moreover have "moves_of N (replicate (k' + k) 0) st = ([c], w', h')"
    by (simp only: replicate_add moves_of_append assms(2) c moves_returned)
  ultimately show ?thesis by (simp add: add.commute)
qed

definition may_write :: "job \<Rightarrow> bool" where
  "may_write j \<longleftrightarrow> (case j of Get_job k \<Rightarrow> True | Set_job k v \<Rightarrow> k \<noteq> ''leader'')"

lemma serve_cluster:
  assumes h: "healthy N S D n w d" and n: "Suc n < 2 ^ 31" and q: "q \<in> S - D" and j: "may_write j"
  shows "\<exists>w' d' r. serve 2 (crash_net N D) j False q w = Some (w', Status_OK, r) \<and>
    healthy N S D (n + 2) w' d' \<and> live_leader (S - D) w' d' \<and>
    perform j (map_of (d_kv d)) = (map_of (d_kv d'), Status_OK, r)"
proof (cases j)
  case (Get_job k)
  from get_cluster [OF h Suc_lessD [OF n] q, of 0 "\<lparr>get_key = k\<rparr>"] obtain w' d' where
    "Database_get 2 (crash_net N D) \<lparr>get_key = k\<rparr> False q w =
      Some (w', Status_OK, answer_get \<lparr>get_key = k\<rparr> (d_kv d))"
    "healthy N S D (Suc n) w' d'" "d_kv d' = d_kv d" "live_leader (S - D) w' d'"
    unfolding numeral_2_eq_2 by blast
  moreover from this(2) have "healthy N S D (n + 2) w' d'" by (rule healthy_mono) simp
  ultimately show ?thesis unfolding Get_job perform_get serve.simps by auto
next
  case (Set_job k v)
  with j have "set_key \<lparr>set_key = k, set_value = v\<rparr> \<noteq> ''leader''" by (simp add: may_write_def)
  from set_cluster [OF h n q this, of 0] obtain w' d' where
    "Database_set 2 (crash_net N D) \<lparr>set_key = k, set_value = v\<rparr> False q w = Some (w', Status_OK, ())"
    "healthy N S D (n + 2) w' d'" "d_kv d' = Set_KV k v (d_kv d)" "live_leader (S - D) w' d'"
    unfolding numeral_2_eq_2 by auto
  then show ?thesis
    unfolding Set_job by (intro exI [of _ w'] exI [of _ d']) (simp add: serve.simps map_of_Set_KV)
qed

lemma first_request:
  assumes h: "healthy N S D n w d" and ord: "ordered d" and n: "Suc n < 2 ^ 31"
    and q: "database_route N addr = Some q" "q \<in> S - D" and j: "may_write j"
  shows "\<exists>k w' r d'. moves_of (crash_net N D) (replicate k 0) (invoke (crash_net N D) p addr j ([], w, [])) =
      ([Returned addr j Status_OK r], w', [Call 0 addr j, Return 0 Status_OK r]) \<and>
    healthy N S D (n + 2) w' d' \<and> ordered d' \<and> live_leader (S - D) w' d' \<and>
    perform j (map_of (d_kv d)) = (map_of (d_kv d'), Status_OK, r)"
proof -
  let ?N = "crash_net N D" and ?w = "update p (count_out (stub_name j)) w"
  have "healthy N S D n (tick ?w) d" by (intro healthy_tick healthy_count_out h)
  from serve_cluster [OF this n q(2) j] obtain w' d' r where
    s: "serve 2 ?N j False q (tick ?w) = Some (w', Status_OK, r)" and h': "healthy N S D (n + 2) w' d'"
    and l: "live_leader (S - D) w' d'" "perform j (map_of (d_kv d)) = (map_of (d_kv d'), Status_OK, r)" by blast
  from q(2) have "q \<notin> D" by simp
  from forward_live [where route = "database_route N" and h = "serve 2 ?N j", OF q(1) this s]
  have "forward_job 2 ?N j addr ?w = Some (w', Status_OK, r)" by (simp add: forward_job_def)
  from request_alone [OF this] obtain k where
    k: "moves_of ?N (replicate k 0) (invoke ?N p addr j ([], w, [])) =
      ([Returned addr j Status_OK r], w', [Call 0 addr j, Return 0 Status_OK r])" by blast
  have "ordered (data w q)" using h ord q(2) by (simp add: healthy_def replicas_def)
  then have "ordered (data w' q)"
    using moves_ordered [of "invoke ?N p addr j ([], w, [])" q ?N "replicate k 0"]
    by (simp add: k invoke_data)
  then have "ordered d'" using h' q(2) by (simp add: healthy_def replicas_def)
  with k h' l show ?thesis by blast
qed

lemma first_request_returns:
  assumes "healthy N S D n w d" and "ordered d" and "Suc n < 2 ^ 31"
    and "database_route N addr = Some q" and "q \<in> S - D" and "may_write j"
  obtains k c w' h' d' where
    "moves_of (crash_net N D) (replicate k 0) (invoke (crash_net N D) p addr j ([], w, [])) = ([c], w', h')"
    "answered c" "healthy N S D (n + 2) w' d'" "ordered d'" "live_leader (S - D) w' d'"
proof -
  have "answered (Returned addr j Status_OK r)" for r by (simp add: answered_def)
  with first_request [OF assms, of p] that show thesis by blast
qed

subsection \<open>Requests that overlap, until all are answered\<close>

definition ended :: "atomic_state \<Rightarrow> bool" where
  "ended st \<longleftrightarrow> (\<forall>(addr, j, state) \<in> set (fst (snd st)). state = Gone)"

lemma overlapping_requests:
  assumes h: "healthy N S D n w d" and ord: "ordered d" and l: "live_leader (S - D) w d"
    and n: "n + M \<le> 2 ^ 31"
    and run: "(client_step (crash_net N D) M (one_writer N S))\<^sup>*\<^sup>* ([], w, []) (cs, w', h')"
    and all: "\<forall>c \<in> set cs. answered c"
  shows "\<exists>d' ops. healthy N S D (n + M) w' d' \<and> ordered d' \<and>
    (atomic_step (reachable_address N D))\<^sup>*\<^sup>* (map_of (d_kv d), [], []) (map_of (d_kv d'), ops, h') \<and>
    ended (map_of (d_kv d'), ops, h')"
proof -
  from l obtain l where l: "l \<in> S - D" "d_leader d = self_address (procs w l)"
    by (auto simp: live_leader_def)
  have start: "users_ok UNIV N S D l n M ([], w, [])" by (rule clients_start [OF h l ord n])
  from all_users(1) [OF run start] have ok: "users_ok UNIV N S D l n M (cs, w', h')" .
  then have cok: "clients_ok UNIV N S D l n M (cs, w', h')" by (simp add: users_ok_def)
  have "healthy N S D (n + M) w' (data w' l)"
    by (rule healthy_mono [OF quiet_healthy [OF ok all]]) (simp add: clients_okD(4) [OF cok])
  moreover have "ordered (data w' l)" by (rule clients_okD(6) [OF cok l(1)])
  moreover have "ended (abstract N l (cs, w', h'))"
    using all by (auto simp: ended_def abstract_def abstract_client_def answered_iff)
  moreover have "abstract N l ([], w, []) = (map_of (d_kv d), [], [])"
    using healthy_kv [OF h l(1)] by (simp add: abstract_def)
  ultimately show ?thesis
    using all_users(2) [OF run start]
    by (intro exI [of _ "data w' l"] exI [of _ "map (abstract_client N l) cs"]) (simp add: abstract_def)
qed

lemma overlapping_finish:
  assumes h: "healthy N S D n w d" and ord: "ordered d" and l: "live_leader (S - D) w d"
    and n: "n + M \<le> 2 ^ 31"
    and run: "(client_step (crash_net N D) M (one_writer N S))\<^sup>*\<^sup>* ([], w, []) st"
    and sched: "\<forall>i < length (fst st). 4 * card S + 10 \<le> count_list sched i"
  shows "\<exists>cs w' h'. (client_step (crash_net N D) M (one_writer N S))\<^sup>*\<^sup>* ([], w, []) (cs, w', h') \<and>
    length cs = length (fst st) \<and> (\<forall>c \<in> set cs. answered c)"
proof -
  obtain cs0 w0 h0 where st: "st = (cs0, w0, h0)" by (metis prod_cases3)
  from l obtain l where l: "l \<in> S - D" "d_leader d = self_address (procs w l)"
    by (auto simp: live_leader_def)
  from all_users(1) [OF run clients_start [OF h l ord n]]
  have ok: "users_ok UNIV N S D l n M (cs0, w0, h0)" by (simp add: st)
  then have "\<forall>i < length cs0. turns_left (card S) w0 (cs0 ! i) \<le> count_list sched i"
    using sched turns_left_bound by (fastforce simp: st users_ok_def)
  from moves_finish [OF ok this] rtranclp_trans [OF run moves_of_steps [of _ _ _ _ sched]]
  show ?thesis by (metis st fst_conv prod_cases3)
qed

subsection \<open>Eras\<close>

text \<open>
  The crashed processes and the world after some eras, with what the users saw: for each era
  the processes that are down, the history of the first request and the history of the others.
\<close>

type_synonym era = "nat set \<times> user_event list"

inductive eras :: "Net \<Rightarrow> nat set \<Rightarrow> nat \<Rightarrow> nat set \<times> World \<Rightarrow> era list \<Rightarrow> nat set \<times> World \<Rightarrow> bool"
  for N S M st where
  no_era: "eras N S M st [] st"
| next_era: "eras N S M st es (D, w) \<Longrightarrow> D \<subseteq> D' \<Longrightarrow> card S \<le> 2 * card (S - D') \<Longrightarrow>
    database_route N addr = Some q \<Longrightarrow> q \<in> S - D' \<Longrightarrow> may_write j \<Longrightarrow>
    moves_of (crash_net N D') (replicate k 0) (invoke (crash_net N D') p addr j ([], w, [])) =
      ([c], w1, h1) \<Longrightarrow> answered c \<Longrightarrow>
    (client_step (crash_net N D') M (one_writer N S))\<^sup>*\<^sup>* ([], w1, []) (cs, w2, h2) \<Longrightarrow>
    \<forall>c \<in> set cs. answered c \<Longrightarrow>
    eras N S M st (es @ [(D', h1), (D', h2)]) (D', w2)"

text \<open>One map that lives on from history to history.\<close>

inductive atomic_eras :: "Net \<Rightarrow> (string \<Rightarrow> string option) \<Rightarrow> era list \<Rightarrow> (string \<Rightarrow> string option) \<Rightarrow> bool"
  for N m where
  no_history: "atomic_eras N m [] m"
| next_history: "atomic_eras N m es m1 \<Longrightarrow>
    (atomic_step (reachable_address N D))\<^sup>*\<^sup>* (m1, [], []) (m2, ops, h) \<Longrightarrow> ended (m2, ops, h) \<Longrightarrow>
    atomic_eras N m (es @ [(D, h)]) m2"

lemma atomic_alone:
  assumes "up addr" and "perform j m = (m', s, r)"
  shows "(atomic_step up)\<^sup>*\<^sup>* (m, [], []) (m', [(addr, j, Gone)], [Call 0 addr j, Return 0 s r])"
proof -
  have "atomic_step up (m, [], []) (m, [(addr, j, Pending)], [Call 0 addr j])"
    using begins [of up m "[]" "[]" addr j] by simp
  moreover have "atomic_step up (m, [(addr, j, Pending)], [Call 0 addr j])
      (m', [(addr, j, Served s r)], [Call 0 addr j])"
    using takes_effect [of 0 "[(addr, j, Pending)]" addr j up m m' s r] assms by simp
  moreover have "atomic_step up (m', [(addr, j, Served s r)], [Call 0 addr j])
      (m', [(addr, j, Gone)], [Call 0 addr j, Return 0 s r])"
    using ends [of 0 "[(addr, j, Served s r)]" addr j s r up m' "[Call 0 addr j]"] by simp
  ultimately show ?thesis by (meson r_into_rtranclp rtranclp_trans)
qed

lemma healthy_crashes:
  "healthy N S D n w d \<Longrightarrow> D \<subseteq> D' \<Longrightarrow> card S \<le> 2 * card (S - D') \<Longrightarrow> healthy N S D' n w d"
  by (auto simp: healthy_def replicas_def)

lemma eras_atomic:
  assumes "eras N S M (D, w) es st" and h: "healthy N S D n w d" and ord: "ordered d"
    and "n + length es * (M + 1) < 2 ^ 31"
  shows "\<exists>d'. healthy N S (fst st) (n + length es * (M + 1)) (snd st) d' \<and> ordered d' \<and>
    atomic_eras N (map_of (d_kv d)) es (map_of (d_kv d'))"
  using assms(1,4)
proof induction
  case no_era
  with h ord show ?case by (auto intro: atomic_eras.no_history)
next
  case (next_era es D w D' addr q j k p c w1 h1 cs w2 h2)
  let ?n = "n + length es * (M + 1)" and ?N = "crash_net N D'"
  from next_era.prems have n: "?n + 2 * M + 2 < 2 ^ 31" by simp
  from next_era.IH n obtain d0 where h0: "healthy N S D ?n w d0" "ordered d0"
    and m0: "atomic_eras N (map_of (d_kv d)) es (map_of (d_kv d0))" by auto
  have "healthy N S D' ?n w d0" by (rule healthy_crashes [OF h0(1)]) (use next_era.hyps in simp_all)
  from first_request [OF this h0(2) _ next_era.hyps(4-6), of p] n obtain k' w1' r d1 where
    run: "moves_of ?N (replicate k' 0) (invoke ?N p addr j ([], w, [])) =
      ([Returned addr j Status_OK r], w1', [Call 0 addr j, Return 0 Status_OK r])"
    and h1: "healthy N S D' (?n + 2) w1' d1" "ordered d1" "live_leader (S - D') w1' d1"
    and eff: "perform j (map_of (d_kv d0)) = (map_of (d_kv d1), Status_OK, r)" by auto
  from alone_unique [OF run next_era.hyps(7,8)]
  have w1: "w1 = w1'" "h1 = [Call 0 addr j, Return 0 Status_OK r]" by simp_all
  have "?n + 2 + M \<le> 2 ^ 31" using n by simp
  from overlapping_requests [OF h1 this next_era.hyps(9) [unfolded w1(1)] next_era.hyps(10)]
  obtain d2 ops where h2: "healthy N S D' (?n + 2 + M) w2 d2" "ordered d2"
    and run2: "(atomic_step (reachable_address N D'))\<^sup>*\<^sup>* (map_of (d_kv d1), [], [])
      (map_of (d_kv d2), ops, h2)" "ended (map_of (d_kv d2), ops, h2)" by blast
  have "reachable_address N D' addr" using next_era.hyps(4,5) by (simp add: reachable_address_def)
  from next_history [OF m0 atomic_alone [where up = "reachable_address N D'", OF this eff]]
  have "atomic_eras N (map_of (d_kv d)) (es @ [(D', h1)]) (map_of (d_kv d1))"
    unfolding w1(2) by (simp add: ended_def)
  from next_history [OF this run2]
  have "atomic_eras N (map_of (d_kv d)) (es @ [(D', h1), (D', h2)]) (map_of (d_kv d2))" by simp
  moreover have "healthy N S D' (n + length (es @ [(D', h1), (D', h2)]) * (M + 1)) w2 d2"
    by (rule healthy_mono [OF h2(1)]) simp
  ultimately show ?case using h2(2) by auto
qed

end
