(* ===== verification/Leader_Crash.thy ===== *)
theory Leader_Crash
  imports Eras
begin

text \<open>
  The leader crashes while it serves requests. The writes that were under way are cut, and the
  live processes may differ in the keys of these writes, in their logs as in their stores. Of
  all other keys they agree (\<open>settled\<close>), which is enough for an election and for requests that
  write other keys. What was acknowledged before the crash is in the store of every live process.
\<close>

subsection \<open>An attempt in a settled world\<close>

lemma settled_same:
  assumes "settled K N S D n w" and "\<And>q. static w' q = static w q" and "\<And>q. data w' q = data w q"
  shows "settled K N S D n w'"
  using assms(1) connected_static [OF assms(2)] by (simp add: settled_def stage_def assms(3))

lemma settled_commit:
  assumes s: "settled K N S D n w" and st: "\<And>q. static w' q = static w q"
    and dt: "\<And>q. q \<in> S - D \<Longrightarrow> data w' q = commit_data r (data w q)"
  shows "settled K N S D (Suc n) w'"
proof -
  have "\<exists>d'. log_full (d_log d') \<and> rounds (d_log d') k \<le> Suc n \<and> stage N (S - D) k d' d' [] w'"
    if k: "k \<in> K" for k
  proof -
    from s k obtain d where d: "log_full (d_log d)" "rounds (d_log d) k \<le> n"
      and st: "stage N (S - D) k d d [] w" by (auto simp: settled_def)
    have "slot k (data w' q) = slot k (commit_data r d)" if "q \<in> S - D" for q
      using slot_commit_cong [of k "data w q" d r] st that by (simp add: stage_def dt)
    with d log_full_accept [OF d(1)] show ?thesis
      by (intro exI [of _ "commit_data r d"]) (auto simp: stage_def)
  qed
  then show ?thesis
    using s connected_static [OF st] by (simp add: settled_def dt ordered_commit)
qed

lemma solo_kept:
  assumes "(solo (crash_net N D) ^^ m) (P, w) = (P', w')" and "on_track N S D d P w"
  shows "on_track N S D d P' w' \<and> pr_request P' = pr_request P \<and>
    (\<forall>q. static w' q = static w q) \<and> (\<forall>q. ordered (data w q) \<longrightarrow> ordered (data w' q)) \<and>
    (\<forall>q k. k \<noteq> req_key (pr_request P) \<longrightarrow> slot k (data w' q) = slot k (data w q))"
  using assms
proof (induction m arbitrary: P w)
  case 0
  then show ?case by simp
next
  case (Suc m)
  obtain P1 w1 where adv: "advance (crash_net N D) P w = (P1, w1)" by fastforce
  then have "solo (crash_net N D) (P, w) = (P1, w1)" by (simp add: solo_def)
  with Suc.prems(1) have "(solo (crash_net N D) ^^ m) (P1, w1) = (P', w')" by (simp add: funpow_swap1)
  from Suc.IH [OF this on_track_turn [OF Suc.prems(2) adv]] show ?case
    using advance_frame(1,2) [OF adv] advance_ordered [OF _ adv] advance_slot_other [OF adv] by simp
qed

lemma settled_attempt:
  assumes s: "settled K N S D n w" and n: "n < 2 ^ 31" and p: "p \<in> S - D" and k: "req_key r \<in> K"
    and att: "AttemptConsensus (crash_net N D) p r w = (w', s, response)"
  shows "s = Status_OK" and "resp_value response = req_value r"
    and "settled K N S D (Suc n) w'" and "\<And>q. static w' q = static w q"
    and "\<And>q. q \<in> S - D \<Longrightarrow> data w' q = commit_data r (data w q)"
proof -
  from s k obtain d where d: "log_full (d_log d)" "rounds (d_log d) (req_key r) \<le> n"
    and sg: "stage N (S - D) (req_key r) d d [] w" by (auto simp: settled_def)
  have tr: "on_track N S D d (ready p r) w"
    using s d n p sg by (simp add: on_track_def settled_def ready_def)
  from alone_attempt [OF att] obtain m P' where "(solo (crash_net N D) ^^ m) (ready p r, w) = (P', w')"
    and ph: "pr_phase P' = Finished s response" by (auto simp: runs_to_def)
  from solo_kept [OF this(1) tr] have tr': "on_track N S D d P' w'" and req: "pr_request P' = r"
    and st: "\<And>q. static w' q = static w q" and ord: "\<And>q. ordered (data w q) \<Longrightarrow> ordered (data w' q)"
    and oth: "\<And>q k. k \<noteq> req_key r \<Longrightarrow> slot k (data w' q) = slot k (data w q)"
    by (simp_all add: ready_def)
  show "s = Status_OK" by (rule on_track_finished(1) [OF tr' ph])
  show "resp_value response = req_value r" using on_track_doing [OF tr'] by (simp add: ph req echo_def)
  show "static w' q = static w q" for q by (rule st)
  show dt: "data w' q = commit_data r (data w q)" if q: "q \<in> S - D" for q
  proof (rule slots_determine)
    have o: "ordered (data w q)" using s q by (simp add: settled_def)
    show "ordered (data w' q)" "ordered (commit_data r (data w q))" by (rule ord [OF o] ordered_commit [OF o])+
    fix k
    show "slot k (data w' q) = slot k (commit_data r (data w q))"
    proof (cases "k = req_key r")
      case True
      have "slot k (data w' q) = slot k (commit_data r d)"
        using on_track_finished(2) [OF tr' ph] q by (simp add: stage_def req True)
      also have "\<dots> = slot k (commit_data r (data w q))"
        using sg q by (intro slot_commit_cong) (simp add: stage_def True)
      finally show ?thesis .
    next
      case False
      with oth slot_commit_other [of r k] show ?thesis by simp
    qed
  qed
  show "settled K N S D (Suc n) w'" by (rule settled_commit [OF s st dt])
qed

subsection \<open>The first request after the crash\<close>

definition all_follow :: "nat set \<Rightarrow> nat \<Rightarrow> World \<Rightarrow> bool" where
  "all_follow L l w \<longleftrightarrow> (\<forall>q \<in> L. leader (procs w q) = self_address (procs w l))"

lemma all_follow_same:
  "all_follow L l w \<Longrightarrow> (\<And>q. static w' q = static w q) \<Longrightarrow> (\<And>q. data w' q = data w q) \<Longrightarrow> all_follow L l w'"
  unfolding all_follow_def by (metis data_of_sel(3) self_address_static)

lemma settled_election:
  assumes s: "settled K N S D n w" and n: "n < 2 ^ 31" and p: "p \<in> S - D" and k: "''leader'' \<in> K"
  obtains w' where "trigger_election (crash_net N D) p w = (w', Status_OK, ())"
    "settled K N S D (Suc n) w'" "all_follow (S - D) p w'" "\<And>q. static w' q = static w q"
    "\<And>q. q \<in> S - D \<Longrightarrow> kv_store (procs w' q) = kv_store (procs w q)"
proof -
  let ?a = "self_address (procs w p)"
  define w1 where "w1 = update p (count_in ''ConsensusRPC::elect_leader'')
    (tick (update p (count_out ''ConsensusRPCWrapperCall::trigger_election'') w))"
  have d1: "data w1 q = data w q" and s1: "static w1 q = static w q" for q
    by (simp_all add: w1_def data_simps frame_simps)
  obtain w2 s2 response where
    att: "AttemptConsensus (crash_net N D) p (election_request ?a) w1 = (w2, s2, response)"
    by (cases "AttemptConsensus (crash_net N D) p (election_request ?a) w1")
  have "req_key (election_request ?a) \<in> K" using k by (simp add: election_request_def)
  note a = settled_attempt [OF settled_same [OF s s1 d1] n p this att]
  have "p \<in> S" using p by simp
  with s connectedD(6) have "consensus_route N (consensusEndpoint (currentNode (procs w p))) = Some p"
    by (auto simp: settled_def routed_def)
  moreover have "self_address (procs (update p (count_out f) w) p) = ?a" for f
    by (simp add: self_address_def procs_update)
  ultimately have tr: "trigger_election (crash_net N D) p w = (update p (\<lambda>P. P\<lparr>leader := ?a\<rparr>) w2, Status_OK, ())"
    using p att a(1,2)
    by (simp add: trigger_election_def stub_trigger_election_def Let_def rpc_send_def
        elect_leader_def w1_def election_request_def)
  let ?w = "update p (\<lambda>P. P\<lparr>leader := ?a\<rparr>) w2"
  have st: "static ?w q = static w q" for q by (simp only: data_update_leader a(4) s1)
  have w2: "data w2 q = commit_data (election_request ?a) (data w q)" if "q \<in> S - D" for q
    using a(5) [OF that] by (simp add: d1)
  then have l: "d_leader (data w2 q) = ?a" if "q \<in> S - D" for q
    using that by (simp add: election_request_def)
  have "d\<lparr>d_leader := a\<rparr> = d" if "d_leader d = a" for d :: Data and a using that by (cases d) simp
  from this [OF l [OF p]] have dt: "data ?w q = data w2 q" for q by (simp add: data_update_leader)
  have "settled K N S D (Suc n) ?w" by (rule settled_same [OF a(3) data_update_leader(2) dt])
  moreover have "all_follow (S - D) p ?w"
    using l dt unfolding all_follow_def by (metis data_of_sel(3) self_address_static st)
  moreover have "kv_store (procs ?w q) = kv_store (procs w q)" if "q \<in> S - D" for q
  proof -
    have "d_kv (data ?w q) = d_kv (data w q)" using w2 [OF that] by (simp add: dt election_request_def)
    then show ?thesis by (simp add: data_of_def)
  qed
  ultimately show thesis using that tr st by blast
qed

text \<open>A request writes a key of \<open>K\<close>, if any.\<close>

definition writes_in :: "string set \<Rightarrow> job \<Rightarrow> bool" where
  "writes_in K j \<longleftrightarrow> (case j of Get_job k \<Rightarrow> True | Set_job k v \<Rightarrow> k \<in> K \<and> k \<noteq> ''leader'')"

lemma settled_mono: "settled K N S D n w \<Longrightarrow> n \<le> m \<Longrightarrow> settled K N S D m w"
  unfolding settled_def by (meson le_trans)

lemma settled_at_leader:
  assumes s: "settled K N S D n w" and n: "n < 2 ^ 31" and p: "p \<in> S - D"
    and f: "all_follow (S - D) p w" and j: "writes_in K j"
  shows "\<exists>w' r. serve (Suc fuel) (crash_net N D) j False p w = Some (w', Status_OK, r) \<and>
    settled K N S D (Suc n) w' \<and> all_follow (S - D) p w' \<and>
    perform j (map_of (kv_store (procs w p))) = (map_of (kv_store (procs w' p)), Status_OK, r)"
proof -
  let ?w = "update p (count_in (handler_name j)) w"
  have st: "static ?w q = static w q" and dt: "data ?w q = data w q" for q
    by (simp_all add: data_simps frame_simps)
  note s1 = settled_same [OF s st dt] and f1 = all_follow_same [OF f st dt]
  from s p have a: "self_address (procs w p) \<noteq> ''''" by (auto simp: settled_def dest: connectedD(7))
  from f p have lead: "leader (procs w p) = self_address (procs w p)" by (simp add: all_follow_def)
  show ?thesis
  proof (cases j)
    case (Get_job k)
    with a lead s1 f1 settled_mono [OF s1, of "Suc n"] show ?thesis
      by (intro exI [of _ ?w] exI [of _ "answer_get \<lparr>get_key = k\<rparr> (kv_store (procs w p))"])
        (simp add: serve_Suc Let_def local_get_answer perform_get del: perform.simps)
  next
    case (Set_job k v)
    let ?r = "set_request \<lparr>set_key = k, set_value = v\<rparr>"
    obtain w' s' response where att: "AttemptConsensus (crash_net N D) p ?r ?w = (w', s', response)"
      by (metis prod_cases3)
    from j have k: "req_key ?r \<in> K" "k \<noteq> ''leader''" by (simp_all add: Set_job writes_in_def)
    note a' = settled_attempt [OF s1 n p k(1) att]
    have d': "data w' q = commit_data ?r (data w q)" if "q \<in> S - D" for q using a'(5) [OF that] dt by simp
    have "d_kv (data w' p) = Set_KV k v (d_kv (data w p))" using d' [OF p] k(2) by simp
    then have "map_of (kv_store (procs w' p)) = (map_of (kv_store (procs w p)))(k \<mapsto> v)"
      by (simp add: map_of_Set_KV)
    moreover have "d_leader (data w' q) = d_leader (data w q)" if "q \<in> S - D" for q
      using d' [OF that] k(2) by simp
    then have "all_follow (S - D) p w'"
      using f a'(4) self_address_static [OF trans [OF a'(4) st]] by (simp add: all_follow_def)
    ultimately show ?thesis
      using a lead a'(1,3) att by (simp add: serve_Suc Let_def Set_job)
  qed
qed

lemma settled_first:
  assumes s: "settled K N S D n w" and n: "Suc n < 2 ^ 31" and p: "p \<in> S - D"
    and l: "l \<in> S \<inter> D" and f: "all_follow (S - D) l w" and k: "''leader'' \<in> K" and j: "writes_in K j"
  shows "\<exists>w' r. serve (Suc (Suc fuel)) (crash_net N D) j False p w = Some (w', Status_OK, r) \<and>
    settled K N S D (n + 2) w' \<and> all_follow (S - D) p w' \<and>
    perform j (map_of (kv_store (procs w p))) = (map_of (kv_store (procs w' p)), Status_OK, r)"
proof -
  let ?N = "crash_net N D"
  let ?w = "update p (count_in (handler_name j)) w"
  have st: "static (tick ?w) q = static w q" and dt: "data (tick ?w) q = data w q" for q
    by (simp_all add: data_simps frame_simps)
  from s have con: "connected N S w" by (simp add: settled_def)
  from l p have lp: "l \<in> S" "l \<in> D" "p \<in> S" "p \<noteq> l" by auto
  from f p have lead: "leader (procs w p) = self_address (procs w l)" by (simp add: all_follow_def)
  from connectedD(7) [OF con lp(1)] self_address_inject [OF con lp(3,1)] lp(4)
  have a: "self_address (procs w l) \<noteq> ''''" "self_address (procs w l) \<noteq> self_address (procs w p)" by auto
  from connected_lookup [OF con lp(3,1)] obtain node where
    node: "map_of (memberList (procs w p)) (self_address (procs w l)) = Some node"
    "database_route N (databaseEndpoint node) = Some l" by blast
  from n have "n < 2 ^ 31" by simp
  from settled_election [OF settled_same [OF s st dt] this p k] obtain w1 where
    el: "trigger_election ?N p (tick ?w) = (w1, Status_OK, ())"
    and s1: "settled K N S D (Suc n) w1" and f1: "all_follow (S - D) p w1"
    and kv: "kv_store (procs w1 p) = kv_store (procs w p)" by (metis p dt data_of_sel(2))
  have "connected N S w1" using s1 by (simp add: settled_def)
  from connected_lookup [OF this lp(3,3)] obtain node1 where
    node1: "map_of (memberList (procs w1 p)) (self_address (procs w1 p)) = Some node1"
    "database_route N (databaseEndpoint node1) = Some p" by blast
  have lead1: "leader (procs w1 p) = self_address (procs w1 p)" using f1 p by (simp add: all_follow_def)
  from settled_at_leader [OF settled_same [OF s1] n p all_follow_same [OF f1] j, of "tick w1" fuel]
  obtain w2 r where sv: "serve (Suc fuel) ?N j False p (tick w1) = Some (w2, Status_OK, r)"
    and s2: "settled K N S D (n + 2) w2" and f2: "all_follow (S - D) p w2"
    and eff: "perform j (map_of (kv_store (procs w p))) = (map_of (kv_store (procs w2 p)), Status_OK, r)"
    by (auto simp: kv)
  have "p \<notin> D" using p by simp
  from forward_live [where route = "database_route N" and h = "serve (Suc fuel) ?N j", OF node1(2) this sv]
  have "forward_job (Suc fuel) ?N j (databaseEndpoint node1) w1 = Some (w2, Status_OK, r)"
    by (simp add: forward_job_def)
  then have "retry_job (Suc fuel) ?N j p (tick ?w) = Some (w2, Status_OK, r)"
    by (simp add: retry_job_def el lead1 node1(1))
  moreover have "forward_job (Suc fuel) ?N j (databaseEndpoint node) ?w =
      Some (tick ?w, unavailable, default_GetResponse)"
    unfolding forward_job_def using forward_dead [where route = "database_route N", OF node(2) lp(2)] by simp
  ultimately have "serve (Suc (Suc fuel)) ?N j False p w = Some (w2, Status_OK, r)"
    using a lead node(1) by (simp add: serve_Suc [of "Suc fuel"] Let_def)
  with s2 f2 eff show ?thesis by blast
qed

text \<open>The same request as its user makes it.\<close>

lemma settled_request:
  assumes s: "settled K N S D n w" and n: "Suc n < 2 ^ 31"
    and q: "database_route N addr = Some q" "q \<in> S - D"
    and l: "l \<in> S \<inter> D" and f: "all_follow (S - D) l w" and k: "''leader'' \<in> K" and j: "writes_in K j"
  shows "\<exists>t w' r. moves_of (crash_net N D) (replicate t 0) (invoke (crash_net N D) p addr j ([], w, [])) =
      ([Returned addr j Status_OK r], w', [Call 0 addr j, Return 0 Status_OK r]) \<and>
    settled K N S D (n + 2) w' \<and> all_follow (S - D) q w' \<and>
    perform j (map_of (kv_store (procs w q))) = (map_of (kv_store (procs w' q)), Status_OK, r)"
proof -
  let ?N = "crash_net N D" and ?w = "update p (count_out (stub_name j)) w"
  have st: "static (tick ?w) x = static w x" and dt: "data (tick ?w) x = data w x" for x
    by (simp_all add: data_simps frame_simps)
  from settled_first [OF settled_same [OF s st dt] n q(2) l all_follow_same [OF f st dt] k j, of 0]
  obtain w' r where sv: "serve 2 ?N j False q (tick ?w) = Some (w', Status_OK, r)"
    and s': "settled K N S D (n + 2) w'" "all_follow (S - D) q w'"
    and eff: "perform j (map_of (kv_store (procs w q))) = (map_of (kv_store (procs w' q)), Status_OK, r)"
    unfolding numeral_2_eq_2 by (metis dt data_of_sel(2))
  from q(2) have "q \<notin> D" by simp
  from forward_live [where route = "database_route N" and h = "serve 2 ?N j", OF q(1) this sv]
  have "forward_job 2 ?N j addr ?w = Some (w', Status_OK, r)" by (simp add: forward_job_def)
  from request_alone [OF this] s' eff show ?thesis by blast
qed

subsection \<open>What was acknowledged\<close>

text \<open>The map that the acknowledged writes of a history leave, with the jobs that were called.\<close>

fun noted :: "user_event \<Rightarrow> job list \<times> (string \<Rightarrow> string option) \<Rightarrow> job list \<times> (string \<Rightarrow> string option)" where
  "noted (Call i addr j) (js, m) = (js @ [j], m)"
| "noted (Return i s r) (js, m) = (js, if ok s then fst (perform (js ! i) m) else m)"

definition acknowledged :: "(string \<Rightarrow> string option) \<Rightarrow> user_event list \<Rightarrow> string \<Rightarrow> string option" where
  "acknowledged m h = snd (fold noted h ([], m))"

text \<open>The key and the value of a write that is being served.\<close>

fun under_way :: "client \<Rightarrow> (string \<times> string) option" where
  "under_way (Waiting addr (Set_job k v) f (A # stack)) = Some (k, v)"
| "under_way c = None"

lemma under_way_iff:
  "under_way c = Some (k, v) \<longleftrightarrow> (\<exists>addr f A stack. c = Waiting addr (Set_job k v) f (A # stack))"
  by (cases c rule: under_way.cases) auto

text \<open>Every live store has the acknowledged value of a key or one that is being written, and a
  write that has left the leader is in every live store.\<close>

definition durable ::
    "nat set \<Rightarrow> (string \<Rightarrow> string option) \<Rightarrow> clients \<Rightarrow> bool" where
  "durable L m st = (case st of (cs, w, h) \<Rightarrow>
     fst (fold noted h ([], m)) = map (snd \<circ> operation_of) cs \<and>
     (\<forall>q \<in> L. \<forall>k. map_of (d_kv (data w q)) k = acknowledged m h k \<or>
        (\<exists>c \<in> set cs. \<exists>v. under_way c = Some (k, v) \<and> map_of (d_kv (data w q)) k = Some v)) \<and>
     (\<forall>c \<in> set cs. \<forall>k v. under_way c = Some (k, v) \<longrightarrow> concluded c \<longrightarrow>
        (\<forall>q \<in> L. map_of (d_kv (data w q)) k = Some v)))"

text \<open>What a turn does to the stores of the live processes. \<open>was\<close> and \<open>now\<close> say whether the
  request had left the leader before and after the turn.\<close>

definition store_effect :: "nat set \<Rightarrow> job \<Rightarrow> bool \<Rightarrow> bool \<Rightarrow> World \<Rightarrow> World \<Rightarrow> bool" where
  "store_effect L j was now w w' \<longleftrightarrow> (was \<longrightarrow> w' = w \<and> now) \<and>
     (\<forall>q \<in> L. map_of (d_kv (data w' q)) = map_of (d_kv (data w q)) \<or>
        (\<exists>k v. j = Set_job k v \<and> map_of (d_kv (data w' q)) = (map_of (d_kv (data w q)))(k \<mapsto> v))) \<and>
     (\<forall>q \<in> L. \<forall>k v. j = Set_job k v \<longrightarrow> now \<longrightarrow> \<not> was \<longrightarrow> map_of (d_kv (data w' q)) k = Some v)"

lemma store_effect_none: "same_state w w' \<Longrightarrow> \<not> was \<Longrightarrow> now \<Longrightarrow> (\<And>k v. j \<noteq> Set_job k v) \<Longrightarrow> store_effect L j was now w w'"
  "same_state w w' \<Longrightarrow> \<not> was \<Longrightarrow> \<not> now \<Longrightarrow> store_effect L j was now w w'"
  by (simp_all add: store_effect_def same_state_def)

lemma entered_kv:
  assumes led: "led_by N S D l w" and A: "ac_at A \<in> S - D" "\<not> ac_cancelled A" "ac_point A = Entered"
    and turn: "turn (crash_net N D) (A # rest, w) = (stack', w')"
  shows "stack' \<noteq> [] \<and> store_effect L (ac_job A) False (concluded (Waiting addr j f stack')) w w'"
proof -
  consider "ac_at A \<noteq> l" | k where "ac_at A = l" "ac_job A = Get_job k"
    | k v where "ac_at A = l" "ac_job A = Set_job k v" by (cases "ac_job A") auto
  then show ?thesis
  proof cases
    case 1
    with turn_forward [OF led A(1) 1 A(3,2)] turn show ?thesis by (auto intro!: store_effect_none(2))
  next
    case 2
    with turn_get [OF led 2 A(3,2)] turn show ?thesis by (auto intro!: store_effect_none(1))
  next
    case 3
    with turn_set [OF led 3 A(3,2)] turn show ?thesis by (auto intro!: store_effect_none(2))
  qed
qed

lemma serving_kv:
  assumes tr: "on_track N S D d P w" and P: "pr_request P = set_request \<lparr>set_key = k, set_value = v\<rparr>"
    and k: "k \<noteq> ''leader''" and A: "ac_point A = Leading P"
    and turn: "turn (crash_net N D) (A # rest, w) = (stack', w')"
  shows "stack' \<noteq> [] \<and> store_effect (S - D) (Set_job k v) False (concluded (Waiting addr j f stack')) w w'"
proof (cases "finished P")
  case False
  obtain P' where adv: "advance (crash_net N D) P w = (P', w')" and res: "stack' = at_point A (Leading P') # rest"
    using turn_lead [OF A, of "crash_net N D" rest w, unfolded turn] False
    by (cases "advance (crash_net N D) P w") (auto simp: finished_def split: phase.splits)
  have "map_of (d_kv (data w' q)) = (if announced N q P' \<and> \<not> announced N q P
      then (map_of (d_kv (data w q)))(k \<mapsto> v) else map_of (d_kv (data w q)))" if "q \<in> S - D" for q
    using advance_kv [OF adv tr that] k by (simp add: P)
  then show ?thesis by (simp add: res store_effect_def)
next
  case True
  then obtain s response where ph: "pr_phase P = Finished s response" by (auto simp: finished_iff)
  with turn_lead [OF A, of "crash_net N D" rest w, unfolded turn]
  have res: "stack' = replies_with A s # rest" and w: "w' = w" by auto
  have "map_of (d_kv (data w q)) k = Some v" if "q \<in> S - D" for q
    using on_track_held [OF tr that] k by (simp add: P held_kv announced_def ph)
  then show ?thesis by (simp add: res w store_effect_def)
qed

lemma turn_kv:
  assumes ok: "clients_ok K N S D l n M (cs, w, h)" and i: "i < length cs"
    and c: "cs ! i = Waiting addr j f stack" and none: "reply stack = None"
    and turn: "turn (crash_net N D) (stack, w) = (stack', w')"
  shows "stack' \<noteq> [] \<and> store_effect (S - D) j (concluded (cs ! i)) (concluded (Waiting addr j f stack')) w w'"
proof -
  note led = clients_okD(1) [OF ok]
  from none obtain A rest where stack: "stack = A # rest" by (cases stack) auto
  from clients_okD(2) [OF ok i] have so: "stack_ok (S - D) l j (A # rest)" by (simp add: c stack)
  then have A: "ac_at A \<in> S - D" "ac_job A = j" "\<not> ac_cancelled A" and sv: "serves (S - D) l j A"
    by (auto simp: serves_def elim: stack_ok.elims)
  from sv consider "ac_point A = Entered" | P where "ac_point A = Leading P"
    | r where "ac_point A = Replied Status_OK r"
    by (auto simp: serves_def split: point.splits)
  then show ?thesis
  proof cases
    case 1
    with entered_kv [OF led A(1,3) 1 turn [unfolded stack], where L = "S - D"] show ?thesis
      by (simp add: c stack A(2))
  next
    case 2
    obtain d where tr: "on_track N S D d P w" by (rule leading_track [OF ok i]) (simp add: c stack 2)
    from sv 2 obtain k v where j: "j = Set_job k v"
      and P: "pr_request P = set_request \<lparr>set_key = k, set_value = v\<rparr>"
      by (auto simp: serves_def split: job.splits)
    have "k \<noteq> ''leader''" using clients_okD(3) [OF ok] i c j by (auto simp: apart_def)
    from serving_kv [OF tr P this 2 turn [unfolded stack]] show ?thesis by (simp add: c stack 2 j)
  next
    case 3
    with none so obtain B where rest: "rest = [B]" "ac_point B = Forwarded Deliver"
      by (auto simp: stack elim: stack_ok.elims)
    from turn_resume [OF 3 rest(2)] turn show ?thesis by (auto simp: stack rest(1) c 3 store_effect_def)
  qed
qed

lemma kept_in_update: "c \<in> set cs \<Longrightarrow> c \<noteq> cs ! i \<Longrightarrow> c \<in> set (cs[i := c'])"
  by (metis in_set_conv_nth length_list_update nth_list_update_neq)

lemma in_update:
  assumes "c \<in> set (cs[i := c'])"
  obtains "c = c'" | i' where "i' < length cs" "i' \<noteq> i" "c = cs ! i'"
  using assms by (auto simp: in_set_conv_nth) (metis nth_list_update nth_list_update_neq)

lemma durableD:
  assumes "durable L m (cs, w, h)" and "q \<in> L"
  shows "map_of (d_kv (data w q)) k = acknowledged m h k \<or>
      (\<exists>c \<in> set cs. \<exists>v. under_way c = Some (k, v) \<and> map_of (d_kv (data w q)) k = Some v)"
    and "c \<in> set cs \<Longrightarrow> under_way c = Some (k, v) \<Longrightarrow> concluded c \<Longrightarrow> map_of (d_kv (data w q)) k = Some v"
  using assms by (auto simp: durable_def)

lemma durableI:
  assumes "fst (fold noted h ([], m)) = map (snd \<circ> operation_of) cs"
    and "\<And>q k. q \<in> L \<Longrightarrow> map_of (d_kv (data w q)) k = acknowledged m h k \<or>
      (\<exists>c \<in> set cs. \<exists>v. under_way c = Some (k, v) \<and> map_of (d_kv (data w q)) k = Some v)"
    and "\<And>c k v q. c \<in> set cs \<Longrightarrow> under_way c = Some (k, v) \<Longrightarrow> concluded c \<Longrightarrow> q \<in> L \<Longrightarrow>
      map_of (d_kv (data w q)) k = Some v"
  shows "durable L m (cs, w, h)"
  using assms unfolding durable_def by blast

lemma durable_call:
  assumes "durable L m (cs, w, h)"
  shows "durable L m (invoke N p addr j (cs, w, h))"
proof -
  obtain sent w' where sj: "send_job N addr j (update p (count_out (stub_name j)) w) = (sent, w')" by fastforce
  define c where "c = (case sent of None \<Rightarrow> Waiting addr j Drop [] | Some (f, A) \<Rightarrow> Waiting addr j f [A])"
  have inv: "invoke N p addr j (cs, w, h) = (cs @ [c], w', h @ [Call (length cs) addr j])"
    by (simp add: invoke_def sj c_def)
  have "sent = None \<or> (\<exists>f A. sent = Some (f, A) \<and> ac_point A = Entered)"
    using sj by (auto simp: send_job_def Let_def split: option.splits if_splits)
  then have c: "operation_of c = (addr, j)" "\<And>k v. under_way c = Some (k, v) \<Longrightarrow> \<not> concluded c"
    by (auto simp: c_def under_way_iff)
  have dt: "data w' q = data w q" for q using invoke_data [of N p addr j cs w h q] by (simp add: inv)
  obtain js m' where f: "fold noted h ([], m) = (js, m')" by fastforce
  have ack: "acknowledged m (h @ [Call (length cs) addr j]) = acknowledged m h"
    by (simp add: acknowledged_def f)
  show ?thesis
    unfolding inv
  proof (rule durableI)
    show "fst (fold noted (h @ [Call (length cs) addr j]) ([], m)) = map (snd \<circ> operation_of) (cs @ [c])"
      using assms by (simp add: durable_def f c(1))
  qed (use durableD [OF assms] c(2) in \<open>unfold dt ack, fastforce+\<close>)
qed

lemma durable_turn:
  assumes ok: "clients_ok K N S D l n M (cs, w, h)" and i: "i < length cs" and d: "durable (S - D) m (cs, w, h)"
    and c: "cs ! i = Waiting addr j f stack" and none: "reply stack = None"
    and turn: "turn (crash_net N D) (stack, w) = (stack', w')"
  shows "durable (S - D) m (cs[i := Waiting addr j f stack'], w', h)"
proof -
  let ?c = "Waiting addr j f stack'"
  note t = turn_kv [OF ok i c none turn, unfolded store_effect_def]
  have upd: "map_of (d_kv (data w' q)) = map_of (d_kv (data w q)) \<or>
      (\<exists>k v. j = Set_job k v \<and> map_of (d_kv (data w' q)) = (map_of (d_kv (data w q)))(k \<mapsto> v))"
    if "q \<in> S - D" for q using t that by blast
  have jobs: "map (snd \<circ> operation_of) (cs[i := ?c]) = map (snd \<circ> operation_of) cs"
    using i by (simp add: map_update list_update_same_conv) (simp add: c)
  have old: "under_way ?c = under_way (cs ! i)"
    using t none by (cases j; cases stack; cases stack') (auto simp: c)
  have ack: "map_of (d_kv (data w' q)) k = acknowledged m h k \<or>
      (\<exists>c \<in> set (cs[i := ?c]). \<exists>v. under_way c = Some (k, v) \<and> map_of (d_kv (data w' q)) k = Some v)"
    if q: "q \<in> S - D" for q k
  proof -
    have here: "?c \<in> set (cs[i := ?c])" by (rule set_update_memI [OF i])
    show ?thesis
    proof (cases "\<exists>v. j = Set_job k v \<and> map_of (d_kv (data w' q)) k = Some v")
      case True
      then obtain v where "j = Set_job k v" "map_of (d_kv (data w' q)) k = Some v" by blast
      moreover from this have "under_way ?c = Some (k, v)" using t by (cases stack') auto
      ultimately show ?thesis using here by blast
    next
      case False
      with upd [OF q] have same: "map_of (d_kv (data w' q)) k = map_of (d_kv (data w q)) k" by auto
      with durableD(1) [OF d q, of k] here old show ?thesis using kept_in_update by metis
    qed
  qed
  have left: "map_of (d_kv (data w' q)) k = Some v"
    if x: "x \<in> set (cs[i := ?c])" "under_way x = Some (k, v)" "concluded x" and q: "q \<in> S - D" for x k v q
    using x(1)
  proof (cases rule: in_update)
    case 1
    show ?thesis
    proof (cases "concluded (cs ! i)")
      case True
      from durableD(2) [OF d q nth_mem [OF i] _ True] old x(2) 1 t True show ?thesis by simp
    next
      case False
      from x(2) 1 have "j = Set_job k v" by (auto simp: under_way_iff)
      with t q x(3) 1 False show ?thesis by blast
    qed
  next
    case (2 i')
    have "map_of (d_kv (data w q)) k = Some v"
      by (rule durableD(2) [OF d q _ x(2,3)]) (simp add: 2)
    moreover have "writes (cs ! i') = Some k" using x(2) 2 by (auto simp: under_way_iff)
    with clients_okD(3) [OF ok] 2 i have "writes (cs ! i) \<noteq> Some k" unfolding apart_def by blast
    then have "\<forall>v'. j \<noteq> Set_job k v'" by (auto simp: c)
    ultimately show ?thesis using upd [OF q] by auto
  qed
  show ?thesis
    by (rule durableI [OF _ ack left]) (use d jobs in \<open>simp_all add: durable_def\<close>)
qed

lemma durable_return:
  assumes ok: "clients_ok K N S D l n M (cs, w, h)" and i: "i < length cs" and d: "durable (S - D) m (cs, w, h)"
    and c: "cs ! i = Waiting addr j f stack" and r: "reply stack = Some (s, r)"
  shows "durable (S - D) m (cs[i := Returned addr j s r], w, h @ [Return i s r])"
proof -
  let ?c = "Returned addr j s r"
  obtain js m' where f: "fold noted h ([], m) = (js, m')" by fastforce
  from d i c have js: "js = map (snd \<circ> operation_of) cs" "js ! i = j" by (simp_all add: durable_def f)
  have ack: "acknowledged m (h @ [Return i s r]) = (if ok s then fst (perform j (acknowledged m h)) else acknowledged m h)"
    by (simp add: acknowledged_def f js(2))
  have replied: "ok s \<longleftrightarrow> stack \<noteq> []" "stack \<noteq> [] \<Longrightarrow> concluded (cs ! i)"
    using clients_okD(2) [OF ok i] r
    by (auto simp: c serves_def elim!: reply.elims split: point.splits)
  have stores: "map_of (d_kv (data w q)) k = acknowledged m (h @ [Return i s r]) k \<or>
      (\<exists>c \<in> set (cs[i := ?c]). \<exists>v. under_way c = Some (k, v) \<and> map_of (d_kv (data w q)) k = Some v)"
    if q: "q \<in> S - D" for q k
  proof (cases "\<exists>v. under_way (cs ! i) = Some (k, v)")
    case True
    then obtain v where v: "under_way (cs ! i) = Some (k, v)" by blast
    then have "j = Set_job k v" "stack \<noteq> []" by (auto simp: c under_way_iff)
    moreover have "map_of (d_kv (data w q)) k = Some v"
      by (rule durableD(2) [OF d q nth_mem [OF i] v replied(2)]) (rule \<open>stack \<noteq> []\<close>)
    ultimately show ?thesis by (simp add: ack replied(1))
  next
    case False
    then have "ok s \<longrightarrow> fst (perform j (acknowledged m h)) k = acknowledged m h k"
      by (cases j) (auto simp: c replied(1) neq_Nil_conv)
    then have same: "acknowledged m (h @ [Return i s r]) k = acknowledged m h k" by (simp add: ack)
    have "c \<in> set (cs[i := ?c])" if "c \<in> set cs" "under_way c = Some (k, v)" for c v
      by (rule kept_in_update [OF that(1)]) (use that(2) False in auto)
    with durableD(1) [OF d q, of k] show ?thesis unfolding same by blast
  qed
  have left: "map_of (d_kv (data w q)) k = Some v"
    if x: "x \<in> set (cs[i := ?c])" "under_way x = Some (k, v)" "concluded x" and q: "q \<in> S - D" for x k v q
  proof (rule durableD(2) [OF d q _ x(2,3)])
    show "x \<in> set cs" using x(1,2) by (cases rule: in_update) auto
  qed
  have "map (snd \<circ> operation_of) (cs[i := ?c]) = js"
    using i by (simp add: map_update js(1) list_update_same_conv) (simp add: c)
  then have "fst (fold noted (h @ [Return i s r]) ([], m)) = map (snd \<circ> operation_of) (cs[i := ?c])"
    by (simp add: f)
  then show ?thesis using stores left by (rule durableI)
qed

lemma durable_step:
  assumes "client_step (crash_net N D) M admitted st st'" and "clients_ok K N S D l n M st"
    and "durable (S - D) m st"
  shows "durable (S - D) m st'"
  using assms
proof (cases rule: client_step.cases)
  case (call cs addr j w h p)
  with assms(3) durable_call show ?thesis by simp
next
  case (moves i cs w h)
  note ok = assms(2) [unfolded moves] and d = assms(3) [unfolded moves]
  show ?thesis
  proof (cases "cs ! i")
    case (Returned addr j s r)
    with d show ?thesis by (simp add: moves move_def)
  next
    case (Waiting addr j f stack)
    show ?thesis
    proof (cases "reply stack")
      case None
      obtain stack' w' where "turn (crash_net N D) (stack, w) = (stack', w')" by fastforce
      with durable_turn [OF ok moves(3) d Waiting None this] Waiting None show ?thesis
        by (simp add: moves move_def)
    next
      case (Some sr)
      obtain s r where sr: "sr = (s, r)" by (cases sr)
      from clients_okD(2) [OF ok moves(3)] Some have "received f s r = (s, r)"
        by (auto simp: Waiting sr serves_def elim!: reply.elims split: point.splits)
      with durable_return [OF ok moves(3) d Waiting] Some Waiting sr show ?thesis
        by (simp add: moves move_def)
    qed
  qed
qed

lemma durable_run:
  assumes run: "(client_step (crash_net N D) M (one_writer N S))\<^sup>*\<^sup>* st st'"
    and ok: "users_ok UNIV N S D l n M st" and d: "durable (S - D) m st"
  shows "durable (S - D) m st'"
  using run d
proof (induction rule: rtranclp_induct)
  case (step st1 st2)
  from all_users(1) [OF step.hyps(1) ok] have "clients_ok UNIV N S D l n M st1"
    by (cases st1) (simp add: users_ok_def)
  with durable_step [OF step.hyps(2)] step.IH d show ?case by blast
qed

lemma durable_start:
  assumes "healthy N S D n w d"
  shows "durable (S - D) (map_of (d_kv d)) ([], w, [])"
  by (rule durableI) (simp_all add: acknowledged_def healthy_kv [OF assms])

subsection \<open>The crash\<close>

text \<open>A request is cut when all its handlers ran at processes that crash.\<close>

definition cut_by :: "nat set \<Rightarrow> client \<Rightarrow> bool" where
  "cut_by D c = (case c of Returned addr j s r \<Rightarrow> True | Waiting addr j f stack \<Rightarrow> \<forall>A \<in> set stack. ac_at A \<in> D)"

definition cut_keys :: "client list \<Rightarrow> string set" where
  "cut_keys cs = {k. \<exists>c \<in> set cs. writes c = Some k}"

lemma cut_keys_apart: "apart K cs \<Longrightarrow> ''leader'' \<notin> cut_keys cs"
  unfolding apart_def cut_keys_def by (auto simp: in_set_conv_nth) metis

lemma settled_crash:
  assumes ok: "clients_ok UNIV N S D l n M (cs, w, h)" and D: "D \<subseteq> D'"
    and half: "card S \<le> 2 * card (S - D')"
  shows "settled (- cut_keys cs) N S D' (n + M) w"
proof -
  note led = clients_okD(1) [OF ok]
  have "\<exists>d. log_full (d_log d) \<and> rounds (d_log d) k \<le> n + M \<and> stage N (S - D') k d d [] w"
    if k: "k \<notin> cut_keys cs" for k
  proof -
    have "\<not> leads cs k i P" for i P
      using k leading_writes [OF clients_okD(2) [OF ok]] nth_mem unfolding leads_def cut_keys_def by blast
    with clients_okD(5) [OF ok UNIV_I, of k] obtain d where "log_full (d_log d)"
      "rounds (d_log d) k \<le> n + tally cs" "stage N (S - D) k d d [] w" unfolding key_ok_def by blast
    moreover have "n + tally cs \<le> n + M" using tally_le [of cs] clients_okD(4) [OF ok] by simp
    ultimately show ?thesis using D by (intro exI [of _ d]) (auto simp: stage_def)
  qed
  with led D clients_okD(6) [OF ok] half show ?thesis by (auto simp: settled_def led_by_def)
qed

lemma after_crash:
  assumes s: "settled K N S D n w" and n: "n + 2 + M \<le> 2 ^ 31" and k: "''leader'' \<in> K"
    and l: "l \<in> S \<inter> D" and f: "all_follow (S - D) l w"
    and q: "database_route N addr = Some q" "q \<in> S - D" and j: "writes_in K j"
  shows "\<exists>t w' r. moves_of (crash_net N D) (replicate t 0) (invoke (crash_net N D) p addr j ([], w, [])) =
      ([Returned addr j Status_OK r], w', [Call 0 addr j, Return 0 Status_OK r]) \<and>
    all_follow (S - D) q w' \<and>
    perform j (map_of (kv_store (procs w q))) = (map_of (kv_store (procs w' q)), Status_OK, r) \<and>
    (\<forall>cs' w'' h'. (client_step (crash_net N D) M (within_keys K N S))\<^sup>*\<^sup>* ([], w', []) (cs', w'', h') \<longrightarrow>
      (\<exists>ops. atomic_steps N D (map_of (kv_store (procs w' q)), [], [])
        (map_of (kv_store (procs w'' q)), ops, h')))"
proof -
  from n have "Suc n < 2 ^ 31" by simp
  from settled_request [OF s this q l f k j, of p] obtain t w' r where
    t: "moves_of (crash_net N D) (replicate t 0) (invoke (crash_net N D) p addr j ([], w, [])) =
      ([Returned addr j Status_OK r], w', [Call 0 addr j, Return 0 Status_OK r])"
    and s': "settled K N S D (n + 2) w'" "all_follow (S - D) q w'"
    and eff: "perform j (map_of (kv_store (procs w q))) = (map_of (kv_store (procs w' q)), Status_OK, r)"
    by blast
  have "users_ok K N S D q (n + 2) M ([], w', [])"
    by (rule settled_start [OF s'(1) q(2) n]) (use s'(2) in \<open>simp add: all_follow_def\<close>)
  note users.abs_run [OF _ this]
  then have "\<exists>ops. atomic_steps N D (map_of (kv_store (procs w' q)), [], [])
      (map_of (kv_store (procs w'' q)), ops, h')"
    if "(client_step (crash_net N D) M (within_keys K N S))\<^sup>*\<^sup>* ([], w', []) (cs', w'', h')" for cs' w'' h'
    using that by (intro exI [of _ "map (abstract_client N q) cs'"]) (fastforce simp: abstract_def)
  with t s'(2) eff show ?thesis by blast
qed

lemma crash_request:
  assumes ok: "users_ok UNIV N S D l n M (cs, w, h)" and D: "D \<subseteq> D'" "l \<in> D'" "card S \<le> 2 * card (S - D')"
    and n: "n + 2 * M + 2 \<le> 2 ^ 31"
    and q: "database_route N addr = Some q" "q \<in> S - D'" and j: "writes_in (- cut_keys cs) j"
  shows "\<exists>t w' r m. moves_of (crash_net N D') (replicate t 0) (invoke (crash_net N D') p addr j ([], w, [])) =
      ([Returned addr j Status_OK r], w', [Call 0 addr j, Return 0 Status_OK r]) \<and>
    (\<forall>q' \<in> S - D'. leader (procs w' q') = self_address (procs w' q)) \<and>
    perform j (map_of (kv_store (procs w q))) = (m, Status_OK, r) \<and>
    (\<forall>cs' w'' h'. (client_step (crash_net N D') M (within_keys (- cut_keys cs) N S))\<^sup>*\<^sup>*
        ([], w', []) (cs', w'', h') \<longrightarrow>
      (\<exists>ops. atomic_steps N D' (m, [], []) (map_of (kv_store (procs w'' q)), ops, h')))"
proof -
  from ok have cok: "clients_ok UNIV N S D l n M (cs, w, h)" by (simp add: users_ok_def)
  note led = clients_okD(1) [OF cok]
  then have "all_follow (S - D') l w" "l \<in> S \<inter> D'" using D by (auto simp: led_by_def all_follow_def)
  moreover have "''leader'' \<in> - cut_keys cs" using cut_keys_apart [OF clients_okD(3) [OF cok]] by simp
  moreover have "n + M + 2 + M \<le> 2 ^ 31" using n by simp
  ultimately show ?thesis
    using after_crash [OF settled_crash [OF cok D(1,3)] _ _ _ _ q j, of M l p]
    unfolding all_follow_def by blast
qed

end
