(* ===== verification/Example_Users.thy ===== *)
theory Example_Users
  imports Answers Scenarios
begin

text \<open>
  Concrete requests on the example cluster: a write and a read that overlap while one member is
  down, and a write that is acknowledged and then lost.
\<close>

subsection \<open>A concrete run\<close>

text \<open>Three members, the third one down: a write through the second one and a read at the leader.\<close>

definition ex_down :: Net where
  "ex_down = crash_net (ex_net 3) {2}"

definition ex_requests :: clients where
  "ex_requests = invoke ex_down 8 ''h:1001'' (Get_job ''k'')
     (invoke ex_down 9 ''h:1002'' (Set_job ''k'' ''v'') ([], ex_world 3, []))"

definition ex_order :: "nat list" where
  "ex_order = replicate 22 1 @ replicate 22 0"

definition ex_served :: clients where
  "ex_served = moves_of ex_down ex_order ex_requests"

lemma ex_down_routes [simp]: "database_route ex_down = map_of [(''h:1001'', 0), (''h:1002'', 1), (''h:1003'', 2)]"
  by (simp add: ex_down_def)

lemma ex_first: "\<exists>w h c. invoke ex_down 9 ''h:1002'' (Set_job ''k'' ''v'') ([], ex_world 3, []) = ([c], w, h)"
  by (simp add: invoke_def split: prod.split)

lemma ex_requests_made:
  "(client_step ex_down 2 (one_writer (ex_net 3) {0, 1, 2}))\<^sup>*\<^sup>* ([], ex_world 3, []) ex_requests"
  "length (fst ex_requests) = 2"
proof -
  obtain w h c where 1: "invoke ex_down 9 ''h:1002'' (Set_job ''k'' ''v'') ([], ex_world 3, []) = ([c], w, h)"
    using ex_first by blast
  have "client_step ex_down 2 (one_writer (ex_net 3) {0, 1, 2}) ([], ex_world 3, []) ([c], w, h)"
    unfolding 1 [symmetric] by (rule call) (simp_all add: one_writer_def)
  moreover have "client_step ex_down 2 (one_writer (ex_net 3) {0, 1, 2}) ([c], w, h) ex_requests"
    unfolding ex_requests_def 1 by (rule call) (simp_all add: one_writer_def)
  ultimately show "(client_step ex_down 2 (one_writer (ex_net 3) {0, 1, 2}))\<^sup>*\<^sup>* ([], ex_world 3, []) ex_requests"
    by (meson converse_rtranclp_into_rtranclp r_into_rtranclp)
  show "length (fst ex_requests) = 2"
    unfolding ex_requests_def 1 by (simp add: invoke_def split: prod.split)
qed

lemma ex_ordered: "ordered ex_data"
  by (simp add: ordered_def ex_data_def)

lemma ex_down_healthy: "healthy (ex_net 3) {0, 1, 2} {2} 0 (ex_world 3) ex_data"
  by (rule ex_healthy) simp_all

subsection \<open>An acknowledged write that is lost\<close>

text \<open>Three processes; the leader, process 0, writes \<open>v\<close>, and its last two messages are dropped.
  Then it crashes, and process 1 is asked for the key.\<close>

definition unheard :: Net where
  "unheard = ex_lossy 3 (\<lambda>t q. if t \<in> {10, 11} then Drop else Deliver)"

definition ex_unheard_set :: "(World \<times> Status \<times> unit) option" where
  "ex_unheard_set = Database_set 1 unheard \<lparr>set_key = ''k'', set_value = ''v''\<rparr> False 0 (ex_world 3)"

definition ex_later_get :: "World \<Rightarrow> (World \<times> Status \<times> GetResponse) option" where
  "ex_later_get w = Database_get 2 (crash_net (ex_net 3) {0}) \<lparr>get_key = ''k''\<rparr> False 1 w"

lemma unheard_run:
  "map_option (\<lambda>(w, s, u). (s, map (\<lambda>q. kv_store (procs w q)) [0, 1, 2])) ex_unheard_set =
    Some (Status_OK, [[(''k'', ''v'')], [], []])"
  by code_simp

lemma later_run:
  "map_option (\<lambda>(w, s, r). (leader (procs w 1), s, r)) (Option.bind ex_unheard_set (\<lambda>(w, s, u). ex_later_get w)) =
    Some (''h:2'', Status_OK, \<lparr>get_error = 1, get_value = ''''\<rparr>)"
  by code_simp

end
