(* ===== verification/Example_Crash.thy ===== *)
theory Example_Crash
  imports Leader_Crash Example_Users Race
begin

text \<open>
  A value that was read and is lost when the leader crashes: on the example cluster the leader
  has the value of a write in its store and answers a read with it, but its message to the two
  other processes is not sent yet.
\<close>

subsection \<open>A request whose attempt is under way\<close>

lemma finished_stays: "finished P \<Longrightarrow> run_schedule N (replicate t 0) ([P], w) = ([P], w)"
  by (induction t) simp_all

lemma moves_leading:
  assumes "run_schedule N (replicate t 0) ([P], w) = ([P'], w')" and "\<not> finished P'" and "i < length cs"
    and "cs ! i = Waiting addr j f [at_point A (Leading P)]"
  shows "moves_of N (replicate t i) (cs, w, h) = (cs[i := Waiting addr j f [at_point A (Leading P')]], w', h)"
  using assms
proof (induction t arbitrary: P w cs)
  case 0
  then show ?case by simp (metis list_update_id)
next
  case (Suc t)
  have P: "\<not> finished P" using Suc.prems(1,2) finished_stays [of P N "Suc t" w] by auto
  obtain P1 w1 where adv: "advance N P w = (P1, w1)" by fastforce
  let ?c = "Waiting addr j f [at_point A (Leading P1)]"
  have "move N i (cs, w, h) = (cs[i := ?c], w1, h)"
    using Suc.prems(4) turn_leading [OF P, of N A "[]" w] adv by (simp add: move_def)
  moreover have "run_schedule N (replicate t 0) ([P1], w1) = ([P'], w')"
    using Suc.prems(1) P adv by simp
  from Suc.IH [OF this Suc.prems(2), of "cs[i := ?c]"] Suc.prems(3)
  have "moves_of N (replicate t i) (cs[i := ?c], w1, h) =
      (cs[i := Waiting addr j f [at_point A (Leading P')]], w', h)" by simp
  ultimately show ?case using Suc.prems(3) by simp
qed

subsection \<open>The write stops after its first message\<close>

definition ex_started :: World where
  "ex_started = update 0 (count_in ''DatabaseRPC::set'')
     (tick (update 9 (count_out ''DatabaseRPCWrapperCall::set'') (ex_world 3)))"

definition ex_half :: proposers where
  "ex_half = run_schedule (ex_net 3) (replicate 14 0) ([ready 0 (put ''k'' ''v'')], ex_started)"

abbreviation ex_half_data :: "Proposer list \<times> data_state" where
  "ex_half_data \<equiv> data_schedule (ex_net 3) (ex_members 3) (replicate 14 0)
     ([ready 0 (put ''k'' ''v'')], replicate 3 ex_data, 1)"

lemma half_run:
  "map finished (fst ex_half_data) = [False]"
  "map d_kv (fst (snd ex_half_data)) = [[(''k'', ''v'')], [], []]"
  by code_simp+

lemma ex_half_state:
  obtains P where "ex_half = ([P], snd ex_half)" "\<not> finished P"
    "kv_store (procs (snd ex_half) 0) = [(''k'', ''v'')]" "kv_store (procs (snd ex_half) 1) = []"
proof -
  have "mirrors (ex_net 3) ex_started (replicate 3 ex_data, 1)"
    using ex_mirrors [of 3] by (simp add: ex_started_def mirrors_def nth_list_update data_simps)
  moreover have "member_nodes ex_started p = ex_members 3" for p
    using members_static(1) [of ex_started p "ex_world 3"] by (simp add: ex_started_def frame_simps)
  ultimately have m: "mirrors (ex_net 3) (snd ex_half) (snd ex_half_data)" and ps: "fst ex_half = fst ex_half_data"
    unfolding ex_half_def using schedule_mirrors [of "ex_net 3" ex_started] by (simp_all add: ready_def)
  have len: "length (fst (snd ex_half_data)) = 3" using arg_cong [where f = length, OF half_run(2)] by simp
  have "kv_store (procs (snd ex_half) q) = map d_kv (fst (snd ex_half_data)) ! q" if "q < 3" for q
  proof -
    have "data (snd ex_half) q = fst (snd ex_half_data) ! q" using m that len by (simp add: mirrors_def)
    then show ?thesis using that len by (metis data_of_sel(2) nth_map)
  qed
  note kv = this [of 0, unfolded half_run(2)] this [of 1, unfolded half_run(2)]
  from half_run(1) ps obtain P where "fst ex_half = [P]" "\<not> finished P" by auto
  with kv show thesis by (intro that [of P]) (simp_all add: prod_eq_iff)
qed

text \<open>A second user reads the key at the leader.\<close>

definition ex_written :: clients where
  "ex_written = moves_of (crash_net (ex_net 3) {}) (replicate 15 0)
     (invoke (crash_net (ex_net 3) {}) 9 ''h:1001'' (Set_job ''k'' ''v'') ([], ex_world 3, []))"

definition ex_dirty :: clients where
  "ex_dirty = moves_of (crash_net (ex_net 3) {}) [1, 1]
     (invoke (crash_net (ex_net 3) {}) 8 ''h:1001'' (Get_job ''k'') ex_written)"

lemma no_crash: "crash_net (ex_net 3) {} = ex_net 3"
  by (simp add: crash_net_def ex_net_def fun_eq_iff)

abbreviation ex_step :: "clients \<Rightarrow> clients \<Rightarrow> bool" where
  "ex_step \<equiv> client_step (crash_net (ex_net 3) {}) 2 (one_writer (ex_net 3) {0, 1, 2})"

lemma ex_users: "ex_step\<^sup>*\<^sup>* ([], ex_world 3, []) st \<Longrightarrow> users_ok UNIV (ex_net 3) {0, 1, 2} {} 0 0 2 st"
  by (erule all_users(1), rule clients_start [OF ex_healthy _ _ ex_ordered]) (simp_all add: ex_data_def)

lemma ex_written_eq:
  assumes "ex_half = ([P], w)" and "\<not> finished P"
  shows "ex_written = ([Waiting ''h:1001'' (Set_job ''k'' ''v'') Deliver
      [at_point (fresh 0 (Set_job ''k'' ''v'')) (Leading P)]], w, [Call 0 ''h:1001'' (Set_job ''k'' ''v'')])"
proof -
  let ?j = "Set_job ''k'' ''v''" and ?h = "[Call 0 ''h:1001'' (Set_job ''k'' ''v'')]"
  let ?u = "tick (update 9 (count_out ''DatabaseRPCWrapperCall::set'') (ex_world 3))"
  let ?c = "\<lambda>A. [Waiting ''h:1001'' ?j Deliver [A]]"
  have 1: "invoke (ex_net 3) 9 ''h:1001'' ?j ([], ex_world 3, []) = (?c (fresh 0 ?j), ?u, ?h)"
    by (simp add: invoke_def send_job_def)
  have "users_ok UNIV (ex_net 3) {0, 1, 2} {} 0 0 2 ([], ex_world 3, [])" by (rule ex_users) simp
  then have "led_by (ex_net 3) {0, 1, 2} {} 0 (ex_world 3)" unfolding users_ok_def using clients_okD(1) by blast
  then have "led_by (ex_net 3) {0, 1, 2} {} 0 ?u" by (rule led_by_same) simp
  from turn_set [OF this, of "fresh 0 ?j" "''k''" "''v''" "[]"]
  have "turn (ex_net 3) ([fresh 0 ?j], ?u) = ([at_point (fresh 0 ?j) (Leading (ready 0 (put ''k'' ''v'')))], ex_started)"
    by (simp add: no_crash ex_started_def put_def)
  then have 2: "move (ex_net 3) 0 (?c (fresh 0 ?j), ?u, ?h) =
      (?c (at_point (fresh 0 ?j) (Leading (ready 0 (put ''k'' ''v'')))), ex_started, ?h)"
    by (simp add: move_def)
  have "replicate 15 0 = 0 # replicate 14 (0 :: nat)" by (simp add: numeral_eq_Suc)
  then show ?thesis
    unfolding ex_written_def no_crash 1
    using moves_leading [OF assms(1) [unfolded ex_half_def] assms(2), where i = 0 and j = ?j and h = ?h
        and A = "fresh 0 ?j" and addr = "''h:1001''" and f = Deliver
        and cs = "?c (at_point (fresh 0 ?j) (Leading (ready 0 (put ''k'' ''v''))))"]
    by (simp add: 2)
qed

lemma ex_written_run: "ex_step\<^sup>*\<^sup>* ([], ex_world 3, []) ex_written"
proof -
  have "ex_step ([], ex_world 3, [])
      (invoke (crash_net (ex_net 3) {}) 9 ''h:1001'' (Set_job ''k'' ''v'') ([], ex_world 3, []))"
    by (rule call) (simp_all add: one_writer_def)
  with moves_of_steps show ?thesis unfolding ex_written_def by (rule converse_rtranclp_into_rtranclp [rotated])
qed

lemma ex_dirty_eq:
  assumes P: "ex_half = ([P], w)" "\<not> finished P" and kv: "kv_store (procs w 0) = [(''k'', ''v'')]"
  shows "ex_dirty = ([Waiting ''h:1001'' (Set_job ''k'' ''v'') Deliver
       [at_point (fresh 0 (Set_job ''k'' ''v'')) (Leading P)],
      Returned ''h:1001'' (Get_job ''k'') Status_OK \<lparr>get_error = 0, get_value = ''v''\<rparr>],
     update 0 (count_in ''DatabaseRPC::get'') (tick (update 8 (count_out ''DatabaseRPCWrapperCall::get'') w)),
     [Call 0 ''h:1001'' (Set_job ''k'' ''v''), Call 1 ''h:1001'' (Get_job ''k''),
      Return 1 Status_OK \<lparr>get_error = 0, get_value = ''v''\<rparr>])"
proof -
  let ?w = "tick (update 8 (count_out ''DatabaseRPCWrapperCall::get'') w)"
  have "users_ok UNIV (ex_net 3) {0, 1, 2} {} 0 0 2 ex_written" by (rule ex_users [OF ex_written_run])
  then have "led_by (ex_net 3) {0, 1, 2} {} 0 w"
    unfolding ex_written_eq [OF P] users_ok_def using clients_okD(1) by blast
  then have "led_by (ex_net 3) {0, 1, 2} {} 0 ?w" by (rule led_by_same) simp
  moreover have "kv_store (procs ?w 0) = [(''k'', ''v'')]" using same_state_kv [of w ?w 0] kv by simp
  ultimately
  have "turn (crash_net (ex_net 3) {}) ([fresh 0 (Get_job ''k'')], ?w) =
      ([at_point (fresh 0 (Get_job ''k'')) (Replied Status_OK \<lparr>get_error = 0, get_value = ''v''\<rparr>)],
       update 0 (count_in ''DatabaseRPC::get'') ?w)"
    using turn_get [of "ex_net 3" "{0, 1, 2}" "{}" 0 ?w "fresh 0 (Get_job ''k'')" "''k''" "[]"]
    by (simp add: answer_get_def)
  then show ?thesis
    unfolding ex_dirty_def ex_written_eq [OF P]
    by (simp add: invoke_def send_job_def move_def)
qed

lemma ex_dirty_run: "ex_step\<^sup>*\<^sup>* ([], ex_world 3, []) ex_dirty"
proof -
  obtain P where P: "ex_half = ([P], snd ex_half)" "\<not> finished P" by (rule ex_half_state)
  have "ex_step ex_written (invoke (crash_net (ex_net 3) {}) 8 ''h:1001'' (Get_job ''k'') ex_written)"
    unfolding ex_written_eq [OF P] by (rule call) (simp_all add: one_writer_def)
  then show ?thesis
    unfolding ex_dirty_def using ex_written_run moves_of_steps by (meson rtranclp.rtrancl_into_rtrancl rtranclp_trans)
qed

end
