(* ===== verification/Alone.thy ===== *)
theory Alone
  imports Eras
begin

text \<open>
  A request nobody disturbs, in the other direction: when its threads return, the sequential
  code returns too, for some bound on the chain of forwards. A request for which
  \<open>Database_get\<close> or \<open>Database_set\<close> runs out of every bound has a handler at work after any
  number of turns.
\<close>

subsection \<open>Handlers that outlast the turns\<close>

text \<open>After \<open>n\<close> turns or more a handler above \<open>stack\<close> has not replied.\<close>

definition outlasts :: "Net \<Rightarrow> nat \<Rightarrow> activation list \<Rightarrow> thread_state \<Rightarrow> bool" where
  "outlasts N n stack st \<longleftrightarrow> (\<exists>m \<ge> n. \<exists>B above w. (turn N ^^ m) st = (B # above @ stack, w) \<and>
     (\<forall>s r. ac_point B \<noteq> Replied s r))"

lemma outlasts_turn: "outlasts N n stack (turn N st) \<Longrightarrow> outlasts N (Suc n) stack st"
  unfolding outlasts_def by (metis Suc_le_mono comp_apply funpow_Suc_right)

lemma outlasts_mono: "outlasts N n stack st \<Longrightarrow> m \<le> n \<Longrightarrow> outlasts N m stack st"
  unfolding outlasts_def by (meson le_trans)

lemma outlasts_later:
  assumes "turns_to N st st'" and "outlasts N n stack st'" shows "outlasts N n stack st"
proof -
  from assms obtain i m B above w where "(turn N ^^ i) st = st'" "n \<le> m"
    "(turn N ^^ m) st' = (B # above @ stack, w)" "\<forall>s r. ac_point B \<noteq> Replied s r"
    by (auto simp: turns_to_def outlasts_def)
  then have "(turn N ^^ (m + i)) st = (B # above @ stack, w)" "n \<le> m + i" by (simp_all add: funpow_add)
  with \<open>\<forall>s r. ac_point B \<noteq> Replied s r\<close> show ?thesis unfolding outlasts_def by blast
qed

lemma outlasts_below: "outlasts N n (A # stack) st \<Longrightarrow> outlasts N n stack st"
  unfolding outlasts_def by (metis append.assoc append_Cons append_Nil)

lemma forward_job_None:
  assumes "forward_job fuel N j addr w = None"
  obtains q where "database_route N addr = Some q" "fate N (clock w) q \<noteq> Drop"
    "serve fuel N j (fate N (clock w) q = Cancel) q (tick w) = None"
  using assms by (auto simp: forward_job_def rpc_forward_def bind_eq_None_conv split: option.splits fate.splits prod.splits)

abbreviation entered :: "nat \<Rightarrow> job \<Rightarrow> bool \<Rightarrow> activation" where
  "entered q j c \<equiv> \<lparr>ac_at = q, ac_job = j, ac_cancelled = c, ac_point = Entered\<rparr>"

lemma pass_on_outlasts:
  assumes f: "forward_job fuel N (ac_job A) addr w = None"
    and IH: "\<And>c q w stack. serve fuel N (ac_job A) c q w = None \<Longrightarrow>
      outlasts N fuel stack (entered q (ac_job A) c # stack, w)"
  shows "outlasts N fuel stack (pass_on N addr A waiting failed stack w)"
proof -
  from f obtain q where "database_route N addr = Some q" "fate N (clock w) q \<noteq> Drop"
    and h: "serve fuel N (ac_job A) (fate N (clock w) q = Cancel) q (tick w) = None"
    by (rule forward_job_None)
  then have "pass_on N addr A waiting failed stack w =
      (entered q (ac_job A) (fate N (clock w) q = Cancel) # at_point A (waiting (fate N (clock w) q)) # stack, tick w)"
    by (simp add: pass_on_def send_job_def Let_def)
  then show ?thesis by (simp add: outlasts_below [OF IH [OF h]])
qed

lemma failover_outlasts:
  assumes f: "retry_job fuel N (ac_job A) (ac_at A) w = None"
    and IH: "\<And>c q w stack. serve fuel N (ac_job A) c q w = None \<Longrightarrow>
      outlasts N fuel stack (entered q (ac_job A) c # stack, w)"
  shows "outlasts N fuel stack (at_point A Failing # stack, w)"
proof -
  obtain w1 s1 where tr: "trigger_election N (ac_at A) w = (w1, s1, ())" by (metis prod_cases3 unit.exhaust)
  with f have s1: "ok s1" by (auto simp: retry_job_def split: if_splits)
  with tr f obtain node where node: "map_of (memberList (procs w1 (ac_at A))) (leader (procs w1 (ac_at A))) = Some node"
    and bind: "Option.bind (forward_job fuel N (ac_job A) (databaseEndpoint node) w1)
      (\<lambda>(w, s, r). if \<not> ok s then Some (w, new_leader_failed, default_GetResponse)
        else Some (w, Status_OK, relay r)) = None"
    by (auto simp: retry_job_def split: option.splits)
  from bind have fw: "forward_job fuel N (ac_job A) (databaseEndpoint node) w1 = None"
    by (cases "forward_job fuel N (ac_job A) (databaseEndpoint node) w1") (auto split: if_splits)
  have "turns_to N (turn N (at_point A Failing # stack, w)) (at_point A Elected # stack, w1)"
    using election_turns [of N "at_point A Failing" w w1 s1 "()" stack] tr s1 by (simp add: turn.simps)
  then have "turns_to N (at_point A Failing # stack, w) (at_point A Elected # stack, w1)" by (rule turns_to_step)
  moreover have "turn N (at_point A Elected # stack, w1) =
      pass_on N (databaseEndpoint node) (at_point A Elected) Retried
        (Replied new_leader_failed default_GetResponse) stack w1"
    by (simp add: turn.simps node)
  then have "outlasts N fuel stack (turn N (at_point A Elected # stack, w1))"
    using pass_on_outlasts [of fuel N "at_point A Elected"] IH fw by simp
  then have "outlasts N fuel stack (at_point A Elected # stack, w1)"
    by (rule outlasts_mono [OF outlasts_turn]) simp
  ultimately show ?thesis by (rule outlasts_later)
qed

lemma serve_outlasts:
  "serve fuel N j c q w = None \<Longrightarrow> outlasts N fuel stack (entered q j c # stack, w)"
proof (induction fuel arbitrary: c q w stack)
  case 0
  show ?case unfolding outlasts_def
    by (intro exI [of _ 0] conjI exI [of _ "entered q j c"] exI [of _ "[]"] exI [of _ w]) simp_all
next
  case (Suc fuel)
  let ?A = "entered q j c" and ?w = "update q (count_in (handler_name j)) w"
  from Suc.prems have no: "\<not> c" "leader (procs ?w q) \<noteq> ''''"
    "leader (procs ?w q) \<noteq> self_address (procs ?w q)"
    by (auto simp: serve_Suc Let_def split: job.splits prod.splits if_splits)
  with Suc.prems obtain node where node: "map_of (memberList (procs ?w q)) (leader (procs ?w q)) = Some node"
    and f: "Option.bind (forward_job fuel N j (databaseEndpoint node) ?w)
      (\<lambda>(w, s, r). if \<not> ok s then retry_job fuel N j q w else Some (w, Status_OK, relay r)) = None"
    by (auto simp: serve_Suc Let_def split: option.splits)
  have enter: "turn N (?A # stack, w) = pass_on N (databaseEndpoint node) ?A Forwarded Failing stack ?w"
    using no node by (simp add: turn.simps enter_def Let_def)
  have "outlasts N fuel stack (pass_on N (databaseEndpoint node) ?A Forwarded Failing stack ?w)"
  proof (cases "forward_job fuel N j (databaseEndpoint node) ?w")
    case None
    with pass_on_outlasts [of fuel N ?A] Suc.IH show ?thesis by simp
  next
    case (Some x)
    then obtain w1 s1 r1 where x: "forward_job fuel N j (databaseEndpoint node) ?w = Some (w1, s1, r1)"
      by (cases x) simp
    with f have s1: "\<not> ok s1" and retry: "retry_job fuel N j q w1 = None" by (auto split: if_splits)
    have "turns_to N (pass_on N (databaseEndpoint node) ?A Forwarded Failing stack ?w) (at_point ?A Failing # stack, w1)"
      using pass_on_turns [of N ?A "serve fuel N j" "databaseEndpoint node" ?w w1 s1 r1 Forwarded Failing stack]
        serve_computes [of N j fuel] x s1
      by (simp add: forward_job_def resume_def split: prod.split)
    then show ?thesis
      using failover_outlasts [of fuel N ?A w1 stack] Suc.IH retry by (simp add: outlasts_later)
  qed
  then show ?case unfolding enter [symmetric] by (rule outlasts_turn)
qed

subsection \<open>What returns, returns in the sequential code\<close>

lemma turn_answered: "reply (fst st) \<noteq> None \<Longrightarrow> turn N st = st"
  by (cases st; cases "fst st" rule: reply.cases) (auto simp: turn.simps turn_replied split: point.splits)

lemma turns_answered: "reply (fst ((turn N ^^ n) st)) \<noteq> None \<Longrightarrow> (turn N ^^ (m + n)) st = (turn N ^^ n) st"
  by (induction m) (simp_all add: turn_answered)

lemma outlasts_unanswered:
  assumes "\<And>n. outlasts N n [] st" shows "reply (fst ((turn N ^^ n) st)) = None"
proof (rule ccontr)
  assume ans: "reply (fst ((turn N ^^ n) st)) \<noteq> None"
  from assms [of n] obtain m B above w where m: "n \<le> m" and eq: "(turn N ^^ m) st = (B # above, w)"
    and B: "\<forall>s r. ac_point B \<noteq> Replied s r" unfolding outlasts_def by auto
  from turns_answered [OF ans, of "m - n"] m eq have "(turn N ^^ n) st = (B # above, w)" by simp
  with ans B show False by (cases above) (auto split: point.splits)
qed

lemma returned_answered:
  assumes "moves_of N (replicate k 0) ([Waiting addr j f stack], w, h) = ([Returned addr' j' s r], w', h')"
  shows "\<exists>n. reply (fst ((turn N ^^ n) (stack, w))) \<noteq> None"
  using assms
proof (induction k arbitrary: stack w)
  case 0
  then show ?case by simp
next
  case (Suc k)
  show ?case
  proof (cases "reply stack")
    case None
    obtain stack1 w1 where t: "turn N (stack, w) = (stack1, w1)" by fastforce
    from Suc.prems have "moves_of N (replicate k 0) ([Waiting addr j f stack1], w1, h) = ([Returned addr' j' s r], w', h')"
      by (simp add: move_def None t)
    from Suc.IH [OF this] obtain n where "reply (fst ((turn N ^^ n) (turn N (stack, w)))) \<noteq> None" by (auto simp: t)
    then show ?thesis by (intro exI [of _ "Suc n"]) (simp add: funpow_swap1)
  next
    case (Some x)
    then show ?thesis by (intro exI [of _ 0]) simp
  qed
qed

lemma returned_forward:
  assumes "moves_of N (replicate k 0) (invoke N p addr j ([], w, [])) = ([Returned addr j s r], w', h)"
  obtains fuel where "forward_job fuel N j addr (update p (count_out (stub_name j)) w) = Some (w', s, r)"
proof -
  let ?w = "update p (count_out (stub_name j)) w"
  have "\<exists>fuel. forward_job fuel N j addr ?w \<noteq> None"
  proof (rule ccontr)
    assume "\<not> ?thesis"
    then have none: "forward_job fuel N j addr ?w = None" for fuel by blast
    from forward_job_None [OF none [of 0]] obtain q where
      q: "database_route N addr = Some q" "fate N (clock ?w) q \<noteq> Drop" by metis
    let ?c = "fate N (clock ?w) q = Cancel"
    have "serve fuel N j ?c q (tick ?w) = None" for fuel
      using forward_job_None [OF none [of fuel]] q(1) by (metis option.inject)
    then have "outlasts N n [] ([entered q j ?c], tick ?w)" for n by (rule serve_outlasts)
    from outlasts_unanswered [OF this]
    have never: "reply (fst ((turn N ^^ n) ([entered q j ?c], tick ?w))) = None" for n .
    have "invoke N p addr j ([], w, []) =
        ([Waiting addr j (fate N (clock ?w) q) [entered q j ?c]], tick ?w, [Call 0 addr j])"
      using q by (simp add: invoke_def send_job_def Let_def)
    from returned_answered [OF assms [unfolded this]] show False by (rule exE) (rule notE [OF _ never])
  qed
  then obtain fuel w1 s1 r1 where f: "forward_job fuel N j addr ?w = Some (w1, s1, r1)" by auto
  from request_alone [OF f] obtain k' where
    "moves_of N (replicate k' 0) (invoke N p addr j ([], w, [])) = ([Returned addr j s1 r1], w1, [Call 0 addr j, Return 0 s1 r1])" ..
  from alone_unique [OF this assms] have "w1 = w' \<and> s1 = s \<and> r1 = r" by (simp add: answered_iff)
  with f that show thesis by blast
qed

text \<open>The stubs, by the call they make.\<close>

lemma stub_get_forward:
  "stub_get fuel N p addr key w =
    map_option (\<lambda>(w, s, r). (w, if ok s then get_value r else ''RPC failed !''))
      (forward_job fuel N (Get_job key) addr (update p (count_out (stub_name (Get_job key))) w))"
  by (auto simp: stub_get_def forward_job_def serve.simps [abs_def] split: option.split)

lemma stub_set_forward:
  "stub_set fuel N p addr key v w =
    map_option (\<lambda>(w, s, r). (w, s))
      (forward_job fuel N (Set_job key v) addr (update p (count_out (stub_name (Set_job key v))) w))"
  by (auto simp: stub_set_def forward_job_set split: option.split)


end
