(* ===== verification/Properties_Users.thy ===== *)
theory Properties_Users
  imports Example_Crash Alone "HOL-Library.Multiset"
begin

text \<open>
  The properties of users whose requests are served at the same time, on the threads of the
  database service.
\<close>

text \<open>Claim C3: users of a healthy cluster see one atomic map. Any number of users call the get and
  set stubs at members of the cluster, up or down, at any time; the handlers that serve them at
  the called process and at the leader interleave in any order, each write with its own attempt
  over all members. As long as no two writes of one key overlap, the history of calls and
  returns is one of the specification in which every request takes effect on one map at one
  moment between its call and its return, and fails without effect only when the called member
  is down. The map is the store of the leader.\<close>

theorem users_see_one_map:
  assumes "healthy N S D n w d" and "ordered d" and "l \<in> S - D"
    and "d_leader d = self_address (procs w l)" and "n + M \<le> 2 ^ 31"
    and "(client_step (crash_net N D) M (one_writer N S))\<^sup>*\<^sup>* ([], w, []) (cs, w', h)"
  shows "\<exists>ops. (atomic_step (reachable_address N D))\<^sup>*\<^sup>* (map_of (d_kv d), [], [])
      (map_of (kv_store (procs w' l)), ops, h) \<and> length ops = length cs"
proof -
  have start: "users_ok UNIV N S D l n M ([], w, [])" by (rule clients_start [OF assms(1,3,4,2,5)])
  have "abstract N l ([], w, []) = (map_of (d_kv d), [], [])"
    using healthy_kv [OF assms(1,3)] by (simp add: abstract_def)
  with all_users(2) [OF assms(6) start] show ?thesis
    by (intro exI [of _ "map (abstract_client N l) cs"]) (simp add: abstract_def)
qed

theorem users_see_one_map_witness:
  "\<exists>ops. (atomic_step (reachable_address (ex_net 3) {2}))\<^sup>*\<^sup>* (map_of [], [], [])
    (map_of (kv_store (procs (fst (snd ex_served)) 0)), ops, snd (snd ex_served)) \<and>
    length ops = length (fst ex_served)"
proof -
  have "(client_step ex_down 2 (one_writer (ex_net 3) {0, 1, 2}))\<^sup>*\<^sup>* ([], ex_world 3, []) ex_served"
    unfolding ex_served_def using ex_requests_made(1) moves_of_steps by (rule rtranclp_trans)
  then show ?thesis
    using users_see_one_map [OF ex_down_healthy ex_ordered, where l = 0 and M = 2 and cs = "fst ex_served"
        and w' = "fst (snd ex_served)" and h = "snd (snd ex_served)"]
    by (simp add: ex_down_def [symmetric]) (simp add: ex_data_def)
qed

text \<open>Claim C4: every request is answered and the replicas agree again. From any state that such users
  reach, when each request has had \<open>4 n + 10\<close> turns in a cluster of \<open>n\<close> members, in any order,
  all requests have returned, the cluster is healthy with equal data at all live members, and
  their store is the map of the specification after the history.\<close>

theorem requests_are_answered:
  assumes "healthy N S D n w d" and "ordered d" and "l \<in> S - D"
    and "d_leader d = self_address (procs w l)" and "n + M \<le> 2 ^ 31"
    and "(client_step (crash_net N D) M (one_writer N S))\<^sup>*\<^sup>* ([], w, []) st"
    and "moves_of (crash_net N D) sched st = (cs, w', h)"
    and "\<forall>i < length (fst st). 4 * card S + 10 \<le> count_list sched i"
  shows "length cs = length (fst st) \<and> (\<forall>c \<in> set cs. answered c) \<and>
    healthy N S D (n + length cs) w' (data_of (procs w' l)) \<and>
    (\<exists>m ops. (atomic_step (reachable_address N D))\<^sup>*\<^sup>* (map_of (d_kv d), [], []) (m, ops, h) \<and>
      (\<forall>q \<in> S - D. map_of (kv_store (procs w' q)) = m))"
proof -
  obtain cs0 w0 h0 where st: "st = (cs0, w0, h0)" by (metis prod_cases3)
  have start: "users_ok UNIV N S D l n M ([], w, [])" by (rule clients_start [OF assms(1,3,4,2,5)])
  from all_users(1) [OF assms(6) this] have ok: "users_ok UNIV N S D l n M (cs0, w0, h0)" by (simp add: st)
  then have "\<forall>i < length cs0. turns_left (card S) w0 (cs0 ! i) \<le> count_list sched i"
    using assms(8) turns_left_bound by (fastforce simp: st users_ok_def)
  from moves_finish [OF ok this] assms(7)
  have fin: "length cs = length cs0" "\<forall>c \<in> set cs. answered c" by (simp_all add: st)
  have run: "(client_step (crash_net N D) M (one_writer N S))\<^sup>*\<^sup>* ([], w, []) (cs, w', h)"
    using assms(6) moves_of_steps [of "crash_net N D" M "one_writer N S" st sched]
    by (simp add: assms(7))
  from all_users(1) [OF run start] fin(2)
  have healthy: "healthy N S D (n + length cs) w' (data_of (procs w' l))" by (rule quiet_healthy)
  have "abstract N l ([], w, []) = (map_of (d_kv d), [], [])"
    using healthy_kv [OF assms(1,3)] by (simp add: abstract_def)
  with all_users(2) [OF run start] have
    "(atomic_step (reachable_address N D))\<^sup>*\<^sup>* (map_of (d_kv d), [], [])
      (map_of (kv_store (procs w' l)), map (abstract_client N l) cs, h)" by (simp add: abstract_def)
  moreover have "kv_store (procs w' q) = kv_store (procs w' l)" if "q \<in> S - D" for q
    using healthy_kv [OF healthy that] by simp
  ultimately show ?thesis using fin healthy by (auto simp: st)
qed

theorem requests_are_answered_witness:
  "list_all answered (fst ex_served) \<and>
   healthy (ex_net 3) {0, 1, 2} {2} 2 (fst (snd ex_served)) (data_of (procs (fst (snd ex_served)) 0))"
proof -
  have "\<forall>i < length (fst ex_requests). 4 * card {0, 1, 2 :: nat} + 10 \<le> count_list ex_order i"
    by (auto simp: ex_requests_made(2) ex_order_def count_replicate count_list_append less_Suc_eq)
  moreover have "0 \<in> {0, 1, 2} - {2 :: nat}" "d_leader ex_data = self_address (procs (ex_world 3) 0)"
    by (simp_all add: ex_data_def)
  moreover have "moves_of (crash_net (ex_net 3) {2}) ex_order ex_requests =
      (fst ex_served, fst (snd ex_served), snd (snd ex_served))"
    by (simp add: ex_served_def ex_down_def)
  moreover note ex_requests_made(1) [unfolded ex_down_def]
  ultimately have R: "length (fst ex_served) = length (fst ex_requests) \<and>
      (\<forall>c \<in> set (fst ex_served). answered c) \<and>
      healthy (ex_net 3) {0, 1, 2} {2} (0 + length (fst ex_served)) (fst (snd ex_served))
        (data_of (procs (fst (snd ex_served)) 0))"
    using requests_are_answered [OF ex_down_healthy ex_ordered, of 0 2 ex_requests ex_order
        "fst ex_served" "fst (snd ex_served)" "snd (snd ex_served)"]
    unfolding prod.sel by auto
  have "0 + length (fst ex_served) = 2" using R by (simp only: ex_requests_made(2) add_0)
  with R show ?thesis unfolding list_all_iff by metis
qed

text \<open>Claim C5: users see one map through crashes and elections. The life of a cluster is cut into
  eras: some processes crash, the leader possibly among them, as long as half of the members
  stay alive; a first request, to a live member, is served alone; then any requests overlap as
  before, until all of them have returned. The histories of all eras together are those of one
  map, on which each request takes effect between its call and its return, every live member
  holds this map at the end, and the first request of a further era returns after finitely
  many turns.\<close>

theorem users_survive_crashes:
  assumes "healthy N S D n w d" and "ordered d" and "n + (length es + 2) * (M + 1) < 2 ^ 31"
    and "eras N S M (D, w) es (D', w')"
  shows "(\<exists>m. atomic_eras N (map_of (d_kv d)) es m \<and>
      (\<forall>q \<in> S - D'. map_of (kv_store (procs w' q)) = m)) \<and>
    (\<forall>D'' addr q j p. D' \<subseteq> D'' \<longrightarrow> card S \<le> 2 * card (S - D'') \<longrightarrow>
      database_route N addr = Some q \<longrightarrow> q \<in> S - D'' \<longrightarrow> may_write j \<longrightarrow>
      (\<exists>k c w1 h1. moves_of (crash_net N D'') (replicate k 0)
         (invoke (crash_net N D'') p addr j ([], w', [])) = ([c], w1, h1) \<and> answered c))"
proof -
  let ?n = "n + length es * (M + 1)"
  from eras_atomic [OF assms(4,1,2)] assms(3) obtain d' where h: "healthy N S D' ?n w' d'" "ordered d'"
    and m: "atomic_eras N (map_of (d_kv d)) es (map_of (d_kv d'))" by auto
  have "map_of (kv_store (procs w' q)) = map_of (d_kv d')" if "q \<in> S - D'" for q
    using healthy_kv [OF h(1) that] by simp
  moreover have "\<exists>k c w1 h1. moves_of (crash_net N D'') (replicate k 0)
      (invoke (crash_net N D'') p addr j ([], w', [])) = ([c], w1, h1) \<and> answered c"
    if "D' \<subseteq> D''" "card S \<le> 2 * card (S - D'')" "database_route N addr = Some q" "q \<in> S - D''" "may_write j"
    for D'' addr q j p
  proof -
    have "healthy N S D'' ?n w' d'" by (rule healthy_crashes [OF h(1) that(1,2)])
    moreover have "Suc ?n < 2 ^ 31" using assms(3) by simp
    ultimately show ?thesis using first_request_returns [OF _ h(2) _ that(3-5)] by metis
  qed
  ultimately show ?thesis using m by blast
qed

theorem users_survive_crashes_witness:
  "\<exists>h1 h2 w' m. eras (ex_net 3) {0, 1, 2} 2 ({}, ex_world 3) [({0}, h1), ({0}, h2)] ({0}, w') \<and>
    atomic_eras (ex_net 3) (map_of []) [({0}, h1), ({0}, h2)] m \<and>
    (\<forall>q \<in> {1, 2}. map_of (kv_store (procs w' q)) = m) \<and> leader (procs (ex_world 3) 1) = toString (ex_address 0)"
proof -
  let ?N = "crash_net (ex_net 3) {0}" and ?S = "{0, 1, 2 :: nat}"
  let ?step = "client_step ?N 2 (one_writer (ex_net 3) ?S)"
  have h: "healthy (ex_net 3) ?S {} 0 (ex_world 3) ex_data" "healthy (ex_net 3) ?S {0} 0 (ex_world 3) ex_data"
    by (rule ex_healthy; simp)+
  have route: "database_route (ex_net 3) ''h:1002'' = Some 1" "(1 :: nat) \<in> ?S - {0}" "may_write (Get_job ''k'')"
    by (simp_all add: may_write_def)
  have "Suc 0 < (2 :: nat) ^ 31" by simp
  from first_request_returns [OF h(2) ex_ordered this route] obtain k c w1 h1 d1 where
    first: "moves_of ?N (replicate k 0) (invoke ?N 9 ''h:1002'' (Get_job ''k'') ([], ex_world 3, [])) = ([c], w1, h1)"
      "answered c" and h1: "healthy (ex_net 3) ?S {0} (0 + 2) w1 d1" "ordered d1" "live_leader (?S - {0}) w1 d1"
    by blast
  obtain c2 u g where 1: "invoke ?N 9 ''h:1002'' (Set_job ''k'' ''v'') ([], w1, []) = ([c2], u, g)"
    using invoke_first by blast
  let ?two = "invoke ?N 8 ''h:1003'' (Get_job ''k'') ([c2], u, g)"
  have "?step ([], w1, []) ([c2], u, g)"
    unfolding 1 [symmetric] by (rule call) (simp_all add: one_writer_def)
  moreover have "?step ([c2], u, g) ?two" by (rule call) (simp_all add: one_writer_def)
  ultimately have two: "?step\<^sup>*\<^sup>* ([], w1, []) ?two" by (meson r_into_rtranclp rtranclp_trans)
  have "\<forall>i < length (fst ?two). 4 * card ?S + 10 \<le> count_list (replicate 22 0 @ replicate 22 1) i"
    by (auto simp: invoke_def count_list_append count_replicate less_Suc_eq split: prod.split)
  from overlapping_finish [OF h1 _ two this] obtain cs w2 h2 where
    rest: "?step\<^sup>*\<^sup>* ([], w1, []) (cs, w2, h2)" "\<forall>c \<in> set cs. answered c" by auto
  have "eras (ex_net 3) ?S 2 ({}, ex_world 3) ([] @ [({0}, h1), ({0}, h2)]) ({0}, w2)"
    by (rule next_era [OF no_era _ _ route first rest]) simp_all
  then have run: "eras (ex_net 3) ?S 2 ({}, ex_world 3) [({0}, h1), ({0}, h2)] ({0}, w2)" by simp
  from users_survive_crashes [OF h(1) ex_ordered _ run] obtain m where
    "atomic_eras (ex_net 3) (map_of []) [({0}, h1), ({0}, h2)] m"
    "\<forall>q \<in> ?S - {0}. map_of (kv_store (procs w2 q)) = m" by (auto simp: ex_data_def)
  with run show ?thesis by auto
qed

text \<open>Claim C6: acknowledged writes survive the crash of the leader in the middle of requests. Users
  overlap as before on a healthy cluster; at any moment the leader and other processes crash,
  half of the members stay alive, and the requests under way are cut, their handlers all at
  processes that crashed. Then every live store holds, for every key, the value of its last
  acknowledged write or of a write that was cut. A first request to a live member, alone and
  not for a key of a cut write unless it reads, is answered from the store of that member with
  status OK, and every live process then has that member as its leader; and whatever users do from then on, as long as they leave the keys of
  the cut writes alone and no two writes of one key overlap, their history is one of the atomic
  map that continues from this answer.\<close>

theorem acknowledged_writes_survive:
  assumes "healthy N S D n w d" and "ordered d" and "l \<in> S - D"
    and "d_leader d = self_address (procs w l)" and "n + 2 * M + 2 \<le> 2 ^ 31"
    and "(client_step (crash_net N D) M (one_writer N S))\<^sup>*\<^sup>* ([], w, []) (cs, w1, h)"
    and "D \<subseteq> D'" and "l \<in> D'" and "card S \<le> 2 * card (S - D')" and "\<forall>c \<in> set cs. cut_by D' c"
    and "database_route N addr = Some q" and "q \<in> S - D'" and "writes_in (- cut_keys cs) j"
  shows "(\<forall>q' \<in> S - D'. \<forall>k. map_of (kv_store (procs w1 q')) k = acknowledged (map_of (d_kv d)) h k \<or>
      (\<exists>c \<in> set cs. \<exists>v. under_way c = Some (k, v) \<and> map_of (kv_store (procs w1 q')) k = Some v)) \<and>
    (\<exists>t w2 r m. moves_of (crash_net N D') (replicate t 0) (invoke (crash_net N D') p addr j ([], w1, [])) =
        ([Returned addr j Status_OK r], w2, [Call 0 addr j, Return 0 Status_OK r]) \<and>
      (\<forall>q' \<in> S - D'. leader (procs w2 q') = self_address (procs w2 q)) \<and>
      perform j (map_of (kv_store (procs w1 q))) = (m, Status_OK, r) \<and>
      (\<forall>cs' w3 h'. (client_step (crash_net N D') M (within_keys (- cut_keys cs) N S))\<^sup>*\<^sup>*
          ([], w2, []) (cs', w3, h') \<longrightarrow>
        (\<exists>ops. (atomic_step (reachable_address N D'))\<^sup>*\<^sup>* (m, [], [])
          (map_of (kv_store (procs w3 q)), ops, h'))))"
proof -
  have start: "users_ok UNIV N S D l n M ([], w, [])"
    by (rule clients_start [OF assms(1,3,4,2)]) (use assms(5) in simp)
  from durable_run [OF assms(6) start durable_start [OF assms(1)]]
  have "durable (S - D) (map_of (d_kv d)) (cs, w1, h)" .
  from durableD(1) [OF this] crash_request [OF all_users(1) [OF assms(6) start] assms(7-9,5,11-13), of p] assms(7)
  show ?thesis by (simp only: data_of_sel) blast
qed

theorem acknowledged_writes_survive_witness:
  "\<exists>r w1 t w2. (client_step (crash_net (ex_net 3) {}) 2 (one_writer (ex_net 3) {0, 1, 2}))\<^sup>*\<^sup>*
      ([], ex_world 3, [])
      ([Returned ''h:1001'' (Set_job ''k'' ''v'') Status_OK r,
        Waiting ''h:1001'' (Set_job ''l'' ''x'') Deliver [fresh 0 (Set_job ''l'' ''x'')]], w1,
       [Call 0 ''h:1001'' (Set_job ''k'' ''v''), Return 0 Status_OK r, Call 1 ''h:1001'' (Set_job ''l'' ''x'')]) \<and>
    moves_of (crash_net (ex_net 3) {0}) (replicate t 0)
      (invoke (crash_net (ex_net 3) {0}) 9 ''h:1002'' (Get_job ''k'') ([], w1, [])) =
      ([Returned ''h:1002'' (Get_job ''k'') Status_OK \<lparr>get_error = 0, get_value = ''v''\<rparr>], w2,
       [Call 0 ''h:1002'' (Get_job ''k''), Return 0 Status_OK \<lparr>get_error = 0, get_value = ''v''\<rparr>]) \<and>
    leader (procs w2 1) = self_address (procs w2 1) \<and> leader (procs w2 2) = self_address (procs w2 1)"
proof -
  let ?N = "crash_net (ex_net 3) {}" and ?S = "{0, 1, 2 :: nat}"
  let ?k = "Set_job ''k'' ''v''" and ?l = "Set_job ''l'' ''x''"
  let ?step = "client_step ?N 2 (one_writer (ex_net 3) ?S)"
  have h: "healthy (ex_net 3) ?S {} 0 (ex_world 3) ex_data" by (rule ex_healthy; simp)
  from first_request [OF h ex_ordered _ _ _, of "''h:1001''" 0 ?k 9] obtain i w' r where
    first: "moves_of ?N (replicate i 0) (invoke ?N 9 ''h:1001'' ?k ([], ex_world 3, [])) =
      ([Returned ''h:1001'' ?k Status_OK r], w', [Call 0 ''h:1001'' ?k, Return 0 Status_OK r])"
    by (auto simp: may_write_def)
  let ?w = "tick (update 8 (count_out (stub_name ?l)) w')"
  let ?cs = "[Returned ''h:1001'' ?k Status_OK r, Waiting ''h:1001'' ?l Deliver [fresh 0 ?l]]"
  let ?h = "[Call 0 ''h:1001'' ?k, Return 0 Status_OK r, Call 1 ''h:1001'' ?l]"
  have second: "invoke ?N 8 ''h:1001'' ?l ([Returned ''h:1001'' ?k Status_OK r], w',
      [Call 0 ''h:1001'' ?k, Return 0 Status_OK r]) = (?cs, ?w, ?h)"
    by (simp add: invoke_def send_job_def)
  have "?step ([], ex_world 3, []) (invoke ?N 9 ''h:1001'' ?k ([], ex_world 3, []))"
    by (rule call) (simp_all add: one_writer_def)
  moreover note moves_of_steps [of ?N 2 "one_writer (ex_net 3) ?S"
      "invoke ?N 9 ''h:1001'' ?k ([], ex_world 3, [])" "replicate i 0", unfolded first]
  moreover have "?step ([Returned ''h:1001'' ?k Status_OK r], w', [Call 0 ''h:1001'' ?k, Return 0 Status_OK r])
      (?cs, ?w, ?h)"
    unfolding second [symmetric] by (rule call) (simp_all add: one_writer_def)
  ultimately have run: "?step\<^sup>*\<^sup>* ([], ex_world 3, []) (?cs, ?w, ?h)"
    by (meson converse_rtranclp_into_rtranclp rtranclp.rtrancl_into_rtrancl)
  have side: "0 \<in> ?S - {}" "d_leader ex_data = self_address (procs (ex_world 3) 0)" "0 + 2 * 2 + 2 \<le> (2 :: nat) ^ 31"
    "{} \<subseteq> {0 :: nat}" "0 \<in> {0 :: nat}" "card ?S \<le> 2 * card (?S - {0})" "\<forall>c \<in> set ?cs. cut_by {0} c"
    "database_route (ex_net 3) ''h:1002'' = Some 1" "1 \<in> ?S - {0 :: nat}"
    "writes_in (- cut_keys ?cs) (Get_job ''k'')"
    by (simp_all add: cut_by_def writes_in_def ex_data_def)
  note R = acknowledged_writes_survive [OF h ex_ordered side(1-3) run side(4-10), of 9]
  have ack: "acknowledged (map_of (d_kv ex_data)) ?h ''k'' = Some ''v''" by (simp add: acknowledged_def)
  have kv: "map_of (kv_store (procs ?w 1)) ''k'' = Some ''v''"
    by (rule disjE [OF bspec [OF R [THEN conjunct1] side(9), THEN spec [of _ "''k''"]]])
      (simp only: ack, simp)
  from R [THEN conjunct2] obtain t w2 g m where
    "moves_of (crash_net (ex_net 3) {0}) (replicate t 0)
      (invoke (crash_net (ex_net 3) {0}) 9 ''h:1002'' (Get_job ''k'') ([], ?w, [])) =
      ([Returned ''h:1002'' (Get_job ''k'') Status_OK g], w2, [Call 0 ''h:1002'' (Get_job ''k''), Return 0 Status_OK g])"
    and l: "\<forall>q' \<in> ?S - {0}. leader (procs w2 q') = self_address (procs w2 1)"
    and g: "perform (Get_job ''k'') (map_of (kv_store (procs ?w 1))) = (m, Status_OK, g)" by blast
  moreover from l have "leader (procs w2 1) = self_address (procs w2 1)" "leader (procs w2 2) = self_address (procs w2 1)"
    by simp_all
  moreover from g have "g = \<lparr>get_error = 0, get_value = ''v''\<rparr>" unfolding perform.simps kv by simp
  ultimately show ?thesis using run by blast
qed

text \<open>Claim C25: a request that nobody disturbs is the sequential code. Run alone on any network, with
  any losses on the way, the threads of a get return an answer and leave a world if and only
  if the stub of the user returns that answer and leaves that world, for some bound on the
  chain of forwards; and so for a set. In particular a request never returns in its threads
  exactly when the sequential code exceeds every bound.\<close>

theorem request_alone_is_stub:
  "((\<exists>k s r. moves_of N (replicate k 0) (invoke N p addr (Get_job key) ([], w, [])) =
      ([Returned addr (Get_job key) s r], w1, [Call 0 addr (Get_job key), Return 0 s r]) \<and>
      shown = (if ok s then get_value r else ''RPC failed !'')) \<longleftrightarrow>
    (\<exists>fuel. stub_get fuel N p addr key w = Some (w1, shown))) \<and>
  ((\<exists>k r. moves_of N (replicate k 0) (invoke N p addr (Set_job key v) ([], w, [])) =
      ([Returned addr (Set_job key v) status r], w2,
       [Call 0 addr (Set_job key v), Return 0 status r])) \<longleftrightarrow>
    (\<exists>fuel. stub_set fuel N p addr key v w = Some (w2, status)))"
proof (intro conjI iffI; elim exE conjE)
  fix k s r
  assume m: "moves_of N (replicate k 0) (invoke N p addr (Get_job key) ([], w, [])) =
      ([Returned addr (Get_job key) s r], w1, [Call 0 addr (Get_job key), Return 0 s r])"
    and "shown = (if ok s then get_value r else ''RPC failed !'')"
  moreover from m obtain fuel where
    "forward_job fuel N (Get_job key) addr (update p (count_out (stub_name (Get_job key))) w) = Some (w1, s, r)"
    by (rule returned_forward)
  ultimately show "\<exists>fuel. stub_get fuel N p addr key w = Some (w1, shown)"
    unfolding stub_get_forward by fastforce
next
  fix fuel assume "stub_get fuel N p addr key w = Some (w1, shown)"
  then obtain s r where
    "forward_job fuel N (Get_job key) addr (update p (count_out (stub_name (Get_job key))) w) = Some (w1, s, r)"
    and "shown = (if ok s then get_value r else ''RPC failed !'')"
    by (auto simp: stub_get_forward)
  with request_alone show "\<exists>k s r. moves_of N (replicate k 0) (invoke N p addr (Get_job key) ([], w, [])) =
      ([Returned addr (Get_job key) s r], w1, [Call 0 addr (Get_job key), Return 0 s r]) \<and>
      shown = (if ok s then get_value r else ''RPC failed !'')" by blast
next
  fix k r
  assume "moves_of N (replicate k 0) (invoke N p addr (Set_job key v) ([], w, [])) =
      ([Returned addr (Set_job key v) status r], w2, [Call 0 addr (Set_job key v), Return 0 status r])"
  then obtain fuel where
    "forward_job fuel N (Set_job key v) addr (update p (count_out (stub_name (Set_job key v))) w) = Some (w2, status, r)"
    by (rule returned_forward)
  then show "\<exists>fuel. stub_set fuel N p addr key v w = Some (w2, status)"
    unfolding stub_set_forward by fastforce
next
  fix fuel assume "stub_set fuel N p addr key v w = Some (w2, status)"
  then obtain r where
    "forward_job fuel N (Set_job key v) addr (update p (count_out (stub_name (Set_job key v))) w) = Some (w2, status, r)"
    by (auto simp: stub_set_forward)
  from request_alone [OF this]
  show "\<exists>k r. moves_of N (replicate k 0) (invoke N p addr (Set_job key v) ([], w, [])) =
      ([Returned addr (Set_job key v) status r], w2, [Call 0 addr (Set_job key v), Return 0 status r])" by blast
qed

text \<open>The leader of the example cluster is down. A set through process 1 and, on the same world, a get
  through process 2: each of them forwards in vain, elects its own process and asks it.\<close>

theorem request_alone_is_stub_witness:
  "\<exists>fuel w2. stub_set fuel (crash_net (ex_net 3) {0}) 9 ''h:1002'' ''k'' ''v'' (ex_world 3) = Some (w2, Status_OK) \<and>
    (\<exists>k r. moves_of (crash_net (ex_net 3) {0}) (replicate k 0)
      (invoke (crash_net (ex_net 3) {0}) 9 ''h:1002'' (Set_job ''k'' ''v'') ([], ex_world 3, [])) =
      ([Returned ''h:1002'' (Set_job ''k'' ''v'') Status_OK r], w2,
       [Call 0 ''h:1002'' (Set_job ''k'' ''v''), Return 0 Status_OK r])) \<and>
    (\<exists>fuel w1. stub_get fuel (crash_net (ex_net 3) {0}) 8 ''h:1003'' ''k'' (ex_world 3) = Some (w1, ''''))"
proof -
  let ?N = "crash_net (ex_net 3) {0}" and ?set = "Set_job ''k'' ''v''" and ?get = "Get_job ''k''"
  have h: "healthy (ex_net 3) {0, 1, 2} {0} 0 (ex_world 3) ex_data" by (rule ex_healthy) simp_all
  from first_request [OF h ex_ordered, of "''h:1002''" 1 ?set 9] obtain k w2 r where
    set: "moves_of ?N (replicate k 0) (invoke ?N 9 ''h:1002'' ?set ([], ex_world 3, [])) =
      ([Returned ''h:1002'' ?set Status_OK r], w2, [Call 0 ''h:1002'' ?set, Return 0 Status_OK r])"
    by (auto simp: may_write_def)
  with request_alone_is_stub [of ?N 9 "''h:1002''" "''k''" "ex_world 3" _ _ "''v''" Status_OK w2]
  obtain fuel where "stub_set fuel ?N 9 ''h:1002'' ''k'' ''v'' (ex_world 3) = Some (w2, Status_OK)" by blast
  moreover from first_request [OF h ex_ordered, of "''h:1003''" 2 ?get 8] obtain k' w1 r' where
    get: "moves_of ?N (replicate k' 0) (invoke ?N 8 ''h:1003'' ?get ([], ex_world 3, [])) =
      ([Returned ''h:1003'' ?get Status_OK r'], w1, [Call 0 ''h:1003'' ?get, Return 0 Status_OK r'])"
    and "snd (snd (perform ?get (map_of (d_kv ex_data)))) = r'"
    by (auto simp: may_write_def simp del: perform.simps)
  then have "get_value r' = ''''" by (auto simp: ex_data_def)
  with get have "\<exists>k s r. moves_of ?N (replicate k 0) (invoke ?N 8 ''h:1003'' ?get ([], ex_world 3, [])) =
      ([Returned ''h:1003'' ?get s r], w1, [Call 0 ''h:1003'' ?get, Return 0 s r]) \<and>
      '''' = (if ok s then get_value r else ''RPC failed !'')"
    by (intro exI [of _ k'] exI [of _ Status_OK] exI [of _ r']) simp
  from request_alone_is_stub [THEN conjunct1, THEN iffD1, OF this]
  have "\<exists>fuel. stub_get fuel ?N 8 ''h:1003'' ''k'' (ex_world 3) = Some (w1, '''')" .
  ultimately show ?thesis using set by blast
qed

text \<open>Claim C12: writes of different keys that overlap are serialisable. However the attempts
  interleave, every live process of the healthy cluster ends with exactly the replicated data,
  log included, that running them one after another leaves, in whatever order.\<close>

theorem overlapping_writes_serialise:
  assumes "healthy N S D n w d" and "ordered d" and "n + length calls < 2 ^ 31"
    and "distinct (map (\<lambda>c. req_key (snd c)) calls)" and "\<forall>(p, r) \<in> set calls. p \<in> S - D"
    and "\<forall>(p, r) \<in> set calls. req_key r = ''leader'' \<longrightarrow> (\<exists>q \<in> S. req_value r = self_address (procs w q))"
    and "run_schedule (crash_net N D) sched (readied calls, w) = (ps, w')"
    and "\<forall>i < length calls. 4 * card S + 5 \<le> count_list sched i"
    and "mset serial = mset calls" and "q \<in> S - D"
  shows "data_of (procs w' q) = data_of (procs (fst (attempts (in_turn (crash_net N D) serial) w)) q)"
proof -
  from assms(9) have set: "set serial = set calls" and len: "length serial = length calls"
    by (metis mset_eq_setD, metis size_mset)
  have "distinct (map req_key (map snd calls))" using assms(4) by (simp add: comp_def)
  moreover from this have "distinct (map req_key (map snd serial))"
    using assms(9) by (metis mset_map mset_eq_imp_distinct_iff)
  ultimately have "fold commit_data (map snd calls) d = fold commit_data (map snd serial) d"
    by (rule commits_commute [OF assms(2)]) (simp add: set)
  with isolated_serial [OF assms(1) _ assms(2,4,5,7,8,10)] serial_data [OF assms(1) _ _ _ assms(10), of serial]
    assms(3,5,6) set len show ?thesis by simp
qed

definition ex_overlap :: proposers where
  "ex_overlap = run_schedule (crash_net (ex_net 3) {2}) (replicate 17 0 @ replicate 17 1)
     (readied [(0, put ''k'' ''a''), (1, put ''l'' ''b'')], ex_world 3)"

theorem overlapping_writes_serialise_witness:
  "data_of (procs (snd ex_overlap) 1) =
    data_of (procs (fst (attempts (in_turn (crash_net (ex_net 3) {2})
      [(1, put ''l'' ''b''), (0, put ''k'' ''a'')]) (ex_world 3))) 1)"
proof (rule overlapping_writes_serialise [OF ex_down_healthy ex_ordered])
  let ?calls = "[(0, put ''k'' ''a''), (1, put ''l'' ''b'')]"
  show "run_schedule (crash_net (ex_net 3) {2}) (replicate 17 0 @ replicate 17 1) (readied ?calls, ex_world 3) =
      (fst ex_overlap, snd ex_overlap)" by (simp add: ex_overlap_def)
  show "\<forall>i < length ?calls. 4 * card {0, 1, 2 :: nat} + 5 \<le> count_list (replicate 17 0 @ replicate 17 1) i"
    by (auto simp: count_replicate count_list_append less_Suc_eq)
qed (simp_all add: put_def)

text \<open>Claim C29: an acknowledged write can be lost. In a healthy cluster of three the leader serves
  a set request; the last message of the attempt does not reach the two other processes, whose
  status is not looked at, and the request returns OK. The leader crashes. A get request at
  process 1 elects that process and answers, with status OK, that the key does not exist,
  although the value was accepted into its own log.\<close>

theorem acknowledged_write_is_lost:
  "\<exists>w1 w2. Database_set 1 unheard \<lparr>set_key = ''k'', set_value = ''v''\<rparr> False 0 (ex_world 3) =
      Some (w1, Status_OK, ()) \<and>
    map (\<lambda>q. kv_store (procs w1 q)) [0, 1, 2] = [[(''k'', ''v'')], [], []] \<and>
    Database_get 2 (crash_net (ex_net 3) {0}) \<lparr>get_key = ''k''\<rparr> False 1 w1 =
      Some (w2, Status_OK, \<lparr>get_error = 1, get_value = ''''\<rparr>) \<and>
    leader (procs w2 1) = ''h:2''"
proof -
  obtain w1 where w1: "ex_unheard_set = Some (w1, Status_OK, ())"
    and kv: "map (\<lambda>q. kv_store (procs w1 q)) [0, 1, 2] = [[(''k'', ''v'')], [], []]"
    using unheard_run unfolding map_option_eq_Some by auto
  from later_run [unfolded w1 bind.bind_lunit prod.case] obtain w2 where "ex_later_get w1 = Some (w2, Status_OK, \<lparr>get_error = 1, get_value = ''''\<rparr>)"
    "leader (procs w2 1) = ''h:2''" unfolding map_option_eq_Some by auto
  with w1 kv show ?thesis
    unfolding ex_unheard_set_def ex_later_get_def by (intro exI [of _ w1] exI [of _ w2] conjI)
qed

text \<open>Claim C30: a value that a user has read can be lost. In a healthy cluster of three the leader
  serves a set request, and a second user reads the key at the leader after the first of the
  last three messages: it answers with the new value and status OK, although no other process
  has it yet. The leader crashes, and a get request at process 1 is answered, with status OK,
  that the key does not exist. No message was lost.\<close>

theorem read_value_is_lost:
  "\<exists>cs w h t w'. (client_step (crash_net (ex_net 3) {}) 2 (one_writer (ex_net 3) {0, 1, 2}))\<^sup>*\<^sup>*
      ([], ex_world 3, []) (cs, w, h) \<and> list_all (cut_by {0}) cs \<and>
    Return 1 Status_OK \<lparr>get_error = 0, get_value = ''v''\<rparr> \<in> set h \<and>
    moves_of (crash_net (ex_net 3) {0}) (replicate t 0)
      (invoke (crash_net (ex_net 3) {0}) 8 ''h:1002'' (Get_job ''k'') ([], w, [])) =
      ([Returned ''h:1002'' (Get_job ''k'') Status_OK \<lparr>get_error = 1, get_value = ''''\<rparr>], w',
       [Call 0 ''h:1002'' (Get_job ''k''), Return 0 Status_OK \<lparr>get_error = 1, get_value = ''''\<rparr>])"
proof -
  obtain P where P: "ex_half = ([P], snd ex_half)" "\<not> finished P" "kv_store (procs (snd ex_half) 0) = [(''k'', ''v'')]"
    and kv: "kv_store (procs (snd ex_half) 1) = []" by (rule ex_half_state)
  let ?w = "fst (snd ex_dirty)"
  note eq = ex_dirty_eq [OF P]
  have "kv_store (procs ?w 1) = kv_store (procs (snd ex_half) 1)"
    by (rule same_state_kv) (simp add: eq)
  then have kv: "kv_store (procs ?w 1) = []" using kv by simp
  from ex_users [OF ex_dirty_run] have "users_ok UNIV (ex_net 3) {0, 1, 2} {} 0 0 2 (fst ex_dirty, ?w, snd (snd ex_dirty))"
    by simp
  from crash_request [OF this, of "{0}" "''h:1002''" 1 "Get_job ''k''" 8] obtain t w' r m where
    "moves_of (crash_net (ex_net 3) {0}) (replicate t 0)
      (invoke (crash_net (ex_net 3) {0}) 8 ''h:1002'' (Get_job ''k'') ([], ?w, [])) =
      ([Returned ''h:1002'' (Get_job ''k'') Status_OK r], w', [Call 0 ''h:1002'' (Get_job ''k''), Return 0 Status_OK r])"
    and g: "perform (Get_job ''k'') (map_of (kv_store (procs ?w 1))) = (m, Status_OK, r)"
    by (auto simp: writes_in_def)
  moreover from g have "r = \<lparr>get_error = 1, get_value = ''''\<rparr>" unfolding perform.simps kv by simp
  moreover have "list_all (cut_by {0}) (fst ex_dirty)" "Return 1 Status_OK \<lparr>get_error = 0, get_value = ''v''\<rparr> \<in> set (snd (snd ex_dirty))"
    by (simp_all add: eq cut_by_def)
  ultimately show ?thesis using ex_dirty_run by (metis prod.collapse)
qed

subsection \<open>Requests that circle\<close>

text \<open>\<open>p\<close> takes \<open>q\<close> for the leader and knows where its database listens.\<close>

definition names :: "Net \<Rightarrow> World \<Rightarrow> nat \<Rightarrow> nat \<Rightarrow> bool" where
  "names N w p q \<longleftrightarrow> leader (procs w p) \<noteq> '''' \<and>
     leader (procs w p) \<noteq> self_address (procs w p) \<and>
     (case map_of (memberList (procs w p)) (leader (procs w p)) of
        None \<Rightarrow> False
      | Some node \<Rightarrow> database_route N (databaseEndpoint node) = Some q)"

lemma names_frame [simp]:
  "names N (update x (count_in s) w) p q = names N w p q" "names N (tick w) p q = names N w p q"
  by (simp_all add: names_def)

lemma turn_names:
  assumes "names N w p q"
  shows "turn N (fresh p j # stack, w) =
    (let w1 = tick (update p (count_in (handler_name j)) w); f = fate N (clock w) q
     in if f = Drop then (at_point (fresh p j) Failing # stack, w1)
        else (\<lparr>ac_at = q, ac_job = j, ac_cancelled = (f = Cancel), ac_point = Entered\<rparr> #
              at_point (fresh p j) (Forwarded f) # stack, w1))"
  using assms
  by (auto simp: names_def turn.simps enter_def pass_on_def send_job_def Let_def split: option.splits)

text \<open>The stack after \<open>k\<close> delivered forwards: \<open>p\<close> at the bottom, then \<open>q\<close>, \<open>p\<close> and so on.\<close>

fun bounced :: "nat \<Rightarrow> job \<Rightarrow> nat \<Rightarrow> nat \<Rightarrow> activation list" where
  "bounced 0 j p q = [fresh p j]"
| "bounced (Suc k) j p q = bounced k j q p @ [at_point (fresh p j) (Forwarded Deliver)]"

lemma bounced_first: "\<exists>rest. bounced k j p q = fresh (if even k then p else q) j # rest"
proof (induction k arbitrary: p q)
  case (Suc k)
  from Suc.IH [of q p] show ?case by auto
qed simp

lemma bounced_head:
  "bounced k j p q = fresh (if even k then p else q) j # tl (bounced k j p q)"
  using bounced_first [of k j p q] by auto

lemma length_bounced: "length (bounced k j p q) = Suc k"
  by (induction k arbitrary: p q) simp_all

lemma bounce:
  assumes "names N w p q" and "names N w q p"
    and "\<forall>i < k. \<forall>x. fate N (clock w + i) x = Deliver"
  shows "\<exists>w'. (turn N ^^ k) (fresh p j # stack, w) = (bounced k j p q @ stack, w') \<and>
    names N w' p q \<and> names N w' q p \<and> clock w' = clock w + k \<and> (\<forall>x. data w' x = data w x)"
  using assms
proof (induction k arbitrary: p q w stack)
  case 0
  then show ?case by simp
next
  case (Suc k)
  let ?w = "tick (update p (count_in (handler_name j)) w)"
  have "fate N (clock w) q = Deliver" using Suc.prems(3) [rule_format, of 0 q] by simp
  with turn_names [OF Suc.prems(1), of j stack]
  have t: "turn N (fresh p j # stack, w) = (fresh q j # at_point (fresh p j) (Forwarded Deliver) # stack, ?w)"
    by (simp add: Let_def)
  have "fate N (clock ?w + i) x = Deliver" if "i < k" for i x
    using Suc.prems(3) [rule_format, of "Suc i" x] that by simp
  with Suc.IH [of ?w q p "at_point (fresh p j) (Forwarded Deliver) # stack"] Suc.prems(1,2) t
  show ?case by (auto simp: funpow_Suc_right data_simps simp del: funpow.simps)
qed

text \<open>Claim C38: requests can circle. Let two processes take each other for the leader. A request at
  one of them is forwarded from each to the other for as long as the calls are delivered, that
  is until the deadline of one of them expires: after \<open>k\<close> such forwards \<open>k + 1\<close> handlers are at
  work on the one request, by turns at the two processes, each but the last waiting for the
  next, and the log, the store and the leader of every process are untouched. The code has no
  other bound on the chain. The handler whose forward fails goes on to an election.\<close>

theorem mutual_leaders_bounce:
  assumes "names N w p q" and "names N w q p"
    and "\<forall>i < k. \<forall>x. fate N (clock w + i) x = Deliver"
  shows "\<exists>w'. (turn N ^^ k) ([fresh p j], w) = (bounced k j p q, w') \<and>
    clock w' = clock w + k \<and> (\<forall>x. data w' x = data w x) \<and>
    ((\<forall>x. fate N (clock w + k) x = Drop) \<longrightarrow>
      fst (turn N (bounced k j p q, w')) = at_point (hd (bounced k j p q)) Failing # tl (bounced k j p q))"
proof -
  from bounce [OF assms, of j "[]"] obtain w' where
    run: "(turn N ^^ k) ([fresh p j], w) = (bounced k j p q, w')" "clock w' = clock w + k" "\<forall>x. data w' x = data w x"
    and n: "names N w' p q" "names N w' q p" by auto
  have "fst (turn N (fresh (if even k then p else q) j # rest, w')) =
      at_point (fresh (if even k then p else q) j) Failing # rest"
    if "\<forall>x. fate N (clock w + k) x = Drop" for rest
    using n that run(2) by (cases "even k") (simp_all add: turn_names Let_def)
  note turn = this [of "tl (bounced k j p q)", folded bounced_head]
  have "hd (bounced k j p q) = fresh (if even k then p else q) j" by (subst bounced_head) simp
  with turn run show ?thesis by auto
qed

lemma self_leader: "self_address (P\<lparr>leader := a\<rparr>) = self_address P"
  by (simp add: self_address_def)

text \<open>Two processes of the example cluster that name each other, and a network that delivers 100 calls.\<close>

definition ex_mutual :: World where
  "ex_mutual = update 0 (\<lambda>P. P\<lparr>leader := ''h:2''\<rparr>) (ex_world 3)"

definition ex_hundred :: Net where
  "ex_hundred = (ex_net 3)\<lparr>fate := \<lambda>t q. if t < 100 then Deliver else Drop\<rparr>"

theorem mutual_leaders_bounce_witness:
  "\<exists>stack w'. (turn ex_hundred ^^ 100) ([fresh 0 (Get_job ''k'')], ex_mutual) = (stack, w') \<and>
    length stack = 101 \<and>
    fst (turn ex_hundred (stack, w')) = at_point (fresh 0 (Get_job ''k'')) Failing # tl stack"
proof -
  have n: "names ex_hundred ex_mutual 0 1" "names ex_hundred ex_mutual 1 0"
    by (simp_all add: names_def ex_hundred_def ex_mutual_def procs_update self_leader ex_members)
  have "\<forall>i < 100. \<forall>x. fate ex_hundred (clock ex_mutual + i) x = Deliver"
    "\<forall>x. fate ex_hundred (clock ex_mutual + 100) x = Drop"
    by (simp_all add: ex_hundred_def ex_mutual_def)
  with mutual_leaders_bounce [OF n this(1), of "Get_job ''k''"] obtain w' where
    run: "(turn ex_hundred ^^ 100) ([fresh 0 (Get_job ''k'')], ex_mutual) = (bounced 100 (Get_job ''k'') 0 1, w')"
    "fst (turn ex_hundred (bounced 100 (Get_job ''k'') 0 1, w')) =
      at_point (hd (bounced 100 (Get_job ''k'') 0 1)) Failing # tl (bounced 100 (Get_job ''k'') 0 1)"
    by blast
  have "hd (bounced 100 (Get_job ''k'') 0 1) = fresh 0 (Get_job ''k'')" by (subst bounced_head) simp
  with run show ?thesis by (intro exI conjI) (assumption, simp add: length_bounced, simp only:)
qed

end
