(* ===== verification/Acceptor_Threads.thy ===== *)
theory Acceptor_Threads
  imports Serial Simulation
begin

text \<open>
  The handlers \<open>propose\<close>, \<open>accept\<close> and \<open>success\<close> (rpc.cc) as threads. gRPC runs every
  call on a thread of its own, and a handler uses the log and the store through single
  operations, \<open>Set_Log\<close>, \<open>Get_Log\<close> and \<open>Set_KV\<close>, between which other handlers of the process
  run. \<open>Handling\<close> is one such call under way; each of its turns is one of these operations with
  the computation up to the next. The theory shows that a handler alone computes what
  \<open>Consensus_RPC\<close> says, and that handlers of one process behave as if each ran without
  interruption as long as no two of them handle the same key at once. \<open>Properties_Node\<close>
  shows what happens when two do.
\<close>

subsection \<open>A call under way\<close>

datatype rpc = Rpc_propose | Rpc_accept | Rpc_success

datatype place =
    Received
  | First_access
  | Second_access
  | Third_access
  | Answered Status "Response option"

record Handling =
  h_rpc :: rpc
  h_cancelled :: bool
  h_request :: Request
  h_place :: place

definition incoming :: "rpc \<Rightarrow> bool \<Rightarrow> Request \<Rightarrow> Handling" where
  "incoming m cancelled r =
     \<lparr>h_rpc = m, h_cancelled = cancelled, h_request = r, h_place = Received\<rparr>"

text \<open>
  The response of \<open>success\<close> is empty. A response of \<open>propose\<close> or \<open>accept\<close> is written when
  the handler returns: no other thread sees it before.
\<close>

definition propose_turn :: "Handling \<Rightarrow> Process \<Rightarrow> Handling \<times> Process" where
  "propose_turn h P =
     (let request = h_request h; key = req_key request; round = req_round request;
          p_server = req_pserver_id request
      in case h_place h of
           Received \<Rightarrow>
             (h\<lparr>h_place := if h_cancelled h then Answered cancelled_status (Some default_Response)
                          else First_access\<rparr>, count_in ''ConsensusRPC::propose'' P)
         | First_access \<Rightarrow>
             (h\<lparr>h_place := Second_access\<rparr>, P\<lparr>pax_log := Set_Log_proposal key round (pax_log P)\<rparr>)
         | Second_access \<Rightarrow>
             (let (entry, log) = Get_Log_round key round (pax_log P)
              in (h\<lparr>h_place :=
                     if p_server_id entry > p_server
                     then Answered (Status ABORTED ''Proposal is out of date.'') (Some default_Response)
                     else if a_server_id entry > 0
                     then Answered Status_OK (Some (default_Response\<lparr>
                            resp_aserver_id := a_server_id entry, resp_op := entry_op entry,
                            resp_value := accepted_value entry\<rparr>))
                     else Answered Status_OK (Some (default_Response\<lparr>resp_round := round,
                            resp_pserver_id := p_server\<rparr>))\<rparr>, P\<lparr>pax_log := log\<rparr>))
         | _ \<Rightarrow> (h, P))"

definition accept_turn :: "Handling \<Rightarrow> Process \<Rightarrow> Handling \<times> Process" where
  "accept_turn h P =
     (let request = h_request h; key = req_key request; round = req_round request;
          pserver_id = req_pserver_id request; aserver_id = req_aserver_id request;
          op = req_op request; v = req_value request
      in case h_place h of
           Received \<Rightarrow>
             (h\<lparr>h_place := if h_cancelled h then Answered cancelled_status (Some default_Response)
                          else First_access\<rparr>, count_in ''ConsensusRPC::accept'' P)
         | First_access \<Rightarrow>
             (let (entry, log) = Get_Log_round key round (pax_log P)
              in (h\<lparr>h_place := Second_access\<rparr>, P\<lparr>pax_log := log\<rparr>))
         | Second_access \<Rightarrow>
             (h\<lparr>h_place := Answered Status_OK (Some (default_Response\<lparr>resp_op := op,
                 resp_value := v, resp_pserver_id := pserver_id, resp_aserver_id := aserver_id,
                 resp_round := round\<rparr>))\<rparr>,
              P\<lparr>pax_log := Set_Log_accept key round pserver_id op v (pax_log P)\<rparr>)
         | _ \<Rightarrow> (h, P))"

definition success_turn :: "Handling \<Rightarrow> Process \<Rightarrow> Handling \<times> Process" where
  "success_turn h P =
     (let request = h_request h; key = req_key request; v = req_value request;
          round = req_round request; pserver_id = req_pserver_id request; op = req_op request
      in case h_place h of
           Received \<Rightarrow>
             (h\<lparr>h_place := if h_cancelled h then Answered cancelled_status None
                          else First_access\<rparr>, count_in ''ConsensusRPC::success'' P)
         | First_access \<Rightarrow>
             (h\<lparr>h_place := Second_access\<rparr>,
              P\<lparr>pax_log := Set_Log_accept key round pserver_id op v (pax_log P)\<rparr>)
         | Second_access \<Rightarrow>
             (let (m, log) = Get_Log_key key (pax_log P)
              in (h\<lparr>h_place := if largest_round m > round
                               then Answered (Status ABORTED ''Information is outdated.'') None
                               else Third_access\<rparr>, P\<lparr>pax_log := log\<rparr>))
         | Third_access \<Rightarrow>
             (h\<lparr>h_place := Answered Status_OK None\<rparr>,
              if key = ''leader'' then P\<lparr>leader := v\<rparr>
              else P\<lparr>kv_store := Set_KV key v (kv_store P)\<rparr>)
         | _ \<Rightarrow> (h, P))"

definition handle :: "Handling \<Rightarrow> Process \<Rightarrow> Handling \<times> Process" where
  "handle h P =
     (case h_rpc h of
        Rpc_propose \<Rightarrow> propose_turn h P
      | Rpc_accept \<Rightarrow> accept_turn h P
      | Rpc_success \<Rightarrow> success_turn h P)"

definition has_answered :: "Handling \<Rightarrow> bool" where
  "has_answered h \<longleftrightarrow> (case h_place h of Answered s resp \<Rightarrow> True | _ \<Rightarrow> False)"

definition handled_key :: "Handling \<Rightarrow> string" where
  "handled_key h = req_key (h_request h)"

lemmas turn_defs = handle_def propose_turn_def accept_turn_def success_turn_def

lemma handle_frame [simp]:
  "h_request (fst (handle h P)) = h_request h" "h_rpc (fst (handle h P)) = h_rpc h"
  "h_cancelled (fst (handle h P)) = h_cancelled h"
  by (auto simp: turn_defs Let_def split: rpc.split place.split prod.split)

lemma handled_key_handle [simp]: "handled_key (fst (handle h P)) = handled_key h"
  by (simp add: handled_key_def)

lemma handle_answered [simp]: "has_answered h \<Longrightarrow> handle h P = (h, P)"
  by (auto simp: turn_defs has_answered_def Let_def split: rpc.split place.splits)

lemma handle_leaves_Received: "h_place (fst (handle h P)) \<noteq> Received"
  by (auto simp: turn_defs Let_def split: rpc.split place.split prod.split)

subsection \<open>A handler alone\<close>

text \<open>The handler as a whole, as \<open>Consensus_RPC\<close> defines it.\<close>

definition whole :: "Handling \<Rightarrow> Process \<Rightarrow> Handling \<times> Process" where
  "whole h P =
     (let c = h_cancelled h; r = h_request h
      in case h_rpc h of
           Rpc_propose \<Rightarrow> (case propose c r P of (P, s, resp) \<Rightarrow>
             (h\<lparr>h_place := Answered s (Some resp)\<rparr>, P))
         | Rpc_accept \<Rightarrow> (case accept c r P of (P, s, resp) \<Rightarrow>
             (h\<lparr>h_place := Answered s (Some resp)\<rparr>, P))
         | Rpc_success \<Rightarrow> (case success c r P of (P, s, _) \<Rightarrow>
             (h\<lparr>h_place := Answered s None\<rparr>, P)))"

fun turns_alone :: "nat \<Rightarrow> Handling \<times> Process \<Rightarrow> Handling \<times> Process" where
  "turns_alone 0 st = st"
| "turns_alone (Suc n) (h, P) = turns_alone n (handle h P)"

lemma whole_answered: "has_answered (fst (whole h P))"
  by (auto simp: whole_def has_answered_def Let_def split: rpc.split prod.split)

lemma alone_is_whole:
  assumes "h_place h = Received"
  shows "turns_alone 4 (h, P) = whole h P"
  using assms
  by (cases "h_rpc h")
    (auto simp: numeral_eq_Suc turn_defs whole_def propose_def accept_def success_def Let_def
      split: prod.split)

subsection \<open>What a turn reads and writes\<close>

text \<open>The update of the data that a turn makes; \<open>Get_Log\<close> inserts what it does not find.\<close>

definition data_touch :: "Request \<Rightarrow> Data \<Rightarrow> Data" where
  "data_touch r d = d\<lparr>d_log := snd (Get_Log_key (req_key r) (d_log d))\<rparr>"

definition data_apply :: "Request \<Rightarrow> Data \<Rightarrow> Data" where
  "data_apply r d =
     (if req_key r = ''leader'' then d\<lparr>d_leader := req_value r\<rparr>
      else d\<lparr>d_kv := Set_KV (req_key r) (req_value r) (d_kv d)\<rparr>)"

definition turn_data :: "Handling \<Rightarrow> Data \<Rightarrow> Data" where
  "turn_data h =
     (let r = h_request h
      in case (h_rpc h, h_place h) of
           (Rpc_propose, First_access) \<Rightarrow> data_propose r
         | (Rpc_propose, Second_access) \<Rightarrow> data_propose r
         | (Rpc_accept, First_access) \<Rightarrow> data_propose r
         | (Rpc_accept, Second_access) \<Rightarrow> data_accept r
         | (Rpc_success, First_access) \<Rightarrow> data_accept r
         | (Rpc_success, Second_access) \<Rightarrow> data_touch r
         | (Rpc_success, Third_access) \<Rightarrow> data_apply r
         | _ \<Rightarrow> (\<lambda>d. d))"

lemma handle_data: "data_of (snd (handle h P)) = turn_data h (data_of P)"
  by (cases "h_rpc h"; cases "h_place h")
    (auto simp: turn_defs turn_data_def data_touch_def data_apply_def data_propose_def data_accept_def
      Get_Log_round_simps Let_def data_of_def count_in_def split: prod.split
      simp flip: Get_Log_round_simps(2))

lemma slot_touch:
  "slot k (data_touch r d) =
    (if k = req_key r then (Some (entries (fst (slot k d))), snd (slot k d)) else slot k d)"
  by (simp add: entries_slot)
    (auto simp: slot_def data_touch_def Get_Log_key_def smap_index_def split: option.split)

lemma slot_apply:
  "slot k (data_apply r d) =
    (if k = req_key r
     then (fst (slot k d), if k = ''leader'' then (req_value r, snd (snd (slot k d)))
                           else (fst (snd (slot k d)), Some (req_value r)))
     else slot k d)"
  by (auto simp: slot_def data_apply_def Set_KV_def)

lemma turn_data_cases:
  obtains "turn_data h = (\<lambda>d. d)" | "turn_data h = data_propose (h_request h)"
    | "turn_data h = data_accept (h_request h)" | "turn_data h = data_touch (h_request h)"
    | "turn_data h = data_apply (h_request h)"
  by (cases "h_rpc h"; cases "h_place h") (simp_all add: turn_data_def Let_def)

lemma turn_slot_other: "k \<noteq> handled_key h \<Longrightarrow> slot k (turn_data h d) = slot k d"
  by (cases h rule: turn_data_cases)
    (simp_all add: handled_key_def slot_ops slot_touch slot_apply)

lemma turn_slot_cong:
  assumes "slot k d = slot k d'"
  shows "slot k (turn_data h d) = slot k (turn_data h d')"
  by (cases h rule: turn_data_cases) (simp_all only: slot_ops slot_touch slot_apply assms)

lemma ordered_access:
  "ordered d \<Longrightarrow> ordered (data_touch r d)" "ordered d \<Longrightarrow> ordered (data_apply r d)"
  by (simp_all add: ordered_def data_touch_def data_apply_def log_ok_Get_Log_key Set_KV_ok)

lemma turn_ordered: "ordered d \<Longrightarrow> ordered (turn_data h d)"
  by (cases h rule: turn_data_cases) (simp_all add: ordered_ops ordered_access)

lemmas handle_slot_other = turn_slot_other [where d = "data_of P" for P, folded handle_data]

text \<open>A turn depends on the slot of its key only.\<close>

lemma handle_cong:
  assumes "slot (handled_key h) (data_of P) = slot (handled_key h) (data_of Q)"
  shows "fst (handle h P) = fst (handle h Q)"
    and "slot (handled_key h) (data_of (snd (handle h P))) =
      slot (handled_key h) (data_of (snd (handle h Q)))"
proof -
  from slot_log [OF assms]
  have "smap_index [] (pax_log P) (req_key (h_request h)) = smap_index [] (pax_log Q) (req_key (h_request h))"
    by (simp add: handled_key_def)
  then show "fst (handle h P) = fst (handle h Q)"
    by (cases "h_rpc h"; cases "h_place h")
      (simp_all add: turn_defs Get_Log_round_def Get_Log_key_def Let_def)
  show "slot (handled_key h) (data_of (snd (handle h P))) =
      slot (handled_key h) (data_of (snd (handle h Q)))"
    unfolding handle_data using assms by (rule turn_slot_cong)
qed

subsection \<open>Several handlers of one process\<close>

type_synonym handlings = "Handling list \<times> Process"

text \<open>The handlers that have used the log or the store and will do so again.\<close>

definition active :: "Handling \<Rightarrow> bool" where
  "active h \<longleftrightarrow> h_place h \<noteq> Received \<and> \<not> has_answered h"

definition undisturbed :: "Handling list \<Rightarrow> nat \<Rightarrow> bool" where
  "undisturbed hs i \<longleftrightarrow>
     (\<forall>j < length hs. j \<noteq> i \<longrightarrow> active (hs ! j) \<longrightarrow> handled_key (hs ! j) \<noteq> handled_key (hs ! i))"

text \<open>Any handler may take its next turn; with \<open>keyed\<close> set, only one whose key no other handler
  is at work on. The specification runs each handler as a whole.\<close>

inductive handling_step :: "bool \<Rightarrow> handlings \<Rightarrow> handlings \<Rightarrow> bool" for keyed where
  handler_turn: "i < length hs \<Longrightarrow> \<not> has_answered (hs ! i) \<Longrightarrow> (keyed \<longrightarrow> undisturbed hs i) \<Longrightarrow>
    handle (hs ! i) P = (h, P') \<Longrightarrow> handling_step keyed (hs, P) (hs[i := h], P')"

inductive whole_step :: "handlings \<Rightarrow> handlings \<Rightarrow> bool" where
  whole_turn: "i < length hs \<Longrightarrow> h_place (hs ! i) = Received \<Longrightarrow> whole (hs ! i) P = (h, P') \<Longrightarrow>
    whole_step (hs, P) (hs[i := h], P')"

inductive_cases handling_stepE: "handling_step keyed (hs, P) st"
inductive_cases whole_stepE: "whole_step (hs, P) st"

abbreviation "handling_steps keyed \<equiv> (handling_step keyed)\<^sup>*\<^sup>*"
abbreviation "whole_steps \<equiv> whole_step\<^sup>*\<^sup>*"

text \<open>A schedule names the handler of each turn.\<close>

fun run_handlers :: "nat list \<Rightarrow> handlings \<Rightarrow> handlings" where
  "run_handlers [] st = st"
| "run_handlers (i # is) (hs, P) =
     (if i < length hs \<and> \<not> has_answered (hs ! i)
      then (case handle (hs ! i) P of (h, P') \<Rightarrow> run_handlers is (hs[i := h], P'))
      else run_handlers is (hs, P))"

lemma run_handlers_steps: "handling_steps False st (run_handlers is st)"
proof (induction "is" arbitrary: st)
  case Nil
  then show ?case by simp
next
  case (Cons i "is")
  obtain hs P where st: "st = (hs, P)" by (cases st)
  show ?case
  proof (cases "i < length hs \<and> \<not> has_answered (hs ! i)")
    case True
    obtain h P' where h: "handle (hs ! i) P = (h, P')" by fastforce
    with True have "handling_step False (hs, P) (hs[i := h], P')" by (blast intro: handler_turn)
    with Cons.IH [of "(hs[i := h], P')"] True h show ?thesis
      by (simp add: st converse_rtranclp_into_rtranclp)
  next
    case False
    with Cons.IH show ?thesis by (auto simp: st)
  qed
qed

subsection \<open>Turns of a handler alone\<close>

lemma turns_alone_snoc:
  "turns_alone (Suc n) st = (case turns_alone n st of (h, P) \<Rightarrow> handle h P)"
proof (induction n arbitrary: st)
  case 0
  then show ?case by (cases st) simp
next
  case (Suc n)
  obtain h P where st: "st = (h, P)" by (cases st)
  have "turns_alone (Suc (Suc n)) st = turns_alone (Suc n) (handle h P)" by (simp add: st)
  also have "\<dots> = (case turns_alone n (handle h P) of (h, P) \<Rightarrow> handle h P)" by (rule Suc.IH)
  finally show ?case by (simp add: st)
qed

lemma turns_alone_add: "turns_alone (m + n) st = turns_alone n (turns_alone m st)"
  by (induction n) (simp_all add: turns_alone_snoc del: turns_alone.simps(2))

lemma turns_alone_answered: "has_answered (fst st) \<Longrightarrow> turns_alone n st = st"
  by (induction n) (auto simp: turns_alone_snoc simp del: turns_alone.simps(2) split: prod.split)

text \<open>However a handler alone comes to its answer, it has done what the whole handler does.\<close>

lemma turns_alone_whole:
  assumes "h_place h = Received" and "turns_alone n (h, P) = (h', P')" and "has_answered h'"
  shows "whole h P = (h', P')"
proof -
  have "turns_alone (n + 4) (h, P) = (h', P')"
    using assms by (simp add: turns_alone_add turns_alone_answered)
  moreover have "turns_alone (4 + n) (h, P) = whole h P"
    using alone_is_whole [OF assms(1)] whole_answered by (simp add: turns_alone_add turns_alone_answered)
  ultimately show ?thesis by (simp add: add.commute)
qed

lemma turns_alone_key: "turns_alone n (h, P) = (h', P') \<Longrightarrow> handled_key h' = handled_key h"
proof (induction n arbitrary: h P)
  case (Suc n)
  then show ?case by (cases "handle h P") (metis fst_conv handled_key_handle turns_alone.simps(2))
qed simp

lemma turns_alone_other:
  "turns_alone n (h, P) = (h', P') \<Longrightarrow> k \<noteq> handled_key h \<Longrightarrow> slot k (data_of P') = slot k (data_of P)"
proof (induction n arbitrary: h P)
  case (Suc n)
  from Suc.IH [of "fst (handle h P)" "snd (handle h P)"] Suc.prems show ?case
    by (simp add: handle_slot_other)
qed simp

lemma turns_alone_cong:
  assumes "slot (handled_key h) (data_of P) = slot (handled_key h) (data_of Q)"
  shows "fst (turns_alone n (h, P)) = fst (turns_alone n (h, Q)) \<and>
    slot (handled_key h) (data_of (snd (turns_alone n (h, P)))) =
    slot (handled_key h) (data_of (snd (turns_alone n (h, Q))))"
  using assms
proof (induction n arbitrary: h P Q)
  case (Suc n)
  obtain h' P' where hP: "handle h P = (h', P')" by fastforce
  with handle_cong(1) [OF Suc.prems] obtain Q' where hQ: "handle h Q = (h', Q')"
    by (metis fst_conv prod.collapse)
  have key: "handled_key h' = handled_key h" using handled_key_handle [of h P] hP by simp
  from handle_cong(2) [OF Suc.prems] Suc.IH [of h' P' Q'] show ?case by (simp add: hP hQ key)
qed simp

subsection \<open>Handlers that do not meet at a key\<close>

text \<open>
  The specification state \<open>Q\<close> holds what the answered handlers have done. A handler at work is
  where it would be if it had started at \<open>Q\<close> and run alone, as far as its own key goes; the
  keys that nobody is at work on are the same on both sides.
\<close>

definition keys_apart :: "Handling list \<Rightarrow> bool" where
  "keys_apart hs \<longleftrightarrow>
     (\<forall>i < length hs. \<forall>j < length hs. active (hs ! i) \<longrightarrow> active (hs ! j) \<longrightarrow>
        handled_key (hs ! i) = handled_key (hs ! j) \<longrightarrow> i = j)"

definition keeps_up :: "Handling \<Rightarrow> Process \<Rightarrow> Handling \<Rightarrow> Process \<Rightarrow> bool" where
  "keeps_up h P g Q \<longleftrightarrow>
     h_place g = Received \<and> handled_key g = handled_key h \<and>
     (\<exists>n Q'. turns_alone n (g, Q) = (h, Q') \<and>
        slot (handled_key h) (data_of P) = slot (handled_key h) (data_of Q'))"

definition simulates :: "handlings \<Rightarrow> handlings \<Rightarrow> bool" where
  "simulates st spec =
     (case (st, spec) of ((hs, P), (gs, Q)) \<Rightarrow>
        length gs = length hs \<and> keys_apart hs \<and>
        (\<forall>i < length hs. if active (hs ! i) then keeps_up (hs ! i) P (gs ! i) Q else gs ! i = hs ! i) \<and>
        (\<forall>k. (\<forall>i < length hs. active (hs ! i) \<longrightarrow> handled_key (hs ! i) \<noteq> k) \<longrightarrow>
           slot k (data_of P) = slot k (data_of Q)))"

lemma keeps_up_other:
  assumes "keeps_up h P g Q"
    and "slot (handled_key h) (data_of P') = slot (handled_key h) (data_of P)"
    and "slot (handled_key h) (data_of Q') = slot (handled_key h) (data_of Q)"
  shows "keeps_up h P' g Q'"
proof -
  from assms(1) obtain n B where g: "h_place g = Received" "handled_key g = handled_key h"
    and B: "turns_alone n (g, Q) = (h, B)" "slot (handled_key h) (data_of P) = slot (handled_key h) (data_of B)"
    by (auto simp: keeps_up_def)
  have "slot (handled_key g) (data_of Q) = slot (handled_key g) (data_of Q')"
    using assms(3) g(2) by simp
  from turns_alone_cong [OF this, of n] B g(2) assms(2) show ?thesis
    by (auto simp: keeps_up_def g(1) intro!: exI [of _ n] exI [of _ "snd (turns_alone n (g, Q'))"] prod_eqI)
qed

text \<open>The handler whose turn it is: another turn, or the answer that the whole handler gives.\<close>

lemma keeps_up_turn:
  assumes "keeps_up h P g Q" and h': "handle h P = (h', P')"
  shows "keeps_up h' P' g Q"
    and "has_answered h' \<Longrightarrow> \<exists>Q'. whole g Q = (h', Q') \<and>
      slot (handled_key h) (data_of P') = slot (handled_key h) (data_of Q') \<and>
      (\<forall>k. k \<noteq> handled_key h \<longrightarrow> slot k (data_of Q') = slot k (data_of Q))"
proof -
  from assms(1) obtain n B where g: "h_place g = Received" "handled_key g = handled_key h"
    and B: "turns_alone n (g, Q) = (h, B)" "slot (handled_key h) (data_of P) = slot (handled_key h) (data_of B)"
    by (auto simp: keeps_up_def)
  from handle_cong [OF B(2)] h' obtain B' where B': "handle h B = (h', B')"
    "slot (handled_key h) (data_of P') = slot (handled_key h) (data_of B')"
    by (metis fst_conv prod.collapse snd_conv)
  have run: "turns_alone (Suc n) (g, Q) = (h', B')" by (simp add: turns_alone_snoc B(1) B'(1) del: turns_alone.simps)
  have key: "handled_key h' = handled_key h" using handled_key_handle [of h P] h' by simp
  from run B'(2) show "keeps_up h' P' g Q" unfolding keeps_up_def key using g by blast
  assume "has_answered h'"
  from turns_alone_whole [OF g(1) run this] turns_alone_other [OF run] B'(2) g(2)
  show "\<exists>Q'. whole g Q = (h', Q') \<and> slot (handled_key h) (data_of P') = slot (handled_key h) (data_of Q') \<and>
      (\<forall>k. k \<noteq> handled_key h \<longrightarrow> slot k (data_of Q') = slot k (data_of Q))"
    by (intro exI [of _ B']) simp
qed

lemma simulatesD:
  assumes "simulates (hs, P) (gs, Q)"
  shows "length gs = length hs" "keys_apart hs"
    "i < length hs \<Longrightarrow> active (hs ! i) \<Longrightarrow> keeps_up (hs ! i) P (gs ! i) Q"
    "i < length hs \<Longrightarrow> \<not> active (hs ! i) \<Longrightarrow> gs ! i = hs ! i"
    "\<forall>i < length hs. active (hs ! i) \<longrightarrow> handled_key (hs ! i) \<noteq> k \<Longrightarrow>
      slot k (data_of P) = slot k (data_of Q)"
  using assms by (auto simp: simulates_def)

text \<open>A handler whose key is free keeps up, whether it is at work or about to start.\<close>

lemma simulates_turn:
  assumes sim: "simulates (hs, P) (gs, Q)" and i: "i < length hs" "\<not> has_answered (hs ! i)"
    and free: "undisturbed hs i"
  shows "keeps_up (hs ! i) P (gs ! i) Q"
proof (cases "active (hs ! i)")
  case True
  with simulatesD(3) [OF sim] i(1) show ?thesis by blast
next
  case False
  with i have place: "h_place (hs ! i) = Received" and g: "gs ! i = hs ! i"
    using simulatesD(4) [OF sim] by (auto simp: active_def)
  have "slot (handled_key (hs ! i)) (data_of P) = slot (handled_key (hs ! i)) (data_of Q)"
    using free False by (intro simulatesD(5) [OF sim]) (auto simp: undisturbed_def)
  with place g show ?thesis
    unfolding keeps_up_def by (intro conjI exI [of _ 0] exI [of _ Q]) simp_all
qed

lemma keys_apart_update:
  assumes "keys_apart hs" and free: "undisturbed hs i" and key: "handled_key h = handled_key (hs ! i)"
    and "i < length hs"
  shows "keys_apart (hs[i := h])"
  unfolding keys_apart_def
proof (intro allI impI)
  fix a b
  assume ab: "a < length (hs[i := h])" "b < length (hs[i := h])" "active (hs[i := h] ! a)"
    "active (hs[i := h] ! b)" "handled_key (hs[i := h] ! a) = handled_key (hs[i := h] ! b)"
  have away: "handled_key (hs ! j) \<noteq> handled_key (hs ! i)"
    if "j < length hs" "active (hs[i := h] ! j)" "j \<noteq> i" for j
    using free that by (simp add: undisturbed_def)
  consider "a = i" | "b = i" | "a \<noteq> i" "b \<noteq> i" by blast
  then show "a = b"
  proof cases
    case 1
    with ab away [of b] key \<open>i < length hs\<close> show ?thesis by (cases "b = i") simp_all
  next
    case 2
    with ab away [of a] key \<open>i < length hs\<close> show ?thesis by (cases "a = i") simp_all
  next
    case 3
    with ab assms(1) show ?thesis by (simp add: keys_apart_def)
  qed
qed

text \<open>The turn of one handler does not disturb what \<open>simulates\<close> says of the others.\<close>

lemma simulates_others:
  assumes sim: "simulates (hs, P) (gs, Q)" and free: "undisturbed hs i" and h: "handle (hs ! i) P = (h, P')"
  shows "j < length hs \<Longrightarrow> active (hs[i := h] ! j) \<Longrightarrow> j \<noteq> i \<Longrightarrow>
      (\<And>k. k \<noteq> handled_key (hs ! i) \<Longrightarrow> slot k (data_of R) = slot k (data_of Q)) \<Longrightarrow>
      keeps_up (hs[i := h] ! j) P' (gs ! j) R"
    and "j < length hs \<Longrightarrow> \<not> active (hs[i := h] ! j) \<Longrightarrow> j \<noteq> i \<Longrightarrow> gs ! j = hs[i := h] ! j"
    and "\<forall>j < length hs. active (hs[i := h] ! j) \<longrightarrow> handled_key (hs[i := h] ! j) \<noteq> k \<Longrightarrow>
      k \<noteq> handled_key (hs ! i) \<Longrightarrow> slot k (data_of P') = slot k (data_of Q)"
proof -
  note D = simulatesD [OF sim]
  have other: "slot k (data_of P') = slot k (data_of P)" if "k \<noteq> handled_key (hs ! i)" for k
    using handle_slot_other [OF that, of P] h by simp
  show "keeps_up (hs[i := h] ! j) P' (gs ! j) R"
    if "j < length hs" "active (hs[i := h] ! j)" "j \<noteq> i"
      "\<And>k. k \<noteq> handled_key (hs ! i) \<Longrightarrow> slot k (data_of R) = slot k (data_of Q)"
  proof -
    from that have j: "hs[i := h] ! j = hs ! j" "active (hs ! j)" by simp_all
    with free that(1,3) have "handled_key (hs ! j) \<noteq> handled_key (hs ! i)" by (simp add: undisturbed_def)
    then show ?thesis
      unfolding j(1) by (intro keeps_up_other [OF D(3) [OF that(1) j(2)]] other that(4))
  qed
  show "gs ! j = hs[i := h] ! j" if "j < length hs" "\<not> active (hs[i := h] ! j)" "j \<noteq> i"
    using that D(4) by simp
  assume all: "\<forall>j < length hs. active (hs[i := h] ! j) \<longrightarrow> handled_key (hs[i := h] ! j) \<noteq> k"
    and k: "k \<noteq> handled_key (hs ! i)"
  then have "\<forall>j < length hs. active (hs ! j) \<longrightarrow> handled_key (hs ! j) \<noteq> k"
    by (metis nth_list_update_neq)
  with D(5) other [OF k] show "slot k (data_of P') = slot k (data_of Q)" by simp
qed

lemma simulates_step:
  assumes sim: "simulates (hs, P) (gs, Q)" and i: "i < length hs" "\<not> has_answered (hs ! i)"
    and free: "undisturbed hs i" and h: "handle (hs ! i) P = (h, P')"
  shows "\<exists>spec. whole_steps (gs, Q) spec \<and> simulates (hs[i := h], P') spec"
proof -
  note D = simulatesD [OF sim]
  note still = simulates_others(1) [OF sim free h] and inactive = simulates_others(2) [OF sim free h]
    and quiet = simulates_others(3) [OF sim free h]
  have up: "keeps_up (hs ! i) P (gs ! i) Q" using assms(1-4) by (rule simulates_turn)
  have key: "handled_key h = handled_key (hs ! i)" using handled_key_handle [of "hs ! i" P] h by simp
  have apart: "keys_apart (hs[i := h])" using D(2) free key i(1) by (rule keys_apart_update)
  show ?thesis
  proof (cases "has_answered h")
    case False
    have act: "active h" using False handle_leaves_Received [of "hs ! i" P] h by (simp add: active_def)
    have "if active (hs[i := h] ! j) then keeps_up (hs[i := h] ! j) P' (gs ! j) Q
        else gs ! j = hs[i := h] ! j" if "j < length hs" for j
      using keeps_up_turn(1) [OF up h] act that still [OF that] inactive [OF that] by (cases "j = i") simp_all
    moreover have "k \<noteq> handled_key (hs ! i)"
      if "\<forall>j < length hs. active (hs[i := h] ! j) \<longrightarrow> handled_key (hs[i := h] ! j) \<noteq> k" for k
      using that i(1) act key by auto
    ultimately have "simulates (hs[i := h], P') (gs, Q)"
      using D(1) apart quiet by (simp add: simulates_def)
    then show ?thesis by blast
  next
    case True
    from keeps_up_turn(2) [OF up h True] obtain Q' where wh: "whole (gs ! i) Q = (h, Q')"
      and same: "slot (handled_key (hs ! i)) (data_of P') = slot (handled_key (hs ! i)) (data_of Q')"
      and rest: "\<And>k. k \<noteq> handled_key (hs ! i) \<Longrightarrow> slot k (data_of Q') = slot k (data_of Q)" by blast
    have inact: "\<not> active h" using True by (simp add: active_def)
    have whole: "whole_step (gs, Q) (gs[i := h], Q')"
      using wh up i(1) D(1) by (intro whole_turn) (simp_all add: keeps_up_def)
    have "if active (hs[i := h] ! j) then keeps_up (hs[i := h] ! j) P' (gs[i := h] ! j) Q'
        else gs[i := h] ! j = hs[i := h] ! j" if "j < length hs" for j
      using inact D(1) that still [OF that _ _ rest] inactive [OF that] by (cases "j = i") simp_all
    moreover have "slot k (data_of P') = slot k (data_of Q')"
      if "\<forall>j < length hs. active (hs[i := h] ! j) \<longrightarrow> handled_key (hs[i := h] ! j) \<noteq> k" for k
      using quiet [OF that] same rest by (cases "k = handled_key (hs ! i)") simp_all
    ultimately have "simulates (hs[i := h], P') (gs[i := h], Q')"
      using D(1) apart by (simp add: simulates_def)
    with whole show ?thesis by blast
  qed
qed

interpretation handlers: simulation "handling_step True" whole_step simulates
proof
  fix st spec st'
  assume "simulates st spec" and "handling_step True st st'"
  then show "\<exists>spec'. whole_steps spec spec' \<and> simulates st' spec'"
    using simulates_step by (cases st; cases spec) (fast elim!: handling_stepE)
qed

lemma simulates_start:
  assumes "\<forall>h \<in> set hs. h_place h = Received"
  shows "simulates (hs, P) (hs, P)"
proof -
  have "\<not> active (hs ! i)" if "i < length hs" for i using assms that by (simp add: active_def)
  then show ?thesis by (simp add: simulates_def keys_apart_def)
qed

lemma handling_ordered:
  "handling_steps keyed (hs, P) (hs', P') \<Longrightarrow> ordered (data_of P) \<Longrightarrow> ordered (data_of P')"
proof (induction rule: rtranclp_induct2)
  case (step hs1 P1 hs2 P2)
  from step.hyps(2) obtain i where "P2 = snd (handle (hs1 ! i) P1)"
    by (elim handling_stepE) (metis Pair_inject snd_conv)
  with step.IH step.prems show ?case by (simp add: handle_data turn_ordered)
qed simp

lemma whole_ordered: "ordered (data_of P) \<Longrightarrow> ordered (data_of (snd (whole h P)))"
  by (cases "h_rpc h"; cases "h_cancelled h")
    (auto simp: whole_def data_simps ordered_ops Let_def split: prod.split dest!: arg_cong [where f = fst])

lemma whole_steps_ordered:
  "whole_steps (hs, P) (hs', P') \<Longrightarrow> ordered (data_of P) \<Longrightarrow> ordered (data_of P')"
proof (induction rule: rtranclp_induct2)
  case (step hs1 P1 hs2 P2)
  from step.hyps(2) obtain i where "P2 = snd (whole (hs1 ! i) P1)"
    by (elim whole_stepE) (metis Pair_inject snd_conv)
  with step.IH step.prems show ?case by (simp add: whole_ordered)
qed simp

end
