(* ===== verification/Acceptor_Spec.thy ===== *)
theory Acceptor_Spec
  imports Acceptor_Threads
begin

text \<open>
  What an acceptor promises (rpc.cc, \<open>propose\<close>, \<open>accept\<close>, \<open>success\<close>), stated without its log:
  a process answers from the messages it has received since it started. \<open>expected\<close> is the
  answer to a message after the messages \<open>h\<close>; \<open>chosen\<close> are the values that \<open>success\<close> has put
  under a key. The log of the code is one representation of these messages (\<open>represents\<close>).
\<close>

subsection \<open>The messages\<close>

type_synonym message = "rpc \<times> bool \<times> Request"
type_synonym answer = "Status \<times> Response option"

fun respond :: "message \<Rightarrow> Process \<Rightarrow> answer \<times> Process" where
  "respond (Rpc_propose, c, r) P = (case propose c r P of (P', s, resp) \<Rightarrow> ((s, Some resp), P'))"
| "respond (Rpc_accept, c, r) P = (case accept c r P of (P', s, resp) \<Rightarrow> ((s, Some resp), P'))"
| "respond (Rpc_success, c, r) P = (case success c r P of (P', s, u) \<Rightarrow> ((s, None), P'))"

fun respond_all :: "message list \<Rightarrow> Process \<Rightarrow> answer list \<times> Process" where
  "respond_all [] P = ([], P)"
| "respond_all (m # ms) P =
     (case respond m P of (a, P') \<Rightarrow> (case respond_all ms P' of (as, P'') \<Rightarrow> (a # as, P'')))"

lemma respond_all_snoc:
  "respond_all (ms @ [m]) P =
    (case respond_all ms P of (as, P') \<Rightarrow> (case respond m P' of (a, P'') \<Rightarrow> (as @ [a], P'')))"
  by (induction ms arbitrary: P) (simp_all split: prod.split)

lemma length_respond_all: "length (fst (respond_all ms P)) = length ms"
  by (induction ms arbitrary: P) (simp_all split: prod.split, metis fst_conv)

subsection \<open>What the messages determine\<close>

fun concerns :: "string \<Rightarrow> int \<Rightarrow> message \<Rightarrow> bool" where
  "concerns key rnd (m, c, r) \<longleftrightarrow> \<not> c \<and> req_key r = key \<and> req_round r = rnd"

fun votes_for :: "string \<Rightarrow> int \<Rightarrow> message \<Rightarrow> bool" where
  "votes_for key rnd (m, c, r) \<longleftrightarrow> m \<noteq> Rpc_propose \<and> concerns key rnd (m, c, r)"

text \<open>The vote of a round is the last acceptance or announcement of it.\<close>

definition voted :: "message list \<Rightarrow> string \<Rightarrow> int \<Rightarrow> Request option" where
  "voted h key rnd =
     (let ms = filter (votes_for key rnd) h in if ms = [] then None else Some (snd (snd (last ms))))"

text \<open>A round is overtaken when a message has named a later round of its key, be it a mere
  proposal.\<close>

definition overtaken :: "message list \<Rightarrow> Request \<Rightarrow> bool" where
  "overtaken h r \<longleftrightarrow>
     list_ex (\<lambda>(m, c, r'). \<not> c \<and> req_key r' = req_key r \<and> req_round r < req_round r') h"

fun chosen_now :: "message list \<Rightarrow> string \<Rightarrow> message \<Rightarrow> bool" where
  "chosen_now h key (m, c, r) \<longleftrightarrow> m = Rpc_success \<and> \<not> c \<and> req_key r = key \<and> \<not> overtaken h r"

definition chosen :: "message list \<Rightarrow> string \<Rightarrow> string list" where
  "chosen h key = map (\<lambda>i. req_value (snd (snd (h ! i))))
     (filter (\<lambda>i. chosen_now (take i h) key (h ! i)) [0..<length h])"

fun expected :: "message list \<Rightarrow> message \<Rightarrow> answer" where
  "expected h (m, c, r) =
     (if c then (cancelled_status, if m = Rpc_success then None else Some default_Response)
      else case m of
          Rpc_propose \<Rightarrow>
            (Status_OK, Some (case voted h (req_key r) (req_round r) of
               None \<Rightarrow> default_Response\<lparr>resp_round := req_round r, resp_pserver_id := req_pserver_id r\<rparr>
             | Some v \<Rightarrow> default_Response\<lparr>resp_aserver_id := req_pserver_id v, resp_op := req_op v,
                           resp_value := req_value v\<rparr>))
        | Rpc_accept \<Rightarrow> (Status_OK, Some (echo r))
        | Rpc_success \<Rightarrow>
            (if overtaken h r then Status ABORTED ''Information is outdated.'' else Status_OK, None))"

text \<open>A proposer numbers its messages from 1, and rounds are C++ integers.\<close>

fun numbered :: "message \<Rightarrow> bool" where
  "numbered (m, c, r) \<longleftrightarrow> 0 < req_pserver_id r \<and> INT_MIN \<le> req_round r"

lemma voted_snoc:
  "voted (h @ [(m, c, r)]) key rnd =
    (if votes_for key rnd (m, c, r) then Some r else voted h key rnd)"
  by (simp add: voted_def Let_def)

lemma voted_concerns: "voted h key rnd = Some v \<Longrightarrow> list_ex (concerns key rnd) h"
  by (induction h rule: rev_induct) (auto simp: voted_snoc, simp add: voted_def)

lemma voted_numbered: "voted h key rnd = Some v \<Longrightarrow> list_all numbered h \<Longrightarrow> 0 < req_pserver_id v"
  by (induction h rule: rev_induct) (auto simp: voted_snoc split: if_splits, simp add: voted_def)

lemma chosen_snoc:
  "chosen (h @ [(m, c, r)]) key =
    chosen h key @ (if chosen_now h key (m, c, r) then [req_value r] else [])"
proof -
  have "filter (\<lambda>i. chosen_now (take i (h @ [(m, c, r)])) key ((h @ [(m, c, r)]) ! i)) [0..<length h] =
      filter (\<lambda>i. chosen_now (take i h) key (h ! i)) [0..<length h]"
    by (rule filter_cong) (simp_all add: nth_append)
  moreover have "map (\<lambda>i. req_value (snd (snd ((h @ [(m, c, r)]) ! i)))) (filter p [0..<length h]) =
      map (\<lambda>i. req_value (snd (snd (h ! i)))) (filter p [0..<length h])" for p
    by (simp add: nth_append)
  ultimately show ?thesis by (simp add: chosen_def)
qed

lemma overtaken_iff:
  "overtaken h r \<longleftrightarrow> (\<exists>later > req_round r. list_ex (concerns (req_key r) later) h)"
  by (force simp: overtaken_def list_ex_iff)

subsection \<open>Later rounds in a log\<close>

lemma largest_round_later:
  assumes "log_ok lg" and "INT_MIN \<le> b"
  shows "largest_round (smap_index [] lg key) > b \<longleftrightarrow> (\<exists>later > b. log_find lg key later \<noteq> None)"
proof -
  have mem: "(rnd, e) \<in> set (smap_index [] lg key) \<longleftrightarrow> log_find lg key rnd = Some e" for rnd e
    using smap_in_iff [OF log_ok_index [OF assms(1)]] by (simp add: log_find_def)
  have "largest_round (smap_index [] lg key) \<le> b"
    if "\<nexists>later. later > b \<and> log_find lg key later \<noteq> None"
    using that assms(2) by (intro largest_round_le) (auto simp: mem not_less)
  moreover have "largest_round (smap_index [] lg key) > b"
    if "later > b" "log_find lg key later = Some e" for later e
    using largest_round_ge [of later e "smap_index [] lg key"] that mem by simp
  ultimately show ?thesis by (meson not_None_eq not_less)
qed

lemma outdated_iff:
  assumes "log_ok (d_log d)" and "INT_MIN \<le> req_round r"
  shows "outdated r d \<longleftrightarrow> (\<exists>later > req_round r. log_find (d_log d) (req_key r) later \<noteq> None)"
  using largest_round_later [OF log_ok_accept [OF assms(1)] assms(2)]
  by (auto simp: outdated_def data_accept_def log_find_accept) (metis less_irrefl)

lemma d_kv_success:
  "d_kv (data_success r d) =
    (if outdated r d \<or> req_key r = ''leader'' then d_kv d
     else Set_KV (req_key r) (req_value r) (d_kv d))"
  by (simp add: data_success_def data_accept_def Let_def)

lemma d_leader_success:
  "d_leader (data_success r d) =
    (if \<not> outdated r d \<and> req_key r = ''leader'' then req_value r else d_leader d)"
  by (simp add: data_success_def data_accept_def Let_def)

lemma d_log_success: "d_log (data_success r d) = d_log (data_accept r d)"
  by (simp add: data_success_def Let_def)

subsection \<open>The log as a record of the messages\<close>

text \<open>Every round a message named has an entry, with the vote when there is one.\<close>

definition entry_of :: "message list \<Rightarrow> string \<Rightarrow> int \<Rightarrow> LogEntry option" where
  "entry_of h key rnd =
     (if list_ex (concerns key rnd) h
      then Some (case voted h key rnd of
                   None \<Rightarrow> default_LogEntry
                 | Some v \<Rightarrow> \<lparr>p_server_id = 0, a_server_id = req_pserver_id v, entry_op = req_op v,
                              accepted_value = req_value v\<rparr>)
      else None)"

definition represents :: "Data \<Rightarrow> message list \<Rightarrow> Data \<Rightarrow> bool" where
  "represents d0 h d \<longleftrightarrow> log_ok (d_log d) \<and> log_find (d_log d) = entry_of h \<and>
     (\<forall>key. map_of (d_kv d) key =
        (if key = ''leader'' \<or> chosen h key = [] then map_of (d_kv d0) key
         else Some (last (chosen h key)))) \<and>
     d_leader d = (if chosen h ''leader'' = [] then d_leader d0 else last (chosen h ''leader''))"

lemma representsD:
  assumes "represents d0 h d"
  shows "log_ok (d_log d)" and "log_find (d_log d) = entry_of h"
  using assms by (simp_all add: represents_def)

lemma entry_of_cancelled: "entry_of (h @ [(m, True, r)]) = entry_of h"
  by (simp add: entry_of_def voted_snoc fun_eq_iff)

lemma entry_of_propose:
  "entry_of (h @ [(Rpc_propose, False, r)]) key rnd =
    (if key = req_key r \<and> rnd = req_round r \<and> entry_of h (req_key r) (req_round r) = None
     then Some default_LogEntry else entry_of h key rnd)"
  using voted_concerns [of h key rnd]
  by (cases "voted h key rnd") (auto simp: entry_of_def voted_snoc)

lemma entry_of_vote:
  assumes "m \<noteq> Rpc_propose"
  shows "entry_of (h @ [(m, False, r)]) key rnd =
    (if key = req_key r \<and> rnd = req_round r
     then Some \<lparr>p_server_id = 0, a_server_id = req_pserver_id r, entry_op = req_op r,
                accepted_value = req_value r\<rparr>
     else entry_of h key rnd)"
  using assms by (auto simp: entry_of_def voted_snoc)

lemma entry_of_proposer: "entry_of h key rnd = Some e \<Longrightarrow> p_server_id e = 0"
  by (auto simp: entry_of_def default_LogEntry_def split: if_splits option.splits)

lemma outdated_overtaken:
  assumes "represents d0 h d" and "INT_MIN \<le> req_round r"
  shows "outdated r d \<longleftrightarrow> overtaken h r"
  using representsD [OF assms(1)] assms(2) by (auto simp: outdated_iff overtaken_iff entry_of_def)

lemma represents_cancelled: "represents d0 h d \<Longrightarrow> represents d0 (h @ [(m, True, r)]) d"
  by (simp add: represents_def entry_of_cancelled chosen_snoc)

lemma represents_propose:
  assumes "represents d0 h d"
  shows "represents d0 (h @ [(Rpc_propose, False, r)]) (data_propose r d)"
  using assms
  by (simp add: represents_def chosen_snoc data_propose_def log_ok_proposal fun_eq_iff
      log_find_proposal entry_of_propose)

lemma accepted_entries:
  assumes "represents d0 h d" and "m \<noteq> Rpc_propose"
  shows "log_ok (d_log (data_accept r d))"
    and "log_find (d_log (data_accept r d)) = entry_of (h @ [(m, False, r)])"
  using representsD [OF assms(1)] entry_of_proposer [of h]
  by (auto simp: data_accept_def log_ok_accept fun_eq_iff log_find_accept entry_of_vote [OF assms(2)]
      split: option.split)

lemma represents_accept:
  assumes "represents d0 h d"
  shows "represents d0 (h @ [(Rpc_accept, False, r)]) (data_accept r d)"
  using assms accepted_entries [OF assms, of Rpc_accept r]
  by (simp add: represents_def chosen_snoc) (simp add: data_accept_def)

lemma represents_success:
  assumes "represents d0 h d" and "INT_MIN \<le> req_round r"
  shows "represents d0 (h @ [(Rpc_success, False, r)]) (data_success r d)"
  using assms(1) accepted_entries [OF assms(1), of Rpc_success r] outdated_overtaken [OF assms]
  by (auto simp: represents_def chosen_snoc d_log_success d_kv_success d_leader_success Set_KV_def)

lemma propose_expected:
  assumes "represents d0 h d" and "list_all numbered h" and "0 < req_pserver_id r"
  shows "answer_propose r d = (fst (expected h (Rpc_propose, False, r)), the (snd (expected h (Rpc_propose, False, r))))"
  using representsD(2) [OF assms(1)] voted_numbered [OF _ assms(2)] assms(3)
    voted_concerns [of h "req_key r" "req_round r"]
  by (auto simp: answer_propose_def Let_def entry_of_def default_LogEntry_def split: option.split)

lemma respond_expected:
  assumes "represents d0 h (data_of P)" and "list_all numbered h" and "numbered m"
    and "respond m P = (a, P')"
  shows "a = expected h m \<and> represents d0 (h @ [m]) (data_of P')"
proof -
  obtain p c r where m: "m = (p, c, r)" by (metis prod_cases3)
  show ?thesis
  proof (cases c)
    case True
    with assms(1,4) m show ?thesis
      by (cases p) (auto simp: data_simps represents_cancelled default_defs)
  next
    case False
    with assms m show ?thesis
      using represents_propose [OF assms(1), of r] represents_accept [OF assms(1), of r]
        represents_success [OF assms(1), of r] propose_expected [OF assms(1,2), of r]
        outdated_overtaken [OF assms(1), of r]
        propose_data [of r P] accept_data [of r P] success_data [of r P]
      by (cases p) (auto simp: answer_success_def split: prod.splits)
  qed
qed

lemma respond_all_expected:
  assumes "represents d0 [] (data_of P)" and "list_all numbered ms"
    and "respond_all ms P = (as, P')"
  shows "represents d0 ms (data_of P') \<and> (\<forall>i < length ms. as ! i = expected (take i ms) (ms ! i))"
  using assms(2,3)
proof (induction ms arbitrary: as P' rule: rev_induct)
  case Nil
  with assms(1) show ?case by simp
next
  case (snoc m ms)
  obtain bs Q where q: "respond_all ms P = (bs, Q)" by fastforce
  obtain a Q' where a: "respond m Q = (a, Q')" by fastforce
  from snoc.prems q a have as: "as = bs @ [a]" "P' = Q'" by (simp_all add: respond_all_snoc)
  have len: "length bs = length ms" using length_respond_all [of ms P] q by simp
  from snoc q have IH: "represents d0 ms (data_of Q)" "\<forall>i < length ms. bs ! i = expected (take i ms) (ms ! i)"
    by simp_all
  from respond_expected [OF IH(1) _ _ a] snoc.prems(1)
  have "a = expected ms m" "represents d0 (ms @ [m]) (data_of Q')" by simp_all
  with IH(2) show ?case by (auto simp: as len nth_append less_Suc_eq)
qed

text \<open>A process that has started has an empty log.\<close>

lemma represents_start: "d_log d = [] \<Longrightarrow> represents d [] d"
  by (simp add: represents_def entry_of_def chosen_def log_find_def smap_index_def fun_eq_iff)


end
