(* ===== verification/Properties_Acceptor.thy ===== *)
theory Properties_Acceptor
  imports Acceptor_Spec Example_Cluster
begin

text \<open>
  The properties of the acceptor handlers: what they answer, given the messages before, and what
  happens when several run at once in one process. Without a second handler at work on the same
  key each is atomic, and two handlers of \<open>success\<close> at one key are not.
\<close>

subsection \<open>What an acceptor promises\<close>

text \<open>Claim C27: an acceptor answers from the messages it has received, and from nothing else. Let a
  process with an empty log receive any messages of \<open>propose\<close>, \<open>accept\<close> and \<open>success\<close>, with
  positive proposal numbers as \<open>AttemptConsensus\<close> sends them, some of them cancelled. It never refuses a proposal, and reports the vote of a round exactly when an
  acceptance or an announcement of that round came before, namely the last one; it echoes an
  acceptance; and it refuses an announcement exactly when an earlier message, even a mere
  proposal, named a later round of the key. The value of a key is that of the last announcement
  that was not refused, the leader likewise, the log has an entry exactly for the rounds that
  were named, and a cancelled message has no effect.\<close>

theorem acceptor_answers_from_messages:
  assumes "pax_log P = []" and "\<forall>m \<in> set ms. numbered m" and "respond_all ms P = (as, P')"
  shows "as = map (\<lambda>i. expected (take i ms) (ms ! i)) [0..<length ms] \<and>
    (\<forall>key. map_of (kv_store P') key =
       (if key = ''leader'' \<or> chosen ms key = [] then map_of (kv_store P) key
        else Some (last (chosen ms key)))) \<and>
    leader P' = (if chosen ms ''leader'' = [] then leader P else last (chosen ms ''leader'')) \<and>
    (\<forall>key rnd. log_find (pax_log P') key rnd \<noteq> None \<longleftrightarrow> list_ex (concerns key rnd) ms)"
proof -
  have "represents (data_of P) [] (data_of P)"
    using assms(1) by (simp add: represents_start)
  from respond_all_expected [OF this _ assms(3)] assms(2)
  have r: "represents (data_of P) ms (data_of P')"
    and as: "\<forall>i < length ms. as ! i = expected (take i ms) (ms ! i)" by (simp_all add: list_all_iff)
  have "length as = length ms" using length_respond_all [of ms P] assms(3) by simp
  with as have "as = map (\<lambda>i. expected (take i ms) (ms ! i)) [0..<length ms]" by (intro nth_equalityI) simp_all
  moreover have "log_find (pax_log P') key rnd \<noteq> None \<longleftrightarrow> list_ex (concerns key rnd) ms" for key rnd
    using representsD(2) [OF r] by (simp add: entry_of_def)
  ultimately show ?thesis using r by (simp add: represents_def)
qed

definition ex_message :: "rpc \<Rightarrow> int \<Rightarrow> string \<Rightarrow> message" where
  "ex_message m rnd v = (m, False, default_Request\<lparr>req_key := ''k'', req_round := rnd, req_pserver_id := 1,
     req_value := v\<rparr>)"

text \<open>A value is accepted at round 0 and reported to the next proposer; a proposal of round 5 makes its
  announcement fail, and the announcement of round 5 takes effect.\<close>

definition ex_messages :: "message list" where
  "ex_messages = [ex_message Rpc_propose 0 ''a'', ex_message Rpc_accept 0 ''a'',
     ex_message Rpc_propose 0 ''b'', ex_message Rpc_propose 5 ''b'', ex_message Rpc_success 0 ''a'',
     ex_message Rpc_success 5 ''b'']"

theorem acceptor_answers_from_messages_witness:
  "\<exists>as P'. respond_all ex_messages (ex_process 3 0) = (as, P') \<and>
    resp_value (the (snd (as ! 2))) = ''a'' \<and> fst (as ! 4) = Status ABORTED ''Information is outdated.'' \<and>
    fst (as ! 5) = Status_OK \<and> map_of (kv_store P') ''k'' = Some ''b''"
proof -
  obtain as P' where run: "respond_all ex_messages (ex_process 3 0) = (as, P')" by fastforce
  have side: "pax_log (ex_process 3 0) = []" "\<forall>m \<in> set ex_messages. numbered m"
    by (simp_all add: ex_process_def ex_messages_def ex_message_def INT_MIN_def default_Request_def)
  have now: "resp_value (the (snd (expected (take 2 ex_messages) (ex_messages ! 2)))) = ''a''"
    "fst (expected (take 4 ex_messages) (ex_messages ! 4)) = Status ABORTED ''Information is outdated.''"
    "fst (expected (take 5 ex_messages) (ex_messages ! 5)) = Status_OK"
    "chosen ex_messages ''k'' = [''b'']" "length ex_messages = 6"
    by code_simp+
  note R = acceptor_answers_from_messages [OF side run]
  have "as ! i = expected (take i ex_messages) (ex_messages ! i)" if "i < 6" for i
    using R [THEN conjunct1] that by (simp add: now(5))
  from this [of 2] this [of 4] this [of 5] R [THEN conjunct2, THEN conjunct1] now run
  show ?thesis by auto
qed

subsection \<open>Handlers at different keys\<close>

text \<open>Claim C11: handlers of one process run as if none were interrupted. When handlers of
  \<open>propose\<close>, \<open>accept\<close> and \<open>success\<close> interleave at every use of the log and the store, and a
  handler takes a turn only while no other is at work on its key, then running the same
  handlers one after another, each as a whole, gives the same answers to the callers and leaves
  the same log, store and leader.\<close>

theorem handlers_are_atomic:
  assumes "handling_steps True (hs, P) (hs', P')"
    and "\<forall>h \<in> set hs. h_place h = Received" and "\<forall>h \<in> set hs'. has_answered h"
    and "ordered (data_of P)"
  shows "\<exists>Q. whole_steps (hs, P) (hs', Q) \<and> data_of Q = data_of P'"
proof -
  from handlers.sim_run [OF assms(1) simulates_start [OF assms(2)]] obtain gs Q
    where run: "whole_steps (hs, P) (gs, Q)" and sim: "simulates (hs', P') (gs, Q)" by force
  have idle: "\<not> active (hs' ! i)" if "i < length hs'" for i
    using assms(3) that by (simp add: active_def)
  have "gs = hs'"
    using simulatesD(1,4) [OF sim] idle by (intro nth_equalityI) simp_all
  moreover have "data_of Q = data_of P'"
  proof (rule slots_determine)
    show "ordered (data_of Q)" using run assms(4) by (rule whole_steps_ordered)
    show "ordered (data_of P')" using assms(1,4) by (rule handling_ordered)
    show "slot k (data_of Q) = slot k (data_of P')" for k
      using simulatesD(5) [OF sim, of k] idle by simp
  qed
  ultimately show ?thesis using run by blast
qed

text \<open>Handlers of different keys need no care.\<close>

lemma handlings_keys: "handling_steps b (hs, P) (hs', P') \<Longrightarrow> map handled_key hs' = map handled_key hs"
proof (induction rule: rtranclp_induct2)
  case (step hs1 P1 hs2 P2)
  from step.hyps(2) obtain i where "i < length hs1" "hs2 = hs1[i := fst (handle (hs1 ! i) P1)]"
    by (elim handling_stepE) (metis Pair_inject fst_conv)
  then have "map handled_key hs2 = map handled_key hs1" by (simp add: map_update list_update_same_conv)
  with step.IH show ?case by simp
qed simp

lemma distinct_undisturbed:
  assumes "distinct (map handled_key hs)" and "i < length hs"
  shows "undisturbed hs i"
  using assms by (auto simp: undisturbed_def distinct_conv_nth)

lemma distinct_keyed:
  "handling_steps b (hs, P) (hs', P') \<Longrightarrow> distinct (map handled_key hs) \<Longrightarrow>
    handling_steps True (hs, P) (hs', P')"
proof (induction rule: rtranclp_induct2)
  case (step hs1 P1 hs2 P2)
  have "distinct (map handled_key hs1)" using handlings_keys [OF step.hyps(1)] step.prems by simp
  then have "handling_step True (hs1, P1) (hs2, P2)"
    using step.hyps(2) by (elim handling_stepE) (auto intro: handler_turn distinct_undisturbed)
  with step.IH step.prems show ?case by (blast intro: rtranclp.rtrancl_into_rtrancl)
qed simp

definition ex_success :: "string \<Rightarrow> int \<Rightarrow> string \<Rightarrow> Handling" where
  "ex_success k rnd v = incoming Rpc_success False
     (default_Request\<lparr>req_key := k, req_round := rnd, req_value := v\<rparr>)"

theorem handlers_are_atomic_witness:
  "\<exists>hs' P'. run_handlers [0, 1, 0, 1, 1, 0, 0, 1]
      ([ex_success ''a'' 0 ''1'', ex_success ''b'' 0 ''2''], ex_process 3 0) = (hs', P') \<and>
    (\<exists>Q. whole_steps ([ex_success ''a'' 0 ''1'', ex_success ''b'' 0 ''2''], ex_process 3 0) (hs', Q) \<and>
      data_of Q = data_of P')"
proof -
  let ?hs = "[ex_success ''a'' 0 ''1'', ex_success ''b'' 0 ''2'']"
  obtain hs' P' where run: "run_handlers [0, 1, 0, 1, 1, 0, 0, 1] (?hs, ex_process 3 0) = (hs', P')"
    by fastforce
  then have "\<forall>h \<in> set hs'. has_answered h"
    by (auto simp: ex_success_def incoming_def handle_def success_turn_def has_answered_def Let_def
        Get_Log_key_def Set_Log_accept_eq entry_update_def smap_index_def largest_round_def
        default_Request_def INT_MIN_def split: prod.splits)
  moreover have "handling_steps False (?hs, ex_process 3 0) (hs', P')"
    using run_handlers_steps [of "(?hs, ex_process 3 0)" "[0, 1, 0, 1, 1, 0, 0, 1]"] unfolding run .
  then have "handling_steps True (?hs, ex_process 3 0) (hs', P')"
    by (rule distinct_keyed)
      (simp add: ex_success_def incoming_def handled_key_def default_Request_def)
  moreover have "ordered (data_of (ex_process 3 0))"
    by (simp add: ordered_def ex_process_def log_ok_def smap_ok_def)
  ultimately show ?thesis
    using handlers_are_atomic [of ?hs "ex_process 3 0" hs' P'] run
    by (simp add: ex_success_def incoming_def)
qed

subsection \<open>Two handlers at one key\<close>

text \<open>What the two handlers leave when each runs as a whole, in either order.\<close>

lemma whole_success:
  "whole (incoming Rpc_success False r) P = (h, P') \<Longrightarrow>
    has_answered h \<and> data_of P' = data_success r (data_of P)"
  by (auto simp: whole_def incoming_def has_answered_def Let_def data_simps split: prod.splits
      dest!: arg_cong [where f = "\<lambda>x. data_of (fst x)"])

lemma two_successes_whole:
  assumes "whole_steps ([incoming Rpc_success False r0, incoming Rpc_success False r1], P) (hs, Q)"
    and "\<forall>h \<in> set hs. has_answered h"
  shows "data_of Q = data_success r1 (data_success r0 (data_of P)) \<or>
    data_of Q = data_success r0 (data_success r1 (data_of P))"
proof -
  let ?g0 = "incoming Rpc_success False r0" and ?g1 = "incoming Rpc_success False r1"
  have waiting: "\<not> has_answered ?g0" "\<not> has_answered ?g1" by (simp_all add: incoming_def has_answered_def)
  have busy: "h_place h \<noteq> Received" if "has_answered h" for h using that by (auto simp: has_answered_def)
  have "\<exists>h0 h1. hs = [h0, h1] \<and>
     (h0 = ?g0 \<and> h1 = ?g1 \<and> Q = P \<or>
      has_answered h0 \<and> h1 = ?g1 \<and> data_of Q = data_success r0 (data_of P) \<or>
      h0 = ?g0 \<and> has_answered h1 \<and> data_of Q = data_success r1 (data_of P) \<or>
      has_answered h0 \<and> has_answered h1 \<and>
        (data_of Q = data_success r1 (data_success r0 (data_of P)) \<or>
         data_of Q = data_success r0 (data_success r1 (data_of P))))"
    using assms(1)
  proof (induction rule: rtranclp_induct2)
    case (step hs1 Q1 hs2 Q2)
    from step.IH obtain h0 h1 where hs1: "hs1 = [h0, h1]" by blast
    from step.hyps(2) obtain i h where i: "i < length hs1" "h_place (hs1 ! i) = Received"
      "whole (hs1 ! i) Q1 = (h, Q2)" "hs2 = hs1[i := h]"
      by (elim whole_stepE) (metis Pair_inject)
    consider "i = 0" | "i = 1" using i(1) hs1 by force
    then show ?case
      using step.IH i(2-4) busy whole_success by cases (fastforce simp: hs1)+
  qed simp
  with assms(2) waiting show ?thesis by auto
qed

lemma later_success_wins:
  assumes "req_key r0 = key" and "req_key r1 = key" and "key \<noteq> ''leader''"
    and "INT_MIN \<le> req_round r0" and "req_round r0 < req_round r1"
    and "log_ok (d_log d)" and "\<forall>rnd. log_find (d_log d) key rnd \<noteq> None \<longrightarrow> rnd \<le> req_round r0"
  shows "Get_KV key (d_kv (data_success r1 (data_success r0 d))) = (req_value r1, 0)"
    and "Get_KV key (d_kv (data_success r0 (data_success r1 d))) = (req_value r1, 0)"
proof -
  have ok: "log_ok (d_log (data_success r d))" for r
    using assms(6) by (simp add: data_success_def data_accept_def Let_def log_ok_accept)
  have find: "log_find (d_log (data_success r d)) = log_find (d_log (data_accept r d))" for r
    by (simp add: data_success_def Let_def)
  have "\<not> outdated r1 d" "\<not> outdated r1 (data_success r0 d)" "outdated r0 (data_success r1 d)"
    using assms(1,2,4-7) by (auto simp: outdated_iff ok find data_accept_def log_find_accept)
  then show "Get_KV key (d_kv (data_success r1 (data_success r0 d))) = (req_value r1, 0)"
    and "Get_KV key (d_kv (data_success r0 (data_success r1 d))) = (req_value r1, 0)"
    using assms(1-3) by (simp_all add: d_kv_success kv.get_put)
qed

text \<open>Claim C31: a delayed \<open>success\<close> overwrites the newer value of a key. Two decisions for a
  key, the second in a later round, reach one process; the handler of the first has found that
  no later round exists when the handler of the second runs from beginning to end. Both answer
  OK and the log holds the later decision, but the store ends with the earlier value. Had each
  run as a whole, in either order, the store would hold the later value.\<close>

theorem delayed_success_overwrites:
  assumes "req_key r0 = key" and "req_key r1 = key" and "key \<noteq> ''leader''"
    and "INT_MIN \<le> req_round r0" and "req_round r0 < req_round r1"
    and "log_ok (pax_log P)" and "\<forall>rnd. log_find (pax_log P) key rnd \<noteq> None \<longrightarrow> rnd \<le> req_round r0"
    and "run_handlers [0, 0, 0, 1, 1, 1, 1, 0]
      ([incoming Rpc_success False r0, incoming Rpc_success False r1], P) = (hs, P')"
  shows "map h_place hs = [Answered Status_OK None, Answered Status_OK None] \<and>
    Get_KV key (kv_store P') = (req_value r0, 0) \<and>
    (\<exists>e. log_find (pax_log P') key (req_round r1) = Some e \<and> accepted_value e = req_value r1) \<and>
    (\<forall>hs' Q. whole_steps ([incoming Rpc_success False r0, incoming Rpc_success False r1], P) (hs', Q) \<longrightarrow>
       (\<forall>h \<in> set hs'. has_answered h) \<longrightarrow> Get_KV key (kv_store Q) = (req_value r1, 0))"
proof (intro conjI allI impI)
  let ?logged = "\<lambda>r. Set_Log_accept key (req_round r) (req_pserver_id r) (req_op r) (req_value r)"
  let ?log0 = "snd (Get_Log_key key (?logged r0 (pax_log P)))" and ?d = "data_of P"
  have ok0: "log_ok (?logged r0 (pax_log P))" "log_ok (?logged r1 ?log0)"
    using assms(6) by (simp_all add: log_ok_accept log_ok_Get_Log_key)
  have "\<not> req_round r0 < largest_round (smap_index [] (?logged r0 (pax_log P)) key)"
    using assms(4,7) by (subst largest_round_later [OF ok0(1)]) (auto simp: log_find_accept)
  moreover have "\<not> req_round r1 < largest_round (smap_index [] (?logged r1 ?log0) key)"
    using assms(4,5,7) by (subst largest_round_later [OF ok0(2)]) (force simp: data_simps)+
  ultimately have run: "map h_place hs = [Answered Status_OK None, Answered Status_OK None] \<and>
      pax_log P' = snd (Get_Log_key key (?logged r1 ?log0)) \<and>
      kv_store P' = Set_KV key (req_value r0) (Set_KV key (req_value r1) (kv_store P))"
    using assms(8) assms(1-3)
    by (auto simp: incoming_def handle_def success_turn_def has_answered_def Get_Log_key_def Let_def)
  then show "map h_place hs = [Answered Status_OK None, Answered Status_OK None]"
    and "Get_KV key (kv_store P') = (req_value r0, 0)"
    and "\<exists>e. log_find (pax_log P') key (req_round r1) = Some e \<and> accepted_value e = req_value r1"
    by (simp_all add: kv.get_put data_simps)
  fix hs' Q
  assume "whole_steps ([incoming Rpc_success False r0, incoming Rpc_success False r1], P) (hs', Q)"
    and "\<forall>h \<in> set hs'. has_answered h"
  then have Q: "data_of Q = data_success r1 (data_success r0 ?d) \<or>
      data_of Q = data_success r0 (data_success r1 ?d)" by (rule two_successes_whole)
  then have "kv_store Q = d_kv (data_success r1 (data_success r0 ?d)) \<or>
      kv_store Q = d_kv (data_success r0 (data_success r1 ?d))" by (metis data_of_sel(2))
  with later_success_wins [OF assms(1-5), of ?d] assms(6,7)
  show "Get_KV key (kv_store Q) = (req_value r1, 0)" by auto
qed

theorem delayed_success_overwrites_witness:
  "\<exists>hs P'. run_handlers [0, 0, 0, 1, 1, 1, 1, 0]
      ([ex_success ''a'' 0 ''1'', ex_success ''a'' 1 ''2''], ex_process 3 0) = (hs, P') \<and>
    map h_place hs = [Answered Status_OK None, Answered Status_OK None] \<and>
    Get_KV ''a'' (kv_store P') = (''1'', 0)"
proof -
  let ?r = "\<lambda>rnd v. default_Request\<lparr>req_key := ''a'', req_round := rnd, req_value := v\<rparr>"
  obtain hs P' where run: "run_handlers [0, 0, 0, 1, 1, 1, 1, 0]
      ([ex_success ''a'' 0 ''1'', ex_success ''a'' 1 ''2''], ex_process 3 0) = (hs, P')" by fastforce
  with delayed_success_overwrites [of "?r 0 ''1''" "''a''" "?r 1 ''2''" "ex_process 3 0" hs P']
  show ?thesis
    by (simp add: ex_success_def INT_MIN_def log_ok_def smap_ok_def log_find_def smap_index_def)
qed

end
