(* ===== verification/Options.thy ===== *)
theory Options
  imports Process
begin

text \<open>
  Option parsing, \<open>utility::parse\<close> (utility.cc): \<open>validate\<close> and \<open>operator>>\<close> for the
  enumeration \<open>Mode\<close>, and \<open>parse_options\<close> for a node and for a user. Boost.Program_options
  is not part of the repository: it is the argument \<open>B\<close>, a record of the library functions
  the code calls, and the files that can be opened are the argument \<open>files\<close>. \<open>documented\<close>
  states what the library's manual says of these functions, for the properties that need it.

  A \<open>variables_map\<close> is a map from option names to values, each with the flag
  \<open>defaulted()\<close>. The help text that is printed is left out.
\<close>

subsection \<open>Values, options and the library\<close>

datatype opt_value =
    Present
  | Text string
  | Port "16 word"
  | Number int
  | Switch bool
  | Mode_option Mode
  | Texts "string list"

datatype semantic =
  No_value | Text_value | Port_value | Number_value | Bool_switch | Mode_value | Texts_value

record option_desc =
  opt_name :: string
  opt_semantic :: semantic
  opt_default :: "opt_value option"

type_synonym variables = "string \<Rightarrow> (opt_value \<times> bool) option"
type_synonym bindings = "(string \<times> (opt_value \<Rightarrow> Config \<Rightarrow> Config)) list"

datatype po_error = Po_error string

record 'p Program_options =
  command_line :: "option_desc list \<Rightarrow> string list \<Rightarrow> po_error + 'p"
  config_file :: "option_desc list \<Rightarrow> string \<Rightarrow> po_error + 'p"
  store :: "(Mode option \<Rightarrow> string list \<Rightarrow> po_error + Mode) \<Rightarrow> 'p \<Rightarrow> variables \<Rightarrow> po_error + variables"
  notify :: "bindings \<Rightarrow> variables \<Rightarrow> Config \<Rightarrow> po_error + Config"
  check_first_occurrence :: "Mode option \<Rightarrow> po_error + unit"
  get_single_string :: "string list \<Rightarrow> po_error + string"

subsection \<open>The enumeration \<open>Mode\<close>\<close>

definition param_map :: "(string, Mode) smap" where
  "param_map = smap_assign ''user'' USER (smap_assign ''node'' NODE [])"

definition validate :: "'p Program_options \<Rightarrow> Mode option \<Rightarrow> string list \<Rightarrow> po_error + Mode" where
  "validate B value values =
     (case check_first_occurrence B value of
        Inl e \<Rightarrow> Inl e
      | Inr _ \<Rightarrow>
          (case get_single_string B values of
             Inl e \<Rightarrow> Inl e
           | Inr s \<Rightarrow>
               (case map_of param_map s of
                  None \<Rightarrow> Inl (Po_error ''invalid option value'')
                | Some m \<Rightarrow> Inr m)))"

text \<open>The stream operator reads a token and sets the fail bit, \<open>None\<close> here, on any other.\<close>

definition read_mode :: "string \<Rightarrow> Mode option" where
  "read_mode token =
     (if token = ''0'' then Some NODE else if token = ''1'' then Some USER else None)"

subsection \<open>Paths\<close>

text \<open>\<open>std::filesystem\<close> on POSIX: \<open>base / path\<close>, and \<open>absolute\<close> from the working directory.\<close>

definition path_append :: "string \<Rightarrow> string \<Rightarrow> string" where
  "path_append base path =
     (if path \<noteq> [] \<and> hd path = CHR ''/'' then path
      else if base = [] \<or> last base = CHR ''/'' then base @ path
      else base @ ''/'' @ path)"

definition concatenatePath :: "string \<Rightarrow> string \<Rightarrow> string \<Rightarrow> string" where
  "concatenatePath cwd base path = path_append cwd (path_append base path)"

subsection \<open>The options of a node\<close>

abbreviation opt :: "string \<Rightarrow> semantic \<Rightarrow> opt_value option \<Rightarrow> option_desc" where
  "opt name sem def \<equiv> \<lparr>opt_name = name, opt_semantic = sem, opt_default = def\<rparr>"

definition generic_options :: "option_desc list" where
  "generic_options =
     [opt ''help,h'' No_value None, opt ''config'' Text_value None, opt ''mode,m'' Mode_value None]"

definition primary_options :: "string \<Rightarrow> option_desc list" where
  "primary_options cwd =
     [opt ''port_database'' Port_value (Some (Port 9000)),
      opt ''port_consensus,p'' Port_value (Some (Port 8000)),
      opt ''database_directory,d'' Text_value (Some (Text (concatenatePath cwd cwd ''tmp/server''))),
      opt ''cluster.address,a'' Texts_value None,
      opt ''flag.debug,g'' Bool_switch (Some (Switch False)),
      opt ''flag.leader'' Bool_switch (Some (Switch False)),
      opt ''flag.local_ubuntu'' Bool_switch (Some (Switch False)),
      opt ''flag.timeout'' Number_value (Some (Number 1000)),
      opt ''flag.failrate'' Number_value (Some (Number 0)),
      opt ''flag.latency'' Bool_switch (Some (Switch False)),
      opt ''flag.election'' Bool_switch (Some (Switch True))]"

text \<open>The field each option is stored to.\<close>

abbreviation set_flag :: "(Flags \<Rightarrow> Flags) \<Rightarrow> Config \<Rightarrow> Config" where
  "set_flag f c \<equiv> c\<lparr>flag := f (flag c)\<rparr>"

definition node_bindings :: bindings where
  "node_bindings =
     [(''port_database'', \<lambda>v c. case v of Port p \<Rightarrow> c\<lparr>port_database := p\<rparr> | _ \<Rightarrow> c),
      (''port_consensus'', \<lambda>v c. case v of Port p \<Rightarrow> c\<lparr>port_consensus := p\<rparr> | _ \<Rightarrow> c),
      (''database_directory'', \<lambda>v c. case v of Text s \<Rightarrow> c\<lparr>database_directory := s\<rparr> | _ \<Rightarrow> c),
      (''cluster.address'', \<lambda>v c. case v of Texts l \<Rightarrow> c\<lparr>cluster := l\<rparr> | _ \<Rightarrow> c),
      (''flag.debug'', \<lambda>v c. case v of Switch b \<Rightarrow> set_flag (\<lambda>f. f\<lparr>flag_debug := b\<rparr>) c | _ \<Rightarrow> c),
      (''flag.leader'', \<lambda>v c. case v of Switch b \<Rightarrow> set_flag (\<lambda>f. f\<lparr>flag_leader := b\<rparr>) c | _ \<Rightarrow> c),
      (''flag.local_ubuntu'',
         \<lambda>v c. case v of Switch b \<Rightarrow> set_flag (\<lambda>f. f\<lparr>flag_local_ubuntu := b\<rparr>) c | _ \<Rightarrow> c),
      (''flag.timeout'', \<lambda>v c. case v of Number n \<Rightarrow> set_flag (\<lambda>f. f\<lparr>flag_timeout := n\<rparr>) c | _ \<Rightarrow> c),
      (''flag.failrate'', \<lambda>v c. case v of Number n \<Rightarrow> set_flag (\<lambda>f. f\<lparr>flag_failrate := n\<rparr>) c | _ \<Rightarrow> c),
      (''flag.latency'', \<lambda>v c. case v of Switch b \<Rightarrow> set_flag (\<lambda>f. f\<lparr>flag_latency := b\<rparr>) c | _ \<Rightarrow> c),
      (''flag.election'', \<lambda>v c. case v of Switch b \<Rightarrow> set_flag (\<lambda>f. f\<lparr>flag_election := b\<rparr>) c | _ \<Rightarrow> c)]"

subsection \<open>Parsing\<close>

text \<open>\<open>exit(n)\<close>, or a configuration and the variables.\<close>

datatype 'a parsed = Exit int | Parsed 'a

definition text_of :: "variables \<Rightarrow> string \<Rightarrow> string option" where
  "text_of vars name = (case vars name of Some (Text s, defaulted) \<Rightarrow> Some s | _ \<Rightarrow> None)"

text \<open>The configuration file is read when its name is among the variables and it can be
  opened; \<open>path_of\<close> is where the code looks for it.\<close>

definition store_file ::
    "'p Program_options \<Rightarrow> (string \<Rightarrow> string option) \<Rightarrow> (string \<Rightarrow> string) \<Rightarrow> option_desc list \<Rightarrow>
     variables \<Rightarrow> po_error + variables" where
  "store_file B files path_of file_options vars =
     (case text_of vars ''config'' of
        None \<Rightarrow> Inr vars
      | Some config_file_name \<Rightarrow>
          (case files (path_of config_file_name) of
             None \<Rightarrow> Inr vars
           | Some content \<Rightarrow>
               (case config_file B file_options content of
                  Inl e \<Rightarrow> Inl e
                | Inr p \<Rightarrow> store B (validate B) p vars)))"

definition store_sources ::
    "'p Program_options \<Rightarrow> (string \<Rightarrow> string option) \<Rightarrow> (string \<Rightarrow> string) \<Rightarrow> option_desc list \<Rightarrow>
     option_desc list \<Rightarrow> string list \<Rightarrow> variables \<Rightarrow> po_error + variables" where
  "store_sources B files path_of cmd_options file_options argv vars =
     (case command_line B cmd_options argv of
        Inl e \<Rightarrow> Inl e
      | Inr p \<Rightarrow>
          (case store B (validate B) p vars of
             Inl e \<Rightarrow> Inl e
           | Inr vars \<Rightarrow> store_file B files path_of file_options vars))"

definition parse_options_node ::
    "'p Program_options \<Rightarrow> (string \<Rightarrow> string option) \<Rightarrow> string \<Rightarrow> string \<Rightarrow> string list \<Rightarrow> Config \<Rightarrow>
     variables \<Rightarrow> (Config \<times> variables) parsed" where
  "parse_options_node B files cwd executablePath argv c vars =
     (case store_sources B files (concatenatePath cwd executablePath)
             (generic_options @ primary_options cwd) (primary_options cwd) argv vars of
        Inl e \<Rightarrow> Exit 1
      | Inr vars \<Rightarrow>
          (let c = (case text_of vars ''config'' of
                      None \<Rightarrow> c
                    | Some config_file_name \<Rightarrow> c\<lparr>config_path := config_file_name\<rparr>)
           in case notify B node_bindings vars c of
                Inl e \<Rightarrow> Exit 1
              | Inr c \<Rightarrow>
                  (let c = c\<lparr>mode := (case vars ''mode'' of
                                        Some (Mode_option m, defaulted) \<Rightarrow> m
                                      | _ \<Rightarrow> NODE)\<rparr>
                   in if vars ''help'' \<noteq> None \<and> mode c \<noteq> USER then Exit 0
                      else Parsed (c, vars))))"

definition user_options :: "option_desc list" where
  "user_options =
     [opt ''target,t'' Text_value (Some (Text ''127.0.1.1:8000'')),
      opt ''command,c'' Text_value (Some (Text ''get'')),
      opt ''key,k'' Text_value (Some (Text ''key-default'')),
      opt ''value,v'' Text_value (Some (Text ''value-default''))]"

text \<open>A stored value remembers the field it belongs to, so \<open>notify\<close> runs again for the options
  of the node; the options of a user are stored nowhere else.\<close>

definition parse_options_user ::
    "'p Program_options \<Rightarrow> (string \<Rightarrow> string option) \<Rightarrow> string list \<Rightarrow> Config \<Rightarrow> variables \<Rightarrow>
     (Config \<times> variables) parsed" where
  "parse_options_user B files argv c vars =
     (case store_sources B files (\<lambda>name. name) user_options user_options argv vars of
        Inl e \<Rightarrow> Exit 1
      | Inr vars \<Rightarrow>
          (case notify B node_bindings vars c of
             Inl e \<Rightarrow> Exit 1
           | Inr c \<Rightarrow> if vars ''help'' \<noteq> None then Exit 0 else Parsed (c, vars)))"

subsection \<open>The documented behaviour of the library\<close>

definition long_name :: "string \<Rightarrow> string" where
  "long_name name = takeWhile (\<lambda>c. c \<noteq> CHR '','') name"

definition default_of :: "option_desc list \<Rightarrow> string \<Rightarrow> opt_value option" where
  "default_of ds name =
     Option.bind (find (\<lambda>d. long_name (opt_name d) = name) ds) opt_default"

fun typed :: "semantic \<Rightarrow> opt_value \<Rightarrow> bool" where
  "typed sem Present \<longleftrightarrow> sem = No_value"
| "typed sem (Text s) \<longleftrightarrow> sem = Text_value"
| "typed sem (Port p) \<longleftrightarrow> sem = Port_value"
| "typed sem (Number n) \<longleftrightarrow> sem = Number_value"
| "typed sem (Switch b) \<longleftrightarrow> sem = Bool_switch"
| "typed sem (Mode_option m) \<longleftrightarrow> sem = Mode_value"
| "typed sem (Texts l) \<longleftrightarrow> sem = Texts_value"

lemma typed_Text: "typed Text_value v \<Longrightarrow> \<exists>s. v = Text s"
  by (cases v) simp_all

text \<open>\<open>store\<close> keeps a value that is already there unless that is a default, then takes what the
  source gives, then the default.\<close>

definition stored :: "(string \<Rightarrow> opt_value option) \<Rightarrow> option_desc list \<Rightarrow> variables \<Rightarrow> variables" where
  "stored given ds vars name =
     (case (vars name, given name) of
        (Some (v, False), _) \<Rightarrow> Some (v, False)
      | (_, Some v) \<Rightarrow> Some (v, False)
      | (Some (v, True), None) \<Rightarrow> Some (v, True)
      | (None, None) \<Rightarrow> map_option (\<lambda>v. (v, True)) (default_of ds name))"

definition bind :: "(string \<Rightarrow> opt_value option) \<Rightarrow> bindings \<Rightarrow> Config \<Rightarrow> Config" where
  "bind value_of bs c =
     fold (\<lambda>(name, set_field) c. case value_of name of None \<Rightarrow> c | Some v \<Rightarrow> set_field v c) bs c"

definition documented ::
    "'p Program_options \<Rightarrow> ('p \<Rightarrow> string \<Rightarrow> opt_value option) \<Rightarrow> ('p \<Rightarrow> option_desc list) \<Rightarrow> bool" where
  "documented B given described \<longleftrightarrow>
     (\<forall>ds argv p. command_line B ds argv = Inr p \<longrightarrow> described p = ds) \<and>
     (\<forall>ds content p. config_file B ds content = Inr p \<longrightarrow> described p = ds) \<and>
     (\<forall>p name v. given p name = Some v \<longrightarrow>
        (\<exists>d \<in> set (described p). long_name (opt_name d) = name \<and> typed (opt_semantic d) v)) \<and>
     (\<forall>check p vars vars'. store B check p vars = Inr vars' \<longrightarrow>
        vars' = stored (given p) (described p) vars) \<and>
     (\<forall>bs vars c c'. notify B bs vars c = Inr c' \<longrightarrow>
        c' = bind (\<lambda>name. map_option fst (vars name)) bs c)"

lemma documentedD:
  assumes "documented B given described"
  shows "command_line B ds argv = Inr p \<Longrightarrow> described p = ds"
    "config_file B ds content = Inr p \<Longrightarrow> described p = ds"
    "given p name = Some v \<Longrightarrow>
      \<exists>d \<in> set (described p). long_name (opt_name d) = name \<and> typed (opt_semantic d) v"
    "store B check p vars = Inr vars' \<Longrightarrow> vars' = stored (given p) (described p) vars"
    "notify B bs vars c = Inr c' \<Longrightarrow> c' = bind (\<lambda>name. map_option fst (vars name)) bs c"
  using assms unfolding documented_def by blast+

text \<open>What the configuration file gives, if one is named and can be read.\<close>

definition file_gives ::
    "'p Program_options \<Rightarrow> ('p \<Rightarrow> string \<Rightarrow> opt_value option) \<Rightarrow> (string \<Rightarrow> string option) \<Rightarrow>
     (string \<Rightarrow> string) \<Rightarrow> option_desc list \<Rightarrow> string option \<Rightarrow> string \<Rightarrow> opt_value option" where
  "file_gives B given files path_of ds config_name =
     (case config_name of
        None \<Rightarrow> Map.empty
      | Some name \<Rightarrow>
          (case files (path_of name) of
             None \<Rightarrow> Map.empty
           | Some content \<Rightarrow>
               (case config_file B ds content of Inl e \<Rightarrow> Map.empty | Inr p \<Rightarrow> given p)))"

definition config_named :: "(string \<Rightarrow> opt_value option) \<Rightarrow> string option" where
  "config_named cmd = (case cmd ''config'' of Some (Text s) \<Rightarrow> Some s | _ \<Rightarrow> None)"

text \<open>Command line first, then the file, then the default.\<close>

definition preferred ::
    "(string \<Rightarrow> opt_value option) \<Rightarrow> (string \<Rightarrow> opt_value option) \<Rightarrow> option_desc list \<Rightarrow> string \<Rightarrow>
     opt_value option" where
  "preferred cmd file ds name =
     (case cmd name of Some v \<Rightarrow> Some v
      | None \<Rightarrow> (case file name of Some v \<Rightarrow> Some v | None \<Rightarrow> default_of ds name))"

lemma stored_value:
  assumes "vars name = None"
  shows "map_option fst (stored given ds vars name) =
    (case given name of Some v \<Rightarrow> Some v | None \<Rightarrow> default_of ds name)"
  using assms by (simp add: stored_def option.map_comp comp_def option.map_ident split: option.split)

lemma stored_twice:
  assumes "vars name = None" and "default_of file_ds name = default_of ds name"
  shows "map_option fst (stored file file_ds (stored cmd ds vars) name) = preferred cmd file ds name"
  using assms
  by (auto simp: stored_def preferred_def split: option.splits bool.splits)

lemma sources_value:
  assumes doc: "documented B given described" and p: "command_line B ds argv = Inr p"
    and v1: "store B (validate B) p vars = Inr vars1"
    and v2: "store_file B files path_of file_ds vars1 = Inr vars'"
    and new: "vars name = None" and def: "default_of file_ds name = default_of ds name"
  shows "map_option fst (vars' name) =
    preferred (given p) (file_gives B given files path_of file_ds (text_of vars1 ''config'')) ds name"
proof -
  have vars1: "vars1 = stored (given p) ds vars"
    using documentedD(4) [OF doc v1] documentedD(1) [OF doc p] by simp
  let ?file = "file_gives B given files path_of file_ds (text_of vars1 ''config'')"
  show ?thesis
  proof (cases "vars' = vars1 \<and> ?file = Map.empty")
    case True
    with vars1 stored_value [of vars name "given p" ds, OF new] show ?thesis
      by (simp add: preferred_def split: option.split)
  next
    case False
    with v2 obtain n content q where q: "text_of vars1 ''config'' = Some n"
      "files (path_of n) = Some content" "config_file B file_ds content = Inr q"
      "store B (validate B) q vars1 = Inr vars'"
      by (auto simp: store_file_def file_gives_def split: option.splits sum.splits)
    then have "?file = given q" by (simp add: file_gives_def)
    moreover have "vars' = stored (given q) file_ds vars1"
      using documentedD(4) [OF doc q(4)] documentedD(2) [OF doc q(3)] by simp
    ultimately show ?thesis using stored_twice [of vars name file_ds ds, OF new def] vars1 by simp
  qed
qed

lemma store_sources_cases:
  assumes "store_sources B files path_of ds file_ds argv vars = Inr vars'"
  obtains p vars1 where "command_line B ds argv = Inr p" "store B (validate B) p vars = Inr vars1"
    "store_file B files path_of file_ds vars1 = Inr vars'"
  using assms by (auto simp: store_sources_def split: sum.splits)

subsection \<open>What the parsers establish\<close>

lemma find_append: "find P (xs @ ys) = (case find P xs of None \<Rightarrow> find P ys | Some x \<Rightarrow> Some x)"
  by (induction xs) auto

lemma long_names [simp]:
  "long_name ''help,h'' = ''help''" "long_name ''config'' = ''config''" "long_name ''mode,m'' = ''mode''"
  "long_name ''port_database'' = ''port_database''"
  "long_name ''port_consensus,p'' = ''port_consensus''"
  "long_name ''database_directory,d'' = ''database_directory''"
  "long_name ''cluster.address,a'' = ''cluster.address''" "long_name ''flag.debug,g'' = ''flag.debug''"
  "long_name ''flag.leader'' = ''flag.leader''" "long_name ''flag.local_ubuntu'' = ''flag.local_ubuntu''"
  "long_name ''flag.timeout'' = ''flag.timeout''" "long_name ''flag.failrate'' = ''flag.failrate''"
  "long_name ''flag.latency'' = ''flag.latency''" "long_name ''flag.election'' = ''flag.election''"
  "long_name ''target,t'' = ''target''" "long_name ''command,c'' = ''command''"
  "long_name ''key,k'' = ''key''" "long_name ''value,v'' = ''value''"
  by (simp_all add: long_name_def)

lemma default_generic:
  "default_of (generic_options @ primary_options cwd) name = default_of (primary_options cwd) name"
proof (cases "name \<in> {''help'', ''config'', ''mode''}")
  case True
  then show ?thesis
    by (elim insertE emptyE) (simp_all add: default_of_def generic_options_def primary_options_def)
next
  case False
  then have "find (\<lambda>d. long_name (opt_name d) = name) generic_options = None"
    by (auto simp: generic_options_def)
  then show ?thesis by (simp add: default_of_def find_append)
qed

lemma bind_cong:
  assumes "\<And>name f. (name, f) \<in> set bs \<Longrightarrow> v1 name = v2 name"
  shows "bind v1 bs c = bind v2 bs c"
  unfolding bind_def
  by (rule fold_cong) (auto simp: assms split: prod.split)

text \<open>What a node's option is worth: \<open>cmd\<close> is what its command line gives.\<close>

definition node_value ::
    "'p Program_options \<Rightarrow> ('p \<Rightarrow> string \<Rightarrow> opt_value option) \<Rightarrow> (string \<Rightarrow> string option) \<Rightarrow> string \<Rightarrow>
     string \<Rightarrow> (string \<Rightarrow> opt_value option) \<Rightarrow> string \<Rightarrow> opt_value option" where
  "node_value B given files cwd exe cmd =
     preferred cmd
       (file_gives B given files (concatenatePath cwd exe) (primary_options cwd) (config_named cmd))
       (primary_options cwd)"

lemma named_config:
  "text_of (stored cmd (generic_options @ primary_options cwd) Map.empty) ''config'' = config_named cmd"
proof -
  have "default_of (generic_options @ primary_options cwd) ''config'' = None"
    unfolding default_generic by (simp add: default_of_def primary_options_def)
  then show ?thesis
    by (simp add: text_of_def stored_def config_named_def split: option.split opt_value.split)
qed

lemma parsed_node:
  assumes doc: "documented B given described"
    and parse: "parse_options_node B files cwd exe argv c Map.empty = Parsed (c', vars)"
  obtains p where
    "command_line B (generic_options @ primary_options cwd) argv = Inr p"
    "\<And>name. map_option fst (vars name) = node_value B given files cwd exe (given p) name"
    "c' = (bind (node_value B given files cwd exe (given p)) node_bindings
             (case text_of vars ''config'' of None \<Rightarrow> c | Some s \<Rightarrow> c\<lparr>config_path := s\<rparr>))
          \<lparr>mode := case vars ''mode'' of Some (Mode_option m, b) \<Rightarrow> m | _ \<Rightarrow> NODE\<rparr>"
    "vars ''help'' = None \<or> mode c' = USER"
proof -
  let ?ds = "generic_options @ primary_options cwd" and ?file_ds = "primary_options cwd"
  let ?path_of = "concatenatePath cwd exe"
  from parse obtain c2 where src: "store_sources B files ?path_of ?ds ?file_ds argv Map.empty = Inr vars"
    and n: "notify B node_bindings vars
      (case text_of vars ''config'' of None \<Rightarrow> c | Some s \<Rightarrow> c\<lparr>config_path := s\<rparr>) = Inr c2"
    and c': "c' = c2\<lparr>mode := case vars ''mode'' of Some (Mode_option m, b) \<Rightarrow> m | _ \<Rightarrow> NODE\<rparr>"
    and h: "vars ''help'' = None \<or> mode c' = USER"
    by (fastforce simp: parse_options_node_def Let_def split: sum.splits if_splits)
  from src obtain p vars1 where p: "command_line B ?ds argv = Inr p"
    "store B (validate B) p Map.empty = Inr vars1" "store_file B files ?path_of ?file_ds vars1 = Inr vars"
    by (rule store_sources_cases)
  have "vars1 = stored (given p) ?ds Map.empty"
    using documentedD(4) [OF doc p(2)] documentedD(1) [OF doc p(1)] by simp
  then have named: "text_of vars1 ''config'' = config_named (given p)" by (simp add: named_config)
  have v: "map_option fst (vars name) = node_value B given files cwd exe (given p) name" for name
    using sources_value [OF doc p, of name] unfolding node_value_def named preferred_def default_generic
    by simp
  show thesis
    using p(1) c' h documentedD(5) [OF doc n] v by (intro that) simp_all
qed

text \<open>Every value has the type of its option.\<close>

lemma given_typed:
  assumes "documented B given described" and "described p = ds" and "given p name = Some v"
    and "\<forall>d \<in> set ds. long_name (opt_name d) = name \<longrightarrow> opt_semantic d = sem"
  shows "typed sem v"
  using documentedD(3) [OF assms(1), of p name v] assms(2-4) by auto

lemma node_value_typed:
  assumes doc: "documented B given described"
    and p: "command_line B (generic_options @ primary_options cwd) argv = Inr p"
    and v: "node_value B given files cwd exe (given p) name = Some v"
    and sem: "\<forall>d \<in> set (generic_options @ primary_options cwd). long_name (opt_name d) = name \<longrightarrow> opt_semantic d = sem"
    and def: "pred_option (typed sem) (default_of (primary_options cwd) name)"
  shows "typed sem v"
proof -
  have cmd: "typed sem v" if "given p name = Some v"
    using given_typed [OF doc documentedD(1) [OF doc p] that sem] .
  have named: "typed sem v" if "config_file B (primary_options cwd) content = Inr q" "given q name = Some v" for q content
    using given_typed [OF doc documentedD(2) [OF doc that(1)] that(2), of sem] sem by simp
  show ?thesis
    using v cmd named def
    by (auto simp: node_value_def preferred_def file_gives_def split: option.splits sum.splits)
qed

lemma typed_cases:
  "typed Text_value v \<longleftrightarrow> (\<exists>s. v = Text s)" "typed Port_value v \<longleftrightarrow> (\<exists>n. v = Port n)"
  "typed Number_value v \<longleftrightarrow> (\<exists>n. v = Number n)" "typed Bool_switch v \<longleftrightarrow> (\<exists>b. v = Switch b)"
  "typed Mode_value v \<longleftrightarrow> (\<exists>m. v = Mode_option m)" "typed Texts_value v \<longleftrightarrow> (\<exists>l. v = Texts l)"
  by (cases v; simp)+

lemma node_value_default:
  "default_of (primary_options cwd) name \<noteq> None \<Longrightarrow> node_value B given files cwd exe cmd name \<noteq> None"
  by (auto simp: node_value_def preferred_def split: option.split)

lemma node_values:
  assumes doc: "documented B given described"
    and p: "command_line B (generic_options @ primary_options cwd) argv = Inr p"
    and v: "v = node_value B given files cwd exe (given p)"
  shows "\<exists>n. v ''port_database'' = Some (Port n)" "\<exists>n. v ''port_consensus'' = Some (Port n)"
    "\<exists>s. v ''database_directory'' = Some (Text s)"
    "v ''cluster.address'' = None \<or> (\<exists>l. v ''cluster.address'' = Some (Texts l))"
    "\<exists>b. v ''flag.debug'' = Some (Switch b)" "\<exists>b. v ''flag.leader'' = Some (Switch b)"
    "\<exists>b. v ''flag.local_ubuntu'' = Some (Switch b)" "\<exists>n. v ''flag.timeout'' = Some (Number n)"
    "\<exists>n. v ''flag.failrate'' = Some (Number n)" "\<exists>b. v ''flag.latency'' = Some (Switch b)"
    "\<exists>b. v ''flag.election'' = Some (Switch b)"
proof -
  note t = node_value_typed [OF doc p, of files exe, folded v]
  note n = node_value_default [of cwd _ B given files exe "given p", folded v]
  note defs = default_of_def generic_options_def primary_options_def
  have some: "\<exists>x. v name = Some x \<and> typed sem x"
    if "default_of (primary_options cwd) name \<noteq> None"
      "\<forall>d \<in> set (generic_options @ primary_options cwd). long_name (opt_name d) = name \<longrightarrow> opt_semantic d = sem"
      "pred_option (typed sem) (default_of (primary_options cwd) name)" for name sem
    using t [OF _ that(2,3)] n [OF that(1)] by blast
  show "\<exists>n. v ''port_database'' = Some (Port n)" "\<exists>n. v ''port_consensus'' = Some (Port n)"
    using some [of "''port_database''" Port_value] some [of "''port_consensus''" Port_value]
    by (auto simp: defs typed_cases)
  show "\<exists>s. v ''database_directory'' = Some (Text s)"
    using some [of "''database_directory''" Text_value] by (auto simp: defs typed_cases)
  show "v ''cluster.address'' = None \<or> (\<exists>l. v ''cluster.address'' = Some (Texts l))"
    using t [of "''cluster.address''" _ Texts_value]
    by (cases "v ''cluster.address''") (auto simp: defs typed_cases)
  show "\<exists>b. v ''flag.debug'' = Some (Switch b)" "\<exists>b. v ''flag.leader'' = Some (Switch b)"
    using some [of "''flag.debug''" Bool_switch] some [of "''flag.leader''" Bool_switch]
    by (auto simp: defs typed_cases)
  show "\<exists>b. v ''flag.local_ubuntu'' = Some (Switch b)" "\<exists>b. v ''flag.latency'' = Some (Switch b)"
    "\<exists>b. v ''flag.election'' = Some (Switch b)"
    using some [of "''flag.local_ubuntu''" Bool_switch] some [of "''flag.latency''" Bool_switch]
      some [of "''flag.election''" Bool_switch] by (auto simp: defs typed_cases)
  show "\<exists>n. v ''flag.timeout'' = Some (Number n)" "\<exists>n. v ''flag.failrate'' = Some (Number n)"
    using some [of "''flag.timeout''" Number_value] some [of "''flag.failrate''" Number_value]
    by (auto simp: defs typed_cases)
qed

text \<open>After \<open>notify\<close> the fields of the configuration hold these values.\<close>

lemma bound_fields:
  assumes "documented B given described"
    and "command_line B (generic_options @ primary_options cwd) argv = Inr p"
    and "v = node_value B given files cwd exe (given p)" and c': "c' = bind v node_bindings c"
  shows "v ''port_database'' = Some (Port (port_database c'))"
    "v ''port_consensus'' = Some (Port (port_consensus c'))"
    "v ''database_directory'' = Some (Text (database_directory c'))"
    "cluster c' = (case v ''cluster.address'' of Some (Texts l) \<Rightarrow> l | _ \<Rightarrow> cluster c)"
    "v ''flag.debug'' = Some (Switch (flag_debug (flag c')))"
    "v ''flag.leader'' = Some (Switch (flag_leader (flag c')))"
    "v ''flag.local_ubuntu'' = Some (Switch (flag_local_ubuntu (flag c')))"
    "v ''flag.timeout'' = Some (Number (flag_timeout (flag c')))"
    "v ''flag.failrate'' = Some (Number (flag_failrate (flag c')))"
    "v ''flag.latency'' = Some (Switch (flag_latency (flag c')))"
    "v ''flag.election'' = Some (Switch (flag_election (flag c')))"
    "ip c' = ip c"
  using node_values [OF assms(1-3)] unfolding c'
  by (elim exE disjE; simp add: bind_def node_bindings_def)+

lemma typed_text:
  assumes "typed (opt_semantic d) v" and "d \<in> set user_options"
  shows "\<exists>s. v = Text s"
  using assms by (intro typed_Text) (auto simp: user_options_def)

text \<open>After both parsers the four arguments of a user are there, as strings.\<close>

lemma stored_user:
  assumes doc: "documented B given described" and desc: "described p = user_options"
    and name: "name \<in> {''target'', ''command'', ''key'', ''value''}"
    and old: "vars name = None \<or> text_of vars name \<noteq> None"
  shows "text_of (stored (given p) user_options vars) name \<noteq> None"
proof (cases "given p name")
  case None
  have "\<exists>s. default_of user_options name = Some (Text s)"
    using name by (elim insertE emptyE) (simp_all add: default_of_def user_options_def)
  with None old show ?thesis
    by (auto simp: text_of_def stored_def split: option.splits prod.splits bool.splits opt_value.splits)
next
  case (Some v)
  from documentedD(3) [OF doc Some] desc obtain s where "v = Text s" using typed_text by metis
  with Some old show ?thesis
    by (auto simp: text_of_def stored_def split: option.splits prod.splits bool.splits opt_value.splits)
qed

lemma parsed_user:
  assumes doc: "documented B given described"
    and parse: "parse_options_user B files argv c vars = Parsed (c', vars')"
    and name: "name \<in> {''target'', ''command'', ''key'', ''value''}" and new: "vars name = None"
  shows "text_of vars' name \<noteq> None"
proof -
  from parse have "store_sources B files (\<lambda>name. name) user_options user_options argv vars = Inr vars'"
    by (auto simp: parse_options_user_def split: sum.splits if_splits)
  then obtain p vars1 where p: "command_line B user_options argv = Inr p"
    "store B (validate B) p vars = Inr vars1"
    "store_file B files (\<lambda>name. name) user_options vars1 = Inr vars'" by (rule store_sources_cases)
  have "vars1 = stored (given p) user_options vars"
    using documentedD(4) [OF doc p(2)] documentedD(1) [OF doc p(1)] by simp
  then have one: "text_of vars1 name \<noteq> None"
    using stored_user [OF doc documentedD(1) [OF doc p(1)] name, of vars] new by simp
  show ?thesis
  proof (cases "vars' = vars1")
    case False
    with p(3) obtain content q where q: "config_file B user_options content = Inr q"
      "store B (validate B) q vars1 = Inr vars'"
      by (auto simp: store_file_def split: option.splits sum.splits)
    then have "vars' = stored (given q) user_options vars1"
      using documentedD(4) [OF doc q(2)] documentedD(2) [OF doc q(1)] by simp
    then show ?thesis
      using stored_user [OF doc documentedD(2) [OF doc q(1)] name, of vars1] one by simp
  qed (simp add: one)
qed

text \<open>A node knows none of the user's options.\<close>

lemma node_knows_no_user_option:
  assumes doc: "documented B given described"
    and parse: "parse_options_node B files cwd exe argv c Map.empty = Parsed (c', vars)"
    and name: "name \<in> {''target'', ''command'', ''key'', ''value''}"
  shows "vars name = None"
proof -
  have "list_all (\<lambda>d. long_name (opt_name d) \<noteq> name) (generic_options @ primary_options cwd)"
    using name by (elim insertE emptyE) (simp_all add: generic_options_def primary_options_def)
  then have none: "d \<in> set (generic_options @ primary_options cwd) \<Longrightarrow> long_name (opt_name d) \<noteq> name" for d
    by (simp add: list_all_iff)
  from parsed_node [OF doc parse] obtain p where
    p: "command_line B (generic_options @ primary_options cwd) argv = Inr p" and
    v: "map_option fst (vars name) = node_value B given files cwd exe (given p) name" by metis
  have "given p name = None"
    using documentedD(3) [OF doc, of p name] documentedD(1) [OF doc p] none
    by (cases "given p name") auto
  moreover have "file_gives B given files (concatenatePath cwd exe) (primary_options cwd) config_name name
      = None" for config_name
  proof -
    have "given q name = None" if "config_file B (primary_options cwd) content = Inr q" for q content
      using documentedD(3) [OF doc, of q name] documentedD(2) [OF doc that] none
      by (cases "given q name") auto
    then show ?thesis by (auto simp: file_gives_def split: option.split sum.split)
  qed
  moreover have "default_of (primary_options cwd) name = None"
    using name by (elim insertE emptyE) (simp_all add: default_of_def primary_options_def)
  ultimately show ?thesis using v by (simp add: node_value_def preferred_def)
qed

end
