(* ===== verification/User_Commands.thy ===== *)
theory User_Commands
  imports Database_RPC Options
begin

text \<open>
  The commands of a user, \<open>user_entrypoint\<close> (entrypoint.cc): single requests, and the test
  drivers that the repository is checked with. A command runs in a process \<open>u\<close> of its own and
  calls the stubs; what it prints is a list of lines, without colours, and for the call
  statistics the rows of the two tables.

  \<open>Environment\<close> holds what is outside the program: the network, the values that \<open>rand()\<close>
  yields after \<open>srand\<close> of a seed, the order in which a protobuf map is iterated, and what the
  other processes and the network do while the driver sleeps. \<open>None\<close> is a chain of forwards
  longer than \<open>env_fuel\<close>, as in \<open>Database_RPC\<close>.
\<close>

record Environment =
  env_fuel :: nat
  env_net :: Net
  env_rand :: "nat \<Rightarrow> nat \<Rightarrow> nat"
  env_order :: "Store \<Rightarrow> Store"
  env_sleep :: "World \<Rightarrow> World"
  env_net_later :: Net

datatype printed = Line string | Row string "int list"

datatype user_end = Returns int | Throws string

type_synonym run_result = "(World \<times> printed list \<times> user_end) option"

text \<open>The numbers of \<open>grpc::StatusCode\<close>.\<close>

fun code_number :: "StatusCode \<Rightarrow> nat" where
  "code_number OK = 0"
| "code_number CANCELLED = 1"
| "code_number UNKNOWN = 2"
| "code_number DEADLINE_EXCEEDED = 4"
| "code_number ABORTED = 10"
| "code_number UNAVAILABLE = 14"

definition error_number :: "Status \<Rightarrow> string" where
  "error_number s = to_string (code_number (error_code s))"

text \<open>A stub on a channel of its own, made for one address.\<close>

definition channel :: "string \<Rightarrow> Node" where
  "channel addr = \<lparr>consensusEndpoint = addr, databaseEndpoint = addr\<rparr>"

subsection \<open>Single requests\<close>

definition command_set ::
    "Environment \<Rightarrow> nat \<Rightarrow> string \<Rightarrow> string \<Rightarrow> string \<Rightarrow> World \<Rightarrow> run_result" where
  "command_set E u target key v w =
     Option.bind (stub_set (env_fuel E) (env_net E) u target key v w)
       (\<lambda>(w, s). Some (w, [], Returns 0))"

definition command_get :: "Environment \<Rightarrow> nat \<Rightarrow> string \<Rightarrow> string \<Rightarrow> World \<Rightarrow> run_result" where
  "command_get E u target key w =
     Option.bind (stub_get (env_fuel E) (env_net E) u target key w)
       (\<lambda>(w, message). Some (w, [Line message], Returns 0))"

text \<open>\<open>test_leader_c\<close> and \<open>test_non_leader_c\<close> differ in the address they call.\<close>

definition test_consensus :: "Environment \<Rightarrow> nat \<Rightarrow> string \<Rightarrow> World \<Rightarrow> run_result" where
  "test_consensus E u db_address w =
     (case stub_ping (env_net E) u (channel db_address) w of
        (w, r1, _) \<Rightarrow>
          (case stub_get_leader (env_net E) u (channel db_address) w of
             (w, s, l) \<Rightarrow>
               Some (w, [Line (if ok r1 then ''Ping works'' else ''Ping broken''),
                         Line (''get_leader() error code '' @ error_number s @
                               '' returned leader address: '' @ l)], Returns 0)))"

definition test_leader_db :: "Environment \<Rightarrow> nat \<Rightarrow> World \<Rightarrow> run_result" where
  "test_leader_db E u w =
     Option.bind (stub_set (env_fuel E) (env_net E) u ''127.0.1.1:9000'' ''1'' ''v1'' w)
       (\<lambda>(w, s).
          Option.bind (stub_get (env_fuel E) (env_net E) u ''127.0.1.1:9000'' ''1'' w)
            (\<lambda>(w, g).
               Some (w, [Line (''set() error code '' @ error_number s),
                         Line (''value returned was '' @ g)], Returns 0)))"

subsection \<open>Random writes\<close>

definition test_keys :: "string list" where
  "test_keys = [''a'', ''b'', ''c'', ''d'', ''e'', ''f'', ''g'', ''h'', ''i'', ''j'']"

definition alpha :: string where
  "alpha = ''abcdefghijklmnopqrstuvwxyz''"

text \<open>\<open>k\<close> counts the calls of \<open>rand()\<close>.\<close>

fun random_word :: "(nat \<Rightarrow> nat) \<Rightarrow> nat \<Rightarrow> nat \<Rightarrow> string" where
  "random_word rand k 0 = ''''"
| "random_word rand k (Suc n) = alpha ! (rand k mod 26) # random_word rand (Suc k) n"

fun random_writes ::
    "nat \<Rightarrow> Net \<Rightarrow> (nat \<Rightarrow> nat) \<Rightarrow> nat \<Rightarrow> Node list \<Rightarrow> nat \<Rightarrow> nat \<Rightarrow> World \<Rightarrow>
     (World \<times> printed list) option" where
  "random_writes fuel N rand u endpoints 0 k w = Some (w, [])"
| "random_writes fuel N rand u endpoints (Suc num_ops) k w =
     (let result = random_word rand k 5;
          replica_idx = rand (k + 5) mod length endpoints;
          key = test_keys ! (rand (k + 6) mod length test_keys)
      in Option.bind (stub_set fuel N u (databaseEndpoint (endpoints ! replica_idx)) key result w)
           (\<lambda>(w, s).
              Option.bind (random_writes fuel N rand u endpoints num_ops (k + 7) w)
                (\<lambda>(w, out).
                   Some (w, (if ok s then [] else [Line (''Set('' @ key @ '', '' @ result @ '') failed'')])
                            @ out))))"

text \<open>What each replica holds afterwards: all its values, or those of the test keys.\<close>

type_synonym results = "(string, string list) smap"

definition push_back :: "string \<Rightarrow> string list \<Rightarrow> results \<Rightarrow> results" where
  "push_back addr vs acc = smap_assign addr (smap_index [] acc addr @ vs) acc"

fun all_values :: "Net \<Rightarrow> (Store \<Rightarrow> Store) \<Rightarrow> nat \<Rightarrow> Node list \<Rightarrow> results \<Rightarrow> World \<Rightarrow> World \<times> results" where
  "all_values N order u [] acc w = (w, acc)"
| "all_values N order u (node # nodes) acc w =
     (case stub_get_db N u node w of
        (w, res) \<Rightarrow>
          all_values N order u nodes
            (fold (\<lambda>kb. push_back (databaseEndpoint node) [snd kb]) (order res) acc) w)"

fun key_values :: "Net \<Rightarrow> nat \<Rightarrow> Node list \<Rightarrow> results \<Rightarrow> World \<Rightarrow> World \<times> results" where
  "key_values N u [] acc w = (w, acc)"
| "key_values N u (node # nodes) acc w =
     (case stub_get_db N u node w of
        (w, r) \<Rightarrow>
          key_values N u nodes
            (fold (\<lambda>key. push_back (databaseEndpoint node) [smap_index '''' r key]) test_keys
               (smap_emplace (databaseEndpoint node) [] acc)) w)"

definition result_line :: "string \<times> string list \<Rightarrow> printed" where
  "result_line entry =
     Line (fst entry @ '': '' @ concat (map (\<lambda>v. v @ '' '') (snd entry)))"

definition test_non_leader_db :: "Environment \<Rightarrow> nat \<Rightarrow> World \<Rightarrow> run_result" where
  "test_non_leader_db E u w =
     (case stub_get_leader (env_net E) u (channel ''127.0.1.1:8000'') w of
        (w, s, address_leader) \<Rightarrow>
          if \<not> ok s then Some (w, [], Throws ''RPC FAILURE'')
          else
            (let endpoints = map snd (memberList (procs w u))
             in Option.bind
                  (random_writes (env_fuel E) (env_net E) (env_rand E 123) u endpoints 100 0 w)
                  (\<lambda>(w, out).
                     case all_values (env_net E) (env_order E) u endpoints [] w of
                       (w, results) \<Rightarrow>
                         Some (w, Line (''Leader is: '' @ address_leader) # out
                                  @ map result_line results, Returns 0))))"

definition random_ops_test :: "Environment \<Rightarrow> nat \<Rightarrow> nat \<Rightarrow> World \<Rightarrow> run_result" where
  "random_ops_test E num_ops u w =
     (let endpoints = map snd (memberList (procs w u))
      in Option.bind
           (random_writes (env_fuel E) (env_net E) (env_rand E 123) u endpoints num_ops 0 w)
           (\<lambda>(w, out).
              case key_values (env_net E) u endpoints [] w of
                (w, results) \<Rightarrow> Some (w, out @ map result_line results, Returns 0)))"

definition test_1000_random_ops :: "Environment \<Rightarrow> nat \<Rightarrow> World \<Rightarrow> run_result" where
  "test_1000_random_ops E u w = random_ops_test E 1000 u w"

subsection \<open>Call statistics\<close>

definition incount_names :: "string list" where
  "incount_names =
     [''ConsensusRPC::propose'', ''ConsensusRPC::accept'', ''ConsensusRPC::success'',
      ''ConsensusRPC::ping'', ''ConsensusRPC::get_leader'', ''ConsensusRPC::elect_leader'',
      ''DatabaseRPC::get'', ''DatabaseRPC::set'', ''ConsensusRPC::get_stats'',
      ''DatabaseRPC::get_db'']"

definition outcount_names :: "string list" where
  "outcount_names =
     [''ConsensusRPCWrapperCall::propose'', ''ConsensusRPCWrapperCall::accept'',
      ''ConsensusRPCWrapperCall::success'', ''ConsensusRPCWrapperCall::ping'',
      ''ConsensusRPCWrapperCall::get_leader'', ''ConsensusRPCWrapperCall::trigger_election'',
      ''DatabaseRPCWrapperCall::get'', ''DatabaseRPCWrapperCall::set'']"

text \<open>The rows of both tables, or the exception of the first call that fails.\<close>

fun count_rows ::
    "Net \<Rightarrow> nat \<Rightarrow> Node list \<Rightarrow> World \<Rightarrow> World \<times> (printed list \<times> printed list) option" where
  "count_rows N u [] w = (w, Some ([], []))"
| "count_rows N u (node # nodes) w =
     (case stub_get_stats N u node w of
        (w, s, stats) \<Rightarrow>
          if \<not> ok s then (w, None)
          else
            (case count_rows N u nodes w of
               (w, None) \<Rightarrow> (w, None)
             | (w, Some (incoming, outgoing)) \<Rightarrow>
                 (w, Some
                   (Row (consensusEndpoint node)
                        (map (smap_index 0 (stats_incount stats)) incount_names) # incoming,
                    Row (consensusEndpoint node)
                        (map (smap_index 0 (stats_outcount stats)) outcount_names) # outgoing))))"

definition test_count :: "Environment \<Rightarrow> nat \<Rightarrow> World \<Rightarrow> run_result" where
  "test_count E u w =
     (case count_rows (env_net E) u (map snd (memberList (procs w u))) w of
        (w, None) \<Rightarrow> Some (w, [], Throws ''RPC failure: get_stats failed'')
      | (w, Some (incoming, outgoing)) \<Rightarrow>
          Some (w, Line ''incoming requests count'' # incoming
                   @ Line ''outgoing requests count'' # outgoing, Returns 0))"

subsection \<open>Recovery\<close>

definition recovery_lines :: "Store \<Rightarrow> printed list" where
  "recovery_lines replica_db =
     map (\<lambda>(i, expected).
            Line (''Key: '' @ to_string i @ '' | Expected: '' @ expected @ '' | Result: '' @
                  smap_index '''' replica_db (to_string i)))
         [(0, ''v1''), (1, ''v2''), (2, ''v3'')]"

text \<open>Three writes, a pause in which a node starts at port 9001, and the store of that node.\<close>

definition test_recovery :: "Environment \<Rightarrow> nat \<Rightarrow> World \<Rightarrow> run_result" where
  "test_recovery E u w =
     (let set_at = stub_set (env_fuel E) (env_net E) u ''127.0.1.1:9000''
      in Option.bind (set_at ''0'' ''v1'' w) (\<lambda>(w, s).
           Option.bind (set_at ''1'' ''v2'' w) (\<lambda>(w, s).
             Option.bind (set_at ''2'' ''v3'' w) (\<lambda>(w, s).
               case stub_get_db (env_net_later E) u (channel ''127.0.1.1:9001'') (env_sleep E w) of
                 (w, replica_db) \<Rightarrow>
                   Some (w, Line (''Start up a node with consensus address 127.0.1.1:8001 and db '' @
                               ''address 127.0.1.1::9001. We will sleep for 10 seconds to allow '' @
                               ''time for this and recovery to occur'') # recovery_lines replica_db,
                         Returns 0)))))"

subsection \<open>Choosing a command\<close>

definition run_command ::
    "Environment \<Rightarrow> nat \<Rightarrow> string \<Rightarrow> string \<Rightarrow> string \<Rightarrow> string \<Rightarrow> World \<Rightarrow> run_result" where
  "run_command E u command target key v w =
     (if command = ''set'' then command_set E u target key v w
      else if command = ''get'' then command_get E u target key w
      else if command = ''test_leader_c'' then test_consensus E u ''127.0.1.1:8000'' w
      else if command = ''test_leader_db'' then test_leader_db E u w
      else if command = ''test_non_leader_c'' then test_consensus E u ''127.0.1.1:8001'' w
      else if command = ''test_non_leader_db'' then test_non_leader_db E u w
      else if command = ''test_1000_random_ops'' then test_1000_random_ops E u w
      else if command = ''test_count'' then test_count E u w
      else if command = ''test_recovery'' then test_recovery E u w
      else if command = ''benchmark''
      then Some (w, [Line ''Benchmark must be run separately from ./test/benchmark.cc file''],
                 Returns 0)
      else Some (w, [], Returns 0))"

text \<open>\<open>variables[name].as<string>()\<close> throws when there is no string of that name.\<close>

definition user_entrypoint :: "Environment \<Rightarrow> nat \<Rightarrow> variables \<Rightarrow> World \<Rightarrow> run_result" where
  "user_entrypoint E u variables w =
     (if variables ''command'' = None then Some (w, [], Throws ''`command` argument is required'')
      else
        (case (text_of variables ''command'', text_of variables ''target'',
               text_of variables ''key'', text_of variables ''value'') of
           (Some command, Some target, Some key, Some v) \<Rightarrow>
             Option.bind (run_command E u command target key v w)
               (\<lambda>(w, out, e).
                  Some (w, Line (''arguments provided: '' @ command @ '' '' @ key @ '' '' @ v @ '' '' @
                              target) # out, e))
         | _ \<Rightarrow> Some (w, [], Throws ''boost::bad_any_cast'')))"

end
