(* ===== verification/Drivers.thy ===== *)
theory Drivers
  imports User_Commands Startup History Partition
begin

text \<open>
  What the test drivers of \<open>user_entrypoint\<close> report on a cluster in which processes only
  crash. A driver's random writes are a history, so its rows are those of the abstract map;
  the statistics are the counters of the processes; the recovery test finds what it expects.
\<close>

subsection \<open>Random writes are a history\<close>

fun random_events :: "(nat \<Rightarrow> nat) \<Rightarrow> Node list \<Rightarrow> nat \<Rightarrow> nat \<Rightarrow> event list" where
  "random_events rand endpoints 0 k = []"
| "random_events rand endpoints (Suc m) k =
     Client_set (databaseEndpoint (endpoints ! (rand (k + 5) mod length endpoints)))
       (test_keys ! (rand (k + 6) mod length test_keys)) (random_word rand k 5)
     # random_events rand endpoints m (k + 7)"

fun failures :: "event list \<Rightarrow> outcome list \<Rightarrow> printed list" where
  "failures (Client_set addr key v # es) (Result s # outs) =
     (if ok s then [] else [Line (''Set('' @ key @ '', '' @ v @ '') failed'')]) @ failures es outs"
| "failures _ _ = []"

lemma random_writes_run:
  "random_writes fuel (crash_net N D) rand u endpoints m k w =
    map_option (\<lambda>(st, outs). (snd st, failures (random_events rand endpoints m k) outs))
      (run fuel N u (random_events rand endpoints m k) (D, w))"
proof (induction m arbitrary: k w)
  case 0
  then show ?case by simp
next
  case (Suc m)
  let ?addr = "databaseEndpoint (endpoints ! (rand (k + 5) mod length endpoints))"
  let ?key = "test_keys ! (rand (k + 6) mod length test_keys)"
  show ?case
  proof (cases "stub_set fuel (crash_net N D) u ?addr ?key (random_word rand k 5) w")
    case None
    then show ?thesis by (simp add: Let_def)
  next
    case (Some res)
    obtain w1 s where res: "res = (w1, s)" by (cases res)
    show ?thesis
      using Some Suc.IH [of "k + 7" w1]
      by (cases "run fuel N u (random_events rand endpoints m (k + 7)) (D, w1)")
        (simp_all add: res Let_def case_prod_beta)
  qed
qed

lemma test_keys_not_leader: "''leader'' \<notin> set test_keys"
  by (simp add: test_keys_def)

lemma test_key_nth: "test_keys ! (x mod length test_keys) \<noteq> ''leader''"
  using test_keys_not_leader nth_mem [of "x mod length test_keys" test_keys]
  by (fastforce simp: test_keys_def)

lemma random_events_ok:
  assumes "endpoints \<noteq> []"
    and "\<forall>node \<in> set endpoints. \<forall>q. database_route N (databaseEndpoint node) = Some q \<longrightarrow> q \<in> S"
  shows "\<forall>e \<in> set (random_events rand endpoints m k). event_ok N S e"
proof (induction m arbitrary: k)
  case 0
  then show ?case by simp
next
  case (Suc m)
  let ?node = "endpoints ! (rand (k + 5) mod length endpoints)"
  have "?node \<in> set endpoints" using assms(1) by simp
  with assms(2) have "event_ok N S (Client_set (databaseEndpoint ?node)
      (test_keys ! (rand (k + 6) mod length test_keys)) (random_word rand k 5))"
    using test_key_nth by (auto split: option.split)
  with Suc show ?case by simp
qed

lemma random_events_crash: "crashes (random_events rand endpoints m k) = {}"
  by (induction m arbitrary: k) simp_all

lemma length_random_events [simp]: "length (random_events rand endpoints m k) = m"
  by (induction m arbitrary: k) simp_all

subsection \<open>Reading every replica\<close>

lemma get_db_any:
  assumes "stub_get_db (crash_net N D) u node w = (w', db)"
  shows "(\<forall>q. data w' q = data w q \<and> static w' q = static w q) \<and>
    db = (if serving N D (databaseEndpoint node)
          then kv_store (procs w (the (database_route N (databaseEndpoint node)))) else [])"
  using assms
  by (auto simp: stub_get_db_def rpc_send_def at_process_def Database_get_db_def Let_def Get_DB_def
      procs_update data_simps frame_simps serving_def split: option.splits if_splits prod.splits)

lemma map_of_push_back:
  "map_of (fold (\<lambda>key. push_back a [f key]) ks acc) a' =
    (if a' = a \<and> ks \<noteq> [] then Some (smap_index [] acc a @ map f ks) else map_of acc a')"
  by (induction ks arbitrary: acc) (auto simp: push_back_def)

text \<open>The row of a replica whose store is \<open>m\<close>.\<close>

definition row_of :: "(string \<Rightarrow> string option) \<Rightarrow> string list" where
  "row_of m = map (\<lambda>key. case m key of None \<Rightarrow> '''' | Some v \<Rightarrow> v) test_keys"

lemma row_of_store: "map (smap_index '''' kv) test_keys = row_of (map_of kv)"
  by (simp add: row_of_def smap_index_def)

lemma key_values_rows:
  assumes "key_values (crash_net N D) u nodes acc w = (w', acc')"
    and "distinct (map databaseEndpoint nodes)"
    and "\<forall>node \<in> set nodes. map_of acc (databaseEndpoint node) = None"
  shows "(\<forall>q. data w' q = data w q) \<and>
    (\<forall>a. map_of acc' a =
       (if a \<in> databaseEndpoint ` set nodes
        then Some (row_of (if serving N D a then map_of (kv_store (procs w (the (database_route N a))))
                           else Map.empty))
        else map_of acc a))"
  using assms
proof (induction nodes arbitrary: acc w)
  case Nil
  then show ?case by simp
next
  case (Cons node nodes)
  let ?a = "databaseEndpoint node"
  obtain w1 db where w1: "stub_get_db (crash_net N D) u node w = (w1, db)"
    by (cases "stub_get_db (crash_net N D) u node w")
  note db = get_db_any [OF w1]
  define acc1 where "acc1 = fold (\<lambda>key. push_back ?a [smap_index '''' db key]) test_keys
    (smap_emplace ?a [] acc)"
  have "test_keys \<noteq> []" by (simp add: test_keys_def)
  then have acc1: "map_of acc1 a = (if a = ?a then Some (row_of (map_of db)) else map_of acc a)" for a
    using Cons.prems(3) by (simp add: acc1_def map_of_push_back row_of_store [symmetric])
  have "key_values (crash_net N D) u nodes acc1 w1 = (w', acc')"
    using Cons.prems(1) by (simp add: w1 acc1_def)
  moreover have "\<forall>node \<in> set nodes. map_of acc1 (databaseEndpoint node) = None"
    using Cons.prems(2,3) by (simp add: acc1) (metis image_eqI)
  ultimately have IH: "(\<forall>q. data w' q = data w1 q) \<and>
    (\<forall>a. map_of acc' a =
       (if a \<in> databaseEndpoint ` set nodes
        then Some (row_of (if serving N D a then map_of (kv_store (procs w1 (the (database_route N a))))
                           else Map.empty))
        else map_of acc1 a))"
    using Cons.prems(2) by (intro Cons.IH) simp_all
  have kv: "kv_store (procs w1 q) = kv_store (procs w q)" for q
    using db arg_cong [where f = d_kv] by (metis data_of_sel(2))
  show ?case using IH db Cons.prems(2) by (auto simp: acc1 kv)
qed

subsection \<open>The test of random writes\<close>

lemma random_ops_rows:
  assumes h: "healthy N S D n w d" and n: "n + 2 * m < 2 ^ 31"
    and nodes: "nodes = map snd (memberList (procs w u))" "nodes \<noteq> []"
      "distinct (map databaseEndpoint nodes)"
      "\<forall>node \<in> set nodes. \<forall>q. database_route N (databaseEndpoint node) = Some q \<longrightarrow> q \<in> S"
    and E: "env_fuel E = Suc (Suc fuel)" "env_net E = crash_net N D"
  defines "es \<equiv> random_events (env_rand E 123) nodes m 0"
  shows "\<exists>w' rows. random_ops_test E m u w =
      Some (w', failures es (snd (spec_run N es (D, map_of (d_kv d)))) @ map result_line rows, Returns 0) \<and>
    (\<forall>a. map_of rows a =
       (if a \<in> databaseEndpoint ` set nodes
        then Some (row_of (if serving N D a then snd (fst (spec_run N es (D, map_of (d_kv d))))
                           else Map.empty))
        else None))"
proof -
  let ?spec = "spec_run N es (D, map_of (d_kv d))"
  have "rel N S n (D, w) (D, map_of (d_kv d))" using h by (auto simp: rel_def)
  moreover have "card S \<le> 2 * card (S - (D \<union> crashes es))" "finite S"
    using h by (auto simp: healthy_def connected_def es_def random_events_crash)
  moreover have "\<forall>e \<in> set es. event_ok N S e"
    unfolding es_def by (rule random_events_ok [OF nodes(2,4)])
  ultimately obtain st where run: "run (Suc (Suc fuel)) N u es (D, w) = Some (st, snd ?spec)"
    and r: "rel N S (n + 2 * length es) st (fst ?spec)"
    using rel_run [of N S n "(D, w)" "(D, map_of (d_kv d))" es fuel u] n by (auto simp: es_def)
  have D: "fst (fst ?spec) = D"
  proof -
    have "fst (fst (spec_run N (random_events rand nodes m k) (D, mp))) = D" for rand k mp
      by (induction m arbitrary: k mp) (auto simp: case_prod_beta)
    then show ?thesis by (simp add: es_def)
  qed
  with r obtain d' where h': "healthy N S D (n + 2 * length es) (snd st) d'"
    and m': "snd (fst ?spec) = map_of (d_kv d')" by (auto simp: rel_def)
  have writes: "random_writes (env_fuel E) (env_net E) (env_rand E 123) u nodes m 0 w =
      Some (snd st, failures es (snd ?spec))"
    unfolding E random_writes_run es_def [symmetric] using run by simp
  obtain w2 rows where rows: "key_values (env_net E) u nodes [] (snd st) = (w2, rows)"
    by (cases "key_values (env_net E) u nodes [] (snd st)")
  have kv: "map_of (kv_store (procs (snd st) (the (database_route N (databaseEndpoint node))))) =
      snd (fst ?spec)" if "node \<in> set nodes" "serving N D (databaseEndpoint node)" for node
  proof -
    from that nodes(4) obtain q where "database_route N (databaseEndpoint node) = Some q" "q \<in> S - D"
      by (auto simp: serving_def split: option.splits)
    with healthy_kv [OF h'] m' show ?thesis by simp
  qed
  have "map_of rows a = (if a \<in> databaseEndpoint ` set nodes
      then Some (row_of (if serving N D a then snd (fst ?spec) else Map.empty)) else None)" for a
    using key_values_rows [OF rows [unfolded E] nodes(3)] kv by auto
  then show ?thesis
    using writes rows nodes(1) unfolding random_ops_test_def Let_def
    by (intro exI [of _ w2] exI [of _ rows]) simp
qed

subsection \<open>The recovery test\<close>

lemma user_set_at_leader:
  assumes h: "healthy N S D n w d" and n: "n < 2 ^ 31" and l: "l \<in> S - D"
    and lead: "d_leader d = self_address (procs w l)" and key: "key \<noteq> ''leader''"
    and route: "database_route N addr = Some l"
  shows "\<exists>w' d'. stub_set (Suc fuel) (crash_net N D) u addr key v w = Some (w', Status_OK) \<and>
    healthy N S D (Suc n) w' d' \<and> d_kv d' = Set_KV key v (d_kv d) \<and> d_leader d' = d_leader d \<and>
    (\<forall>q. static w' q = static w q) \<and> (\<forall>q \<in> D. data w' q = data w q)"
proof -
  let ?w = "tick (update u (count_out ''DatabaseRPCWrapperCall::set'') w)"
  let ?r = "\<lparr>set_key = key, set_value = v\<rparr>"
  have h1: "healthy N S D n ?w d" by (intro healthy_tick healthy_count_out h)
  have "d_leader d = self_address (procs ?w l)" using lead by (simp add: self_address_def procs_update)
  from set_at_leader [OF h1 n l this, of ?r fuel] key obtain w' where
    w': "Database_set (Suc fuel) (crash_net N D) ?r False l ?w = Some (w', Status_OK, ())"
    and h': "healthy N S D (Suc n) w' (client_write ?r d)" by auto
  from l have "l \<notin> D" by simp
  from set_unreached [OF this _ w'] have frame: "\<forall>q \<in> D. data w' q = data w q" by simp
  have "stub_set (Suc fuel) (crash_net N D) u addr key v w = Some (w', Status_OK)"
    using forward_live [where route = "database_route N" and h = "\<lambda>c q w. Database_set
        (Suc fuel) (crash_net N D) ?r c q w", OF route \<open>l \<notin> D\<close> w'] by (simp add: stub_set_def)
  with h' key set_static [OF w'] frame show ?thesis
    by (intro exI [of _ w'] exI [of _ "client_write ?r d"]) simp
qed

lemma map_of_three:
  "map_of (Set_KV ''2'' ''v3'' (Set_KV ''1'' ''v2'' (Set_KV ''0'' ''v1'' kv))) k =
    (if k = ''0'' then Some ''v1'' else if k = ''1'' then Some ''v2'' else if k = ''2'' then Some ''v3''
     else map_of kv k)"
  by (simp add: Set_KV_def)

lemma to_string_digits: "to_string 0 = ''0''" "to_string (Suc 0) = ''1''" "to_string 2 = ''2''"
  by code_simp+

definition expected_lines :: "printed list" where
  "expected_lines =
     [Line ''Key: 0 | Expected: v1 | Result: v1'', Line ''Key: 1 | Expected: v2 | Result: v2'',
      Line ''Key: 2 | Expected: v3 | Result: v3'']"

lemma recovery_lines_expected:
  assumes "map_of db ''0'' = Some ''v1''" "map_of db ''1'' = Some ''v2''" "map_of db ''2'' = Some ''v3''"
  shows "recovery_lines db = expected_lines"
  using assms by (simp add: recovery_lines_def expected_lines_def to_string_digits)

text \<open>The process that starts at port 9001 while the driver sleeps.\<close>

definition comes_up :: "Net \<Rightarrow> nat set \<Rightarrow> nat \<Rightarrow> World \<Rightarrow> World" where
  "comes_up N D p w =
     (case coordinate (crash_net N (D - {p})) p w of Some w' \<Rightarrow> w' | None \<Rightarrow> w)"

text \<open>Routes that are added for other addresses change nothing.\<close>

lemma connected_more_routes:
  assumes "connected N S w" and "\<And>a q. database_route N a = Some q \<Longrightarrow> routes a = Some q"
  shows "connected (N\<lparr>database_route := routes\<rparr>) S w"
proof -
  have "routed (N\<lparr>database_route := routes\<rparr>) = routed N" by (intro ext) (simp add: routed_def)
  moreover have "member_pids (N\<lparr>database_route := routes\<rparr>) w p = member_pids N w p" for p
    by (simp add: member_pids_def calculation)
  ultimately show ?thesis
    using assms unfolding connected_def members_routed_def
    by (fastforce split: option.splits)
qed

text \<open>The three writes of the test, one after the other at the leader.\<close>

lemma three_writes:
  assumes h: "healthy N S D n w d" and n: "n + 2 < 2 ^ 31" and l: "l \<in> S - D"
    and lead: "d_leader d = self_address (procs w l)"
    and route: "database_route N addr = Some l" and E: "env_fuel E = Suc fuel" "env_net E = crash_net N D"
    and keys: "''leader'' \<notin> {k1, k2, k3}"
  obtains w1 w2 w3 d3 where
    "stub_set (env_fuel E) (env_net E) u addr k1 v1 w = Some (w1, Status_OK)"
    "stub_set (env_fuel E) (env_net E) u addr k2 v2 w1 = Some (w2, Status_OK)"
    "stub_set (env_fuel E) (env_net E) u addr k3 v3 w2 = Some (w3, Status_OK)"
    "healthy N S D (n + 3) w3 d3" "d_kv d3 = Set_KV k3 v3 (Set_KV k2 v2 (Set_KV k1 v1 (d_kv d)))"
    "d_leader d3 = self_address (procs w3 l)" "\<forall>q. static w3 q = static w q"
    "\<forall>q \<in> D. data w3 q = data w q"
proof -
  note set_ok = user_set_at_leader [where N = N and S = S and D = D and l = l and u = u and fuel = fuel]
  from set_ok [OF h _ l lead _ route, of k1 v1] n keys obtain w1 d1 where
    s1: "stub_set (Suc fuel) (crash_net N D) u addr k1 v1 w = Some (w1, Status_OK)"
    and h1: "healthy N S D (Suc n) w1 d1" and kv1: "d_kv d1 = Set_KV k1 v1 (d_kv d)"
    and l1: "d_leader d1 = d_leader d" and st1: "\<forall>q. static w1 q = static w q"
    and f1: "\<forall>q \<in> D. data w1 q = data w q" by auto
  have lead1: "d_leader d1 = self_address (procs w1 l)"
    using l1 lead st1 self_address_static [of w1 l w] by simp
  from set_ok [OF h1 _ l lead1 _ route, of k2 v2] n keys obtain w2 d2 where
    s2: "stub_set (Suc fuel) (crash_net N D) u addr k2 v2 w1 = Some (w2, Status_OK)"
    and h2: "healthy N S D (Suc (Suc n)) w2 d2" and kv2: "d_kv d2 = Set_KV k2 v2 (d_kv d1)"
    and l2: "d_leader d2 = d_leader d1" and st2: "\<forall>q. static w2 q = static w1 q"
    and f2: "\<forall>q \<in> D. data w2 q = data w1 q" by auto
  have lead2: "d_leader d2 = self_address (procs w2 l)"
    using l2 lead1 st2 self_address_static [of w2 l w1] by simp
  from set_ok [OF h2 _ l lead2 _ route, of k3 v3] n keys obtain w3 d3 where
    s3: "stub_set (Suc fuel) (crash_net N D) u addr k3 v3 w2 = Some (w3, Status_OK)"
    and h3: "healthy N S D (Suc (Suc (Suc n))) w3 d3" and kv3: "d_kv d3 = Set_KV k3 v3 (d_kv d2)"
    and l3: "d_leader d3 = d_leader d2" and st3: "\<forall>q. static w3 q = static w2 q"
    and f3: "\<forall>q \<in> D. data w3 q = data w2 q" by auto
  have "d_leader d3 = self_address (procs w3 l)"
    using l3 lead2 st3 self_address_static [of w3 l w2] by simp
  moreover have "healthy N S D (n + 3) w3 d3" using h3 by (simp add: numeral_3_eq_3)
  ultimately show thesis
    using s1 s2 s3 kv1 kv2 kv3 st1 st2 st3 f1 f2 f3 by (intro that [of w1 w2 w3 d3]) (simp_all add: E)
qed

text \<open>The process that starts adopts the leader and copies its store.\<close>

lemma comes_up_copies:
  assumes h: "healthy N S D n w d" and l: "l \<in> S - D" and lead: "d_leader d = self_address (procs w l)"
    and p: "p \<in> S" "p \<in> D" "leader (procs w p) = ''''"
      "\<not> flag_leader (flag (config (procs w p)))" "smap_ok (memberList (procs w p))"
  shows "kv_store (procs (comes_up N D p w) p) = restore (d_kv d) (kv_store (procs w p))"
proof -
  have con: "connected N S w" using h by (simp add: healthy_def)
  have "agreed N S (D - {p}) w l"
    unfolding agreed_def
  proof (intro conjI ballI)
    show "l \<in> S - (D - {p})" using l by simp
    fix q assume "q \<in> S - (D - {p})"
    then have "q = p \<or> q \<in> S - D" by blast
    then show "leader (procs w q) \<in> {'''', self_address (procs w l)}"
      using p(3) healthy_leader [OF h] lead by auto
  next
    have "leader (procs w l) \<noteq> ''''"
      using healthy_leader [OF h l] lead connectedD(7) [OF con, of l] l by simp
    then show "\<exists>q \<in> S - (D - {p}). leader (procs w q) \<noteq> ''''" using l by blast
  qed
  moreover have "p \<noteq> l" using p(2) l by blast
  ultimately obtain w' where co: "coordinate (crash_net N (D - {p})) p w = Some w'"
    and d': "data w' p = (data w p)\<lparr>d_leader := self_address (procs w l),
      d_kv := restore (kv_store (procs w l)) (kv_store (procs w p))\<rparr>"
    using coordinate_adopts [OF con p(1)] p(4,5) by metis
  have "kv_store (procs w' p) = restore (kv_store (procs w l)) (kv_store (procs w p))"
    using arg_cong [where f = d_kv, OF d'] by simp
  then show ?thesis by (simp add: comes_up_def co healthy_kv [OF h l])
qed

lemma recovery_test:
  assumes h: "healthy N S D n w d" and n: "n + 2 < 2 ^ 31" and l: "l \<in> S - D"
    and lead: "d_leader d = self_address (procs w l)" and ok: "smap_ok (d_kv d)"
    and routes: "database_route N ''127.0.1.1:9000'' = Some l" "database_route N ''127.0.1.1:9001'' = Some p"
    and p: "p \<in> S" "p \<in> D" "leader (procs w p) = ''''"
      "\<not> flag_leader (flag (config (procs w p)))" "smap_ok (memberList (procs w p))"
    and E: "env_fuel E = Suc fuel" "env_net E = crash_net N D" "env_sleep E = comes_up N D p"
      "env_net_later E = crash_net N (D - {p})"
  shows "\<exists>w' start. test_recovery E u w = Some (w', start # expected_lines, Returns 0)"
proof -
  have keys: "''leader'' \<notin> {''0'', ''1'', ''2'' :: string}" by simp
  obtain w1 w2 w3 d3 where
    s: "stub_set (env_fuel E) (env_net E) u ''127.0.1.1:9000'' ''0'' ''v1'' w = Some (w1, Status_OK)"
      "stub_set (env_fuel E) (env_net E) u ''127.0.1.1:9000'' ''1'' ''v2'' w1 = Some (w2, Status_OK)"
      "stub_set (env_fuel E) (env_net E) u ''127.0.1.1:9000'' ''2'' ''v3'' w2 = Some (w3, Status_OK)"
    and h3: "healthy N S D (n + 3) w3 d3"
    and kv: "d_kv d3 = Set_KV ''2'' ''v3'' (Set_KV ''1'' ''v2'' (Set_KV ''0'' ''v1'' (d_kv d)))"
    and lead3: "d_leader d3 = self_address (procs w3 l)" and st: "\<forall>q. static w3 q = static w q"
    and f: "\<forall>q \<in> D. data w3 q = data w q"
    by (rule three_writes [OF h n l lead routes(1) E(1,2) keys])
  have "data w3 p = data w p" using f p(2) by blast
  from arg_cong [where f = d_leader, OF this] p(3) have "leader (procs w3 p) = ''''" by simp
  moreover have "\<not> flag_leader (flag (config (procs w3 p)))" "smap_ok (memberList (procs w3 p))"
    using p(4,5) st [rule_format, of p] by (simp_all add: static_eq)
  ultimately have kv_p: "kv_store (procs (comes_up N D p w3) p) = restore (d_kv d3) (kv_store (procs w3 p))"
    by (rule comes_up_copies [OF h3 l lead3 p(1,2)])
  obtain w5 db where w5: "stub_get_db (env_net_later E) u (channel ''127.0.1.1:9001'') (comes_up N D p w3) = (w5, db)"
    by fastforce
  have db: "db = restore (d_kv d3) (kv_store (procs w3 p))"
    using get_db_any [OF w5 [unfolded E]] routes(2) by (simp add: serving_def channel_def kv_p)
  have "recovery_lines db = expected_lines"
  proof (rule recovery_lines_expected)
    have "smap_ok (d_kv d3)" by (simp add: kv Set_KV_ok ok)
    then have m: "map_of db k = (map_of (kv_store (procs w3 p)) ++ map_of (d_kv d3)) k" for k
      by (simp add: db map_of_restore)
    have "map_of (d_kv d3) ''0'' = Some ''v1''" "map_of (d_kv d3) ''1'' = Some ''v2''"
      "map_of (d_kv d3) ''2'' = Some ''v3''" by (simp_all add: kv map_of_three)
    then show "map_of db ''0'' = Some ''v1''" "map_of db ''1'' = Some ''v2''"
      "map_of db ''2'' = Some ''v3''" by (simp_all add: m map_add_def)
  qed
  then show ?thesis using s w5 by (simp add: test_recovery_def E(3) Let_def)
qed

subsection \<open>The call statistics\<close>

lemma get_stats_call:
  assumes "stub_get_stats (crash_net N D) u node w = (w', s, stats)"
  shows "alive (routed N) D node \<Longrightarrow> routed N node = Some q \<Longrightarrow> q \<noteq> u \<Longrightarrow>
      s = Status_OK \<and> stats_incount stats = incount (count_in ''ConsensusRPC::get_stats'' (procs w q)) \<and>
      stats_outcount stats = outcount (procs w q)"
    and "\<not> alive (routed N) D node \<Longrightarrow> \<not> ok s"
    and "x \<noteq> u \<Longrightarrow> routed N node \<noteq> Some x \<Longrightarrow> procs w' x = procs w x"
  using assms
  by (auto simp: stub_get_stats_def rpc_send_def at_process_def get_stats_def Let_def routed_def
      alive_iff procs_update count_in_def split: option.splits if_splits prod.splits)

definition incount_row :: "Net \<Rightarrow> World \<Rightarrow> Node \<Rightarrow> printed" where
  "incount_row N w node =
     Row (consensusEndpoint node)
       (map (smap_index 0 (incount (count_in ''ConsensusRPC::get_stats'' (procs w (the (routed N node))))))
          incount_names)"

definition outcount_row :: "Net \<Rightarrow> World \<Rightarrow> Node \<Rightarrow> printed" where
  "outcount_row N w node =
     Row (consensusEndpoint node)
       (map (smap_index 0 (outcount (procs w (the (routed N node))))) outcount_names)"

lemma count_rows_result:
  assumes "distinct (reached (routed N) nodes)" and "u \<notin> set (reached (routed N) nodes)"
  shows "snd (count_rows (crash_net N D) u nodes w) =
    (if \<forall>node \<in> set nodes. alive (routed N) D node
     then Some (map (incount_row N w) nodes, map (outcount_row N w) nodes) else None)"
  using assms
proof (induction nodes arbitrary: w)
  case Nil
  then show ?case by simp
next
  case (Cons node nodes)
  obtain w1 s stats where c: "stub_get_stats (crash_net N D) u node w = (w1, s, stats)"
    by (cases "stub_get_stats (crash_net N D) u node w")
  note call = get_stats_call [OF c]
  show ?case
  proof (cases "alive (routed N) D node")
    case False
    with call(2) c show ?thesis by simp
  next
    case True
    then obtain q where q: "routed N node = Some q" by (auto simp: alive_iff)
    with Cons.prems have d: "distinct (reached (routed N) nodes)" "u \<notin> set (reached (routed N) nodes)"
      "q \<notin> set (reached (routed N) nodes)" "q \<noteq> u" by auto
    have same: "procs w1 x = procs w x" if "x \<in> set (reached (routed N) nodes)" for x
      using that d q by (intro call(3)) auto
    have "incount_row N w1 node' = incount_row N w node' \<and> outcount_row N w1 node' = outcount_row N w node'"
      if "node' \<in> set nodes" "alive (routed N) D node'" for node'
    proof -
      from that(2) obtain x where "routed N node' = Some x" by (auto simp: alive_iff)
      with that(1) have "x \<in> set (reached (routed N) nodes)" by (auto simp: set_reached)
      from same [OF this] \<open>routed N node' = Some x\<close> show ?thesis
        by (simp add: incount_row_def outcount_row_def)
    qed
    moreover have "s = Status_OK \<and> stats_incount stats = incount (count_in ''ConsensusRPC::get_stats'' (procs w q)) \<and>
      stats_outcount stats = outcount (procs w q)" using call(1) True q d(4) by blast
    ultimately show ?thesis
      using Cons.IH [OF d(1,2), of w1] c True q
      by (auto simp: case_prod_beta incount_row_def outcount_row_def split: option.split prod.split)
  qed
qed

end
