(* ===== verification/Program.thy ===== *)
theory Program
  imports User_Commands Coordinate
begin

text \<open>
  The process as a whole, \<open>main\<close> (entrypoint.cc): parse the options, initialise the static
  state, then either execute the command of a user or start the two servers and coordinate.
  The servers run on threads of their own until the process is killed; a process in that
  state is \<open>Serving\<close> with the two servers that \<open>run_gRPC_server\<close> (utility.cc) started, and what
  their handlers do when they are called is what \<open>Net\<close> routes to it.
\<close>

record Platform =
  split_at_colon :: "string \<Rightarrow> string list"
  cast_port :: "string \<Rightarrow> 16 word option"
  local_ip :: string
  working_directory :: string
  executable_path :: string
  binds :: "string \<Rightarrow> bool"
  files :: "string \<Rightarrow> string option"

text \<open>The exceptions that end a process.\<close>

datatype fatal = Bad_start exn | Missing_member | Driver string

text \<open>A server: the gRPC runtime says which addresses can be bound (\<open>binds\<close>), and documents that
  \<open>BuildAndStart\<close> yields a null pointer for another one. The code does not look at it: it prints
  its line and calls \<open>Wait\<close>, which never returns from a server that was started, and ends the
  process, at a time that the threads decide, for a \<open>Null_server\<close>.\<close>

datatype server = Waits string | Null_server string

datatype main_result =
    Exited int "printed list" World
  | Terminated fatal "printed list" World
  | Serving server server World

definition run_gRPC_server :: "(string \<Rightarrow> bool) \<Rightarrow> Address \<Rightarrow> printed list \<times> server" where
  "run_gRPC_server bound a =
     (let s = address a @ '':'' @ to_string (unat (port a));
          server = (if bound s then Waits s else Null_server s)
      in ([Line ''Server started''], server))"

text \<open>The constructor of \<open>Config\<close> sets only the address of the machine.\<close>

definition new_Config :: "Platform \<Rightarrow> Config \<Rightarrow> Config" where
  "new_Config X c = c\<lparr>ip := local_ip X\<rparr>"

definition main_user ::
    "'p Program_options \<Rightarrow> Platform \<Rightarrow> Environment \<Rightarrow> string list \<Rightarrow> Config \<Rightarrow> variables \<Rightarrow> nat \<Rightarrow>
     World \<Rightarrow> main_result option" where
  "main_user B X E argv c variables p w =
     (case parse_options_user B (files X) argv c variables of
        Exit n \<Rightarrow> Some (Exited n [] w)
      | Parsed (c, variables) \<Rightarrow>
          Option.bind (user_entrypoint E p variables (update p (\<lambda>P. P\<lparr>config := c\<rparr>) w))
            (\<lambda>(w, out, e).
               case e of Returns n \<Rightarrow> Some (Exited n out w)
                       | Throws s \<Rightarrow> Some (Terminated (Driver s) out w)))"

text \<open>What \<open>main\<close> and the two threads print here is left out.\<close>

definition main_node :: "(string \<Rightarrow> bool) \<Rightarrow> Environment \<Rightarrow> nat \<Rightarrow> World \<Rightarrow> main_result" where
  "main_node bound E p w =
     (let c = config (procs w p);
          t1 = snd (run_gRPC_server bound (getAddress Consensus_Service c));
          t2 = snd (run_gRPC_server bound (getAddress Database_Service c))
      in case coordinate (env_net E) p w of
           None \<Rightarrow> Terminated Missing_member [] w
         | Some w' \<Rightarrow> Serving t1 t2 w')"

definition main_program ::
    "'p Program_options \<Rightarrow> Platform \<Rightarrow> Environment \<Rightarrow> string list \<Rightarrow> Config \<Rightarrow> nat \<Rightarrow> World \<Rightarrow>
     main_result option" where
  "main_program B X E argv c p w =
     (case parse_options_node B (files X) (working_directory X) (executable_path X) argv
             (new_Config X c) Map.empty of
        Exit n \<Rightarrow> Some (Exited n [] w)
      | Parsed (c, variables) \<Rightarrow>
          (case initializeStaticInstance (split_at_colon X) (cast_port X) (cluster c) c (procs w p) of
             Inl e \<Rightarrow> Some (Terminated (Bad_start e) [] w)
           | Inr P \<Rightarrow>
               (let w = update p (\<lambda>_. P) w
                in case mode c of
                     USER \<Rightarrow> main_user B X E argv c variables p w
                   | NODE \<Rightarrow> Some (main_node (binds X) E p w))))"

subsection \<open>What can end a process\<close>

lemma run_command_throws:
  "run_command E u command target key v w = Some (w', out, Throws s) \<Longrightarrow>
    s = ''RPC FAILURE'' \<or> s = ''RPC failure: get_stats failed''"
  by (auto simp: run_command_def command_set_def command_get_def test_consensus_def
      test_leader_db_def test_non_leader_db_def test_1000_random_ops_def random_ops_test_def
      test_count_def test_recovery_def Let_def bind_eq_Some_conv split: if_splits prod.splits option.splits)

lemma main_driver_throws:
  assumes doc: "documented B given described"
    and run: "main_program B X E argv c p w = Some (Terminated (Driver s) out w')"
  shows "s = ''RPC FAILURE'' \<or> s = ''RPC failure: get_stats failed''"
proof -
  from run obtain c1 vars1 P where
    n: "parse_options_node B (files X) (working_directory X) (executable_path X) argv
      (new_Config X c) Map.empty = Parsed (c1, vars1)"
    and u: "main_user B X E argv c1 vars1 p (update p (\<lambda>_. P) w) = Some (Terminated (Driver s) out w')"
    by (auto simp: main_program_def main_node_def Let_def
        split: parsed.splits sum.splits Mode.splits option.splits)
  from u obtain c2 vars2 where
    v: "parse_options_user B (files X) argv c1 vars1 = Parsed (c2, vars2)"
    and b: "Option.bind (user_entrypoint E p vars2
        (update p (\<lambda>P. P\<lparr>config := c2\<rparr>) (update p (\<lambda>_. P) w)))
      (\<lambda>(w, out, e). case e of Returns n \<Rightarrow> Some (Exited n out w)
                              | Throws s \<Rightarrow> Some (Terminated (Driver s) out w)) =
      Some (Terminated (Driver s) out w')"
    by (auto simp: main_user_def split: parsed.split_asm)
  then obtain w2 out2 e2 where res: "user_entrypoint E p vars2
      (update p (\<lambda>P. P\<lparr>config := c2\<rparr>) (update p (\<lambda>_. P) w)) = Some (w2, out2, e2)"
    by (auto simp: bind_eq_Some_conv)
  with b have e: "user_entrypoint E p vars2 (update p (\<lambda>P. P\<lparr>config := c2\<rparr>) (update p (\<lambda>_. P) w)) =
      Some (w', out, Throws s)"
    by (cases e2) auto
  have strings: "text_of vars2 name \<noteq> None" if "name \<in> {''target'', ''command'', ''key'', ''value''}" for name
    using parsed_user [OF doc v that node_knows_no_user_option [OF doc n that]] .
  then have "text_of vars2 ''command'' \<noteq> None" "text_of vars2 ''target'' \<noteq> None"
    "text_of vars2 ''key'' \<noteq> None" "text_of vars2 ''value'' \<noteq> None" by simp_all
  then obtain command target key val where
    t: "text_of vars2 ''command'' = Some command" "text_of vars2 ''target'' = Some target"
      "text_of vars2 ''key'' = Some key" "text_of vars2 ''value'' = Some val" by blast
  from t(1) have "vars2 ''command'' \<noteq> None"
    by (auto simp: text_of_def split: option.splits)
  with e t show ?thesis
    by (auto simp: user_entrypoint_def bind_eq_Some_conv dest: run_command_throws)
qed

end
