(* ===== verification/Properties_Program.thy ===== *)
theory Properties_Program
  imports Drivers Program Example_Cluster
begin

text \<open>
  The properties of the process as a whole: its options, its start, and what the commands of a
  user report.
\<close>

subsection \<open>The options and the start\<close>

text \<open>Claim C23: options have a priority. When a node's options are parsed, each field of the
  configuration holds the value of the command line, else the value of the configuration
  file that the command line names (looked up next to the executable, skipped when it cannot
  be opened), else the default; the addresses have no default and stay what they were; the
  mode is \<open>NODE\<close> unless given; with \<open>help\<close> the process only goes on in the mode of a user.\<close>

theorem options_have_priority:
  assumes "documented B given described"
    and "parse_options_node B readable cwd exe argv c Map.empty = Parsed (c', vars)"
    and "command_line B (generic_options @ primary_options cwd) argv = Inr p"
    and "v = node_value B given readable cwd exe (given p)"
  shows "v ''port_database'' = Some (Port (port_database c')) \<and>
    v ''port_consensus'' = Some (Port (port_consensus c')) \<and>
    v ''database_directory'' = Some (Text (database_directory c')) \<and>
    cluster c' = (case v ''cluster.address'' of Some (Texts l) \<Rightarrow> l | _ \<Rightarrow> cluster c) \<and>
    v ''flag.debug'' = Some (Switch (flag_debug (flag c'))) \<and>
    v ''flag.leader'' = Some (Switch (flag_leader (flag c'))) \<and>
    v ''flag.local_ubuntu'' = Some (Switch (flag_local_ubuntu (flag c'))) \<and>
    v ''flag.timeout'' = Some (Number (flag_timeout (flag c'))) \<and>
    v ''flag.failrate'' = Some (Number (flag_failrate (flag c'))) \<and>
    v ''flag.latency'' = Some (Switch (flag_latency (flag c'))) \<and>
    v ''flag.election'' = Some (Switch (flag_election (flag c'))) \<and>
    mode c' = (case v ''mode'' of Some (Mode_option m) \<Rightarrow> m | _ \<Rightarrow> NODE) \<and>
    (v ''help'' = None \<or> mode c' = USER)"
proof -
  obtain q where
    q: "command_line B (generic_options @ primary_options cwd) argv = Inr q" and
    vars: "\<And>name. map_option fst (vars name) = node_value B given readable cwd exe (given q) name" and
    c': "c' = (bind (node_value B given readable cwd exe (given q)) node_bindings
             (case text_of vars ''config'' of None \<Rightarrow> c | Some s \<Rightarrow> c\<lparr>config_path := s\<rparr>))
          \<lparr>mode := case vars ''mode'' of Some (Mode_option m, b) \<Rightarrow> m | _ \<Rightarrow> NODE\<rparr>" and
    asked: "vars ''help'' = None \<or> mode c' = USER"
    by (rule parsed_node [OF assms(1,2)], rule that)
  from q assms(3) have "q = p" by simp
  note c' = c' [unfolded \<open>q = p\<close>, folded assms(4)]
    and v = vars [unfolded \<open>q = p\<close>, folded assms(4), symmetric]
  have m: "mode c' = (case v ''mode'' of Some (Mode_option m) \<Rightarrow> m | _ \<Rightarrow> NODE)"
    unfolding v [of "''mode''"] by (auto simp: c' split: option.split opt_value.split)
  have h: "v ''help'' = None \<or> mode c' = USER" using asked unfolding v [of "''help''"] by simp
  let ?c = "case text_of vars ''config'' of None \<Rightarrow> c | Some s \<Rightarrow> c\<lparr>config_path := s\<rparr>"
  have same: "cluster ?c = cluster c" by (simp split: option.split)
  show ?thesis
    using bound_fields [OF assms(1,3,4) refl, of ?c, unfolded same] m h by (simp add: c')
qed

text \<open>A small library that behaves as documented: it knows a few arguments and one file.\<close>

type_synonym ex_parsed = "option_desc list \<times> (string \<Rightarrow> opt_value option)"

fun ex_given :: "ex_parsed \<Rightarrow> string \<Rightarrow> opt_value option" where
  "ex_given (ds, values) name =
     (case values name of
        None \<Rightarrow> None
      | Some v \<Rightarrow>
          if list_ex (\<lambda>d. long_name (opt_name d) = name \<and> typed (opt_semantic d) v) ds then Some v else None)"

definition ex_arguments :: "string list \<Rightarrow> string \<Rightarrow> opt_value option" where
  "ex_arguments argv name =
     (if name = ''flag.leader'' \<and> ''--flag.leader'' \<in> set argv then Some (Switch True)
      else if name = ''config'' \<and> ''--config=f'' \<in> set argv then Some (Text ''f'')
      else if name = ''mode'' \<and> ''--mode=user'' \<in> set argv then Some (Mode_option USER)
      else if name = ''command'' \<and> ''--command=test_non_leader_db'' \<in> set argv
      then Some (Text ''test_non_leader_db'') else None)"

definition ex_library :: "ex_parsed Program_options" where
  "ex_library =
     \<lparr>command_line = \<lambda>ds argv. Inr (ds, ex_arguments argv),
      config_file = \<lambda>ds content. Inr (ds, [''flag.timeout'' \<mapsto> Number 7, ''port_consensus'' \<mapsto> Port 8001,
                                          ''flag.leader'' \<mapsto> Switch False]),
      store = \<lambda>check p vars. Inr (stored (ex_given p) (fst p) vars),
      notify = \<lambda>bs vars c. Inr (bind (\<lambda>name. map_option fst (vars name)) bs c),
      check_first_occurrence = \<lambda>v. if v = None then Inr () else Inl (Po_error ''multiple occurrences''),
      get_single_string = \<lambda>l. case l of [s] \<Rightarrow> Inr s | _ \<Rightarrow> Inl (Po_error ''one token expected'')\<rparr>"

lemma ex_documented: "documented ex_library ex_given fst"
  by (auto simp: documented_def ex_library_def list_ex_iff split: option.splits if_splits)

definition ex_files :: "string \<Rightarrow> string option" where
  "ex_files path = (if path = ''/bin/f'' then Some ''[flag]'' else None)"

theorem options_have_priority_witness:
  "\<exists>c vars. parse_options_node ex_library ex_files ''/home'' ''/bin'' [''--flag.leader'', ''--config=f'']
      (ex_config 0) Map.empty = Parsed (c, vars) \<and>
    flag_leader (flag c) \<and> flag_timeout (flag c) = 7 \<and> port_consensus c = 8001 \<and>
    port_database c = 9000 \<and> mode c = NODE"
proof -
  let ?argv = "[''--flag.leader'', ''--config=f'']"
  let ?ds = "generic_options @ primary_options ''/home''"
  let ?file = "[''flag.timeout'' \<mapsto> Number 7, ''port_consensus'' \<mapsto> Port 8001, ''flag.leader'' \<mapsto> Switch False]"
  let ?vars = "stored (ex_given (?ds, ex_arguments ?argv)) ?ds Map.empty"
  let ?vars2 = "stored (ex_given (primary_options ''/home'', ?file)) (primary_options ''/home'') ?vars"
  have file_name: "ex_files (concatenatePath ''/home'' ''/bin'' ''f'') = Some ''[flag]''" by code_simp
  have "text_of ?vars ''config'' = Some ''f''"
    unfolding named_config by (simp add: config_named_def generic_options_def ex_arguments_def)
  then have src: "store_sources ex_library ex_files (concatenatePath ''/home'' ''/bin'') ?ds
      (primary_options ''/home'') ?argv Map.empty = Inr ?vars2"
    by (simp add: store_sources_def store_file_def ex_library_def file_name)
  have "default_of ?ds ''help'' = None" unfolding default_generic
    by (simp add: default_of_def primary_options_def)
  then have "?vars2 ''help'' = None"
    by (simp add: stored_def ex_arguments_def default_of_def primary_options_def)
  moreover have "notify ex_library bs vars c = Inr (bind (\<lambda>name. map_option fst (vars name)) bs c)"
    for bs vars c by (simp add: ex_library_def)
  ultimately obtain c vars where
    parse: "parse_options_node ex_library ex_files ''/home'' ''/bin'' ?argv (ex_config 0) Map.empty = Parsed (c, vars)"
    by (auto simp: parse_options_node_def src Let_def)
  have "command_line ex_library ?ds ?argv = Inr (?ds, ex_arguments ?argv)"
    by (simp add: ex_library_def)
  note fields = options_have_priority [OF ex_documented parse this refl]
  from fields show ?thesis
    by (intro exI [of _ c] exI [of _ vars] conjI parse)
      (simp_all add: node_value_def preferred_def file_gives_def config_named_def file_name
         ex_library_def ex_arguments_def default_of_def generic_options_def primary_options_def)
qed

text \<open>Claim C28: the arguments of a user are there, as strings. Whatever the command line and the
  configuration file hold, a process that dies of an exception of \<open>user_entrypoint\<close> dies of a
  failed call: never of a missing \<open>command\<close>, and never because \<open>as<std::string>()\<close> finds a value
  of another type.\<close>

theorem arguments_are_strings:
  assumes "documented B given described"
    and "main_program B X E argv c p w = Some (Terminated (Driver s) out w')"
  shows "s \<in> {''RPC FAILURE'', ''RPC failure: get_stats failed''}"
  using main_driver_throws [OF assms] by simp

definition ex_env :: "Net \<Rightarrow> Environment" where
  "ex_env M = \<lparr>env_fuel = Suc (Suc 0), env_net = M, env_rand = (\<lambda>seed i. seed + i),
     env_order = (\<lambda>m. m), env_sleep = (\<lambda>w. w), env_net_later = M\<rparr>"

definition ex_platform :: Platform where
  "ex_platform = \<lparr>split_at_colon = tokens, cast_port = parse_port, local_ip = ''h'',
     working_directory = ''/home'', executable_path = ''/bin'', binds = (\<lambda>a. True), files = Map.empty\<rparr>"

text \<open>A user with the example library: what each parser yields.\<close>

definition ex_argv :: "string list" where
  "ex_argv = [''--mode=user'', ''--command=test_non_leader_db'']"

definition ex_options :: "option_desc list" where
  "ex_options = generic_options @ primary_options ''/home''"

definition ex_vars :: variables where
  "ex_vars = stored (ex_given (ex_options, ex_arguments ex_argv)) ex_options Map.empty"

definition ex_user_vars :: variables where
  "ex_user_vars = stored (ex_given (user_options, ex_arguments ex_argv)) user_options ex_vars"

abbreviation ex_bind :: "variables \<Rightarrow> Config \<Rightarrow> Config" where
  "ex_bind vars \<equiv> bind (\<lambda>name. map_option fst (vars name)) node_bindings"

lemma ex_notify: "notify ex_library bs vars c = Inr (bind (\<lambda>name. map_option fst (vars name)) bs c)"
  by (simp add: ex_library_def)

lemma ex_vars_none:
  assumes "name \<in> {''help'', ''config'', ''cluster.address'', ''command'', ''target'', ''key'', ''value''}"
  shows "ex_vars name = None"
proof -
  have "default_of ex_options name = None" unfolding ex_options_def default_generic
    using assms by (elim insertE emptyE) (simp_all add: default_of_def primary_options_def)
  with assms show ?thesis
    by (elim insertE emptyE) (simp_all add: ex_vars_def ex_options_def ex_argv_def stored_def
        ex_arguments_def generic_options_def primary_options_def)
qed

lemma ex_vars_local: "ex_vars ''flag.local_ubuntu'' = Some (Switch False, True)"
proof -
  have "default_of ex_options ''flag.local_ubuntu'' = Some (Switch False)"
    unfolding ex_options_def default_generic by (simp add: default_of_def primary_options_def)
  then show ?thesis by (simp add: ex_vars_def ex_argv_def stored_def ex_arguments_def)
qed

lemma ex_node_parsed:
  "parse_options_node ex_library Map.empty ''/home'' ''/bin'' ex_argv c Map.empty =
    Parsed ((ex_bind ex_vars c)\<lparr>mode := USER\<rparr>, ex_vars)"
proof -
  have "store_sources ex_library Map.empty (concatenatePath ''/home'' ''/bin'') ex_options
      (primary_options ''/home'') ex_argv Map.empty = Inr ex_vars"
    by (simp add: ex_vars_def store_sources_def store_file_def ex_library_def split: option.split)
  moreover have "ex_vars ''mode'' = Some (Mode_option USER, False)"
    by (simp add: ex_vars_def ex_options_def ex_argv_def stored_def ex_arguments_def generic_options_def)
  ultimately show ?thesis
    by (simp add: parse_options_node_def ex_options_def ex_notify text_of_def ex_vars_none)
qed

lemma ex_user_parsed:
  "parse_options_user ex_library Map.empty ex_argv c ex_vars = Parsed (ex_bind ex_user_vars c, ex_user_vars)"
proof -
  have "store_sources ex_library Map.empty (\<lambda>name. name) user_options user_options ex_argv ex_vars =
      Inr ex_user_vars"
    by (simp add: ex_user_vars_def store_sources_def store_file_def ex_library_def split: option.split)
  moreover have "ex_user_vars ''help'' = None"
    by (simp add: ex_user_vars_def ex_argv_def stored_def ex_vars_none ex_arguments_def default_of_def
        user_options_def)
  ultimately show ?thesis by (simp add: parse_options_user_def ex_notify)
qed

lemma ex_command_fails:
  "\<exists>w' out. user_entrypoint (ex_env (ex_net 3)) 7 ex_user_vars w = Some (w', out, Throws ''RPC FAILURE'')"
proof -
  have "text_of ex_user_vars ''command'' = Some ''test_non_leader_db''" "ex_user_vars ''command'' \<noteq> None"
    "\<exists>t. text_of ex_user_vars ''target'' = Some t" "\<exists>t. text_of ex_user_vars ''key'' = Some t"
    "\<exists>t. text_of ex_user_vars ''value'' = Some t"
    by (simp_all add: ex_user_vars_def ex_argv_def text_of_def stored_def ex_vars_none ex_arguments_def
        default_of_def user_options_def)
  then show ?thesis
    by (auto simp: user_entrypoint_def run_command_def test_non_leader_db_def ex_env_def
        channel_def stub_get_leader_def rpc_send_def Let_def)
qed

lemma ex_user_starts:
  assumes "cluster c = []"
  shows "\<exists>P. initializeStaticInstance tokens parse_port (cluster (ex_bind ex_vars c))
    ((ex_bind ex_vars c)\<lparr>mode := USER\<rparr>) P0 = Inr P"
proof -
  obtain q where q: "command_line ex_library (generic_options @ primary_options ''/home'') ex_argv = Inr q"
    and v: "\<And>name. map_option fst (ex_vars name) =
      node_value ex_library ex_given Map.empty ''/home'' ''/bin'' (ex_given q) name"
    by (rule parsed_node [OF ex_documented ex_node_parsed], rule that)
  note fields = bound_fields [OF ex_documented q ext [OF v] refl, of c]
  have "cluster (ex_bind ex_vars c) = []" "\<not> flag_local_ubuntu (flag (ex_bind ex_vars c))"
    using fields(4) fields(7) ex_vars_none ex_vars_local assms by simp_all
  then show ?thesis by (simp add: initializeStaticInstance_def local_address_def Let_def)
qed

theorem arguments_are_strings_witness:
  "\<exists>s out w'. main_program ex_library ex_platform (ex_env (ex_net 3)) ex_argv (ex_config 0) 7 (ex_world 3) =
      Some (Terminated (Driver s) out w') \<and>
    s \<in> {''RPC FAILURE'', ''RPC failure: get_stats failed''}"
proof -
  let ?c = "new_Config ex_platform (ex_config 0)"
  have "cluster ?c = []" by (simp add: new_Config_def ex_config_def)
  from ex_user_starts [OF this] obtain P where "initializeStaticInstance tokens parse_port
      (cluster (ex_bind ex_vars ?c)) ((ex_bind ex_vars ?c)\<lparr>mode := USER\<rparr>) (procs (ex_world 3) 7) = Inr P"
    by blast
  moreover obtain w' out where "user_entrypoint (ex_env (ex_net 3)) 7 ex_user_vars
      (update 7 (\<lambda>P. P\<lparr>config := ex_bind ex_user_vars ((ex_bind ex_vars ?c)\<lparr>mode := USER\<rparr>)\<rparr>)
        (update 7 (\<lambda>_. P) (ex_world 3))) = Some (w', out, Throws ''RPC FAILURE'')"
    using ex_command_fails by blast
  ultimately have "\<exists>s out w'. main_program ex_library ex_platform (ex_env (ex_net 3)) ex_argv
      (ex_config 0) 7 (ex_world 3) = Some (Terminated (Driver s) out w')"
    by (simp add: main_program_def main_user_def ex_platform_def ex_node_parsed ex_user_parsed del: ex_procs)
  then show ?thesis using arguments_are_strings [OF ex_documented] by blast
qed

text \<open>Where a member listens. Both services of a started node listen on the addresses of
  its configuration, if the ports are free. For a node whose own address is among the cluster addresses, the entry
  of the member list, by which all members and users call it, has its consensus address, but
  as database address the consensus port plus 1000: the option \<open>port_database\<close> only moves
  the server, so it must have this very value.\<close>

lemma members_expect_port_plus_1000:
  assumes "\<forall>a \<in> set as. tokenizes split cast a" and "\<not> flag_local_ubuntu (flag c)"
    and "getAddress Consensus_Service c \<in> set as"
    and "initializeStaticInstance split cast (map toString as) c P = Inr (procs w p)"
    and "coordinate (env_net E) p w = Some w'" and "\<And>a. bound a"
  shows "\<exists>a. main_node bound E p w = Serving (Waits (consensusEndpoint (currentNode (procs w p)))) (Waits a) w' \<and>
    a = toString (getAddress Database_Service c) \<and>
    (databaseEndpoint (currentNode (procs w p)) = a \<longleftrightarrow>
       unat (port_database c) = unat (port_consensus c) + 1000)"
proof -
  note init = initialize_member [OF assms(1-4)]
  have "address_of @ '':'' @ to_string m = address_of @ '':'' @ to_string n \<longleftrightarrow> m = n" for m n address_of
    using to_string_inject by auto
  then show ?thesis
    using assms(5,6)
    by (auto simp: main_node_def init Let_def run_gRPC_server_def member_node_def getAddress_def toString_def)
qed

lemma members_expect_port_plus_1000_witness:
  "\<exists>a w'. main_node (\<lambda>a. True) (ex_env (ex_net 3)) 0 (ex_boot 3) = Serving (Waits ''h:1'') (Waits a) w' \<and>
    a = databaseEndpoint (currentNode (procs (ex_boot 3) 0))"
proof -
  have c: "getAddress Consensus_Service (ex_config 0) \<in> set (map ex_address [0..<3])" by simp
  have "coordinate (env_net (ex_env (ex_net 3))) 0 (ex_boot 3) =
      Some (update 0 (\<lambda>P. P\<lparr>leader := self_address P\<rparr>) (ex_boot 3))"
    by (rule coordinate_leader) (simp add: ex_boot_simps)
  from members_expect_port_plus_1000 [OF ex_tokenizes _ c ex_boot_init this, of "\<lambda>a. True"]
  have "\<exists>a. main_node (\<lambda>a. True) (ex_env (ex_net 3)) 0 (ex_boot 3) =
      Serving (Waits (consensusEndpoint (currentNode (procs (ex_boot 3) 0)))) (Waits a)
        (update 0 (\<lambda>P. P\<lparr>leader := self_address P\<rparr>) (ex_boot 3)) \<and>
    (databaseEndpoint (currentNode (procs (ex_boot 3) 0)) = a \<longleftrightarrow>
       unat (port_database (ex_config 0)) = unat (port_consensus (ex_config 0)) + 1000)"
    by auto
  moreover have "currentNode (procs (ex_boot 3) 0) = listens ''h:1'' ''h:1001''"
    using initialize_member(4) [OF ex_tokenizes _ c ex_boot_init] by simp
  ultimately show ?thesis by (auto simp: ex_config_def)
qed

subsection \<open>The drivers\<close>

text \<open>Claim C19: the test of random writes shows equal replicas. On a healthy cluster whose processes
  only crash, \<open>test_1000_random_ops\<close>, with any number of writes and any random numbers, always
  returns, and it prints one row for each member: the row of a live member shows, for each test
  key, the value that the same writes leave in one map, so the rows of all live members are
  equal; the row of a dead member is empty.\<close>

theorem random_ops_show_equal_replicas:
  assumes "healthy N S D n w d" and "n + 2 * m < 2 ^ 31"
    and "nodes = map snd (memberList (procs w u))" and "nodes \<noteq> []"
    and "distinct (map databaseEndpoint nodes)"
    and "\<forall>node \<in> set nodes. \<forall>q. database_route N (databaseEndpoint node) = Some q \<longrightarrow> q \<in> S"
    and "env_fuel E = Suc (Suc fuel)" and "env_net E = crash_net N D"
    and "es = random_events (env_rand E 123) nodes m 0"
  shows "\<exists>w' rows. random_ops_test E m u w =
      Some (w', failures es (snd (spec_run N es (D, map_of (d_kv d)))) @ map result_line rows, Returns 0) \<and>
    (\<forall>a. map_of rows a =
       (if a \<in> databaseEndpoint ` set nodes
        then Some (row_of (if serving N D a then snd (fst (spec_run N es (D, map_of (d_kv d))))
                           else Map.empty))
        else None))"
  unfolding assms(9) by (rule random_ops_rows [OF assms(1-8)])

theorem random_ops_show_equal_replicas_witness:
  "\<exists>w' out rows. random_ops_test (ex_env (crash_net (ex_net 3) {0})) 1000 7 (ex_world 3) =
      Some (w', out @ map result_line rows, Returns 0) \<and>
    map_of rows ''h:1002'' = map_of rows ''h:1003'' \<and>
    map_of rows ''h:1001'' = Some (row_of Map.empty)"
proof -
  let ?nodes = "map snd (memberList (procs (ex_world 3) 7))"
  have nodes: "?nodes = [listens ''h:1'' ''h:1001'', listens ''h:2'' ''h:1002'', listens ''h:3'' ''h:1003'']"
    by (simp add: ex_members)
  then have facts: "?nodes \<noteq> []" "distinct (map databaseEndpoint ?nodes)"
    "\<forall>node \<in> set ?nodes. \<forall>q. database_route (ex_net 3) (databaseEndpoint node) = Some q \<longrightarrow> q \<in> {0, 1, 2}"
    by simp_all
  let ?E = "ex_env (crash_net (ex_net 3) {0})"
  have h: "healthy (ex_net 3) {0, 1, 2} {0} 0 (ex_world 3) ex_data" by (rule ex_healthy) simp_all
  have E: "env_fuel ?E = Suc (Suc 0)" "env_net ?E = crash_net (ex_net 3) {0}" "(0 :: nat) + 2 * 1000 < 2 ^ 31"
    by (simp_all add: ex_env_def)
  from random_ops_show_equal_replicas [OF h E(3) refl facts E(1,2) refl]
  obtain w' out rows M where
    run: "random_ops_test ?E 1000 7 (ex_world 3) = Some (w', out @ map result_line rows, Returns 0)"
    and rows: "\<forall>a. map_of rows a =
       (if a \<in> databaseEndpoint ` set ?nodes
        then Some (row_of (if serving (ex_net 3) {0} a then M else Map.empty)) else None)"
    by blast
  have "map_of rows ''h:1002'' = map_of rows ''h:1003''"
    "map_of rows ''h:1001'' = Some (row_of Map.empty)"
    unfolding rows [rule_format] nodes by (simp_all add: serving_def)
  with run show ?thesis by blast
qed

text \<open>Claim C20: the recovery test passes. Let the leader listen at the port 9000 of the test, and let
  the process that listens at 9001 be down during the three writes and start, without the
  leader flag, while the driver sleeps. Then \<open>test_recovery\<close> returns and prints for each of
  the three keys the expected value as the result.\<close>

theorem recovery_test_passes:
  assumes "healthy N S D n w d" and "n + 2 < 2 ^ 31" and "l \<in> S - D"
    and "d_leader d = self_address (procs w l)" and "smap_ok (d_kv d)"
    and "database_route N ''127.0.1.1:9000'' = Some l" and "database_route N ''127.0.1.1:9001'' = Some p"
    and "p \<in> S" and "p \<in> D" and "leader (procs w p) = ''''"
    and "\<not> flag_leader (flag (config (procs w p)))" and "smap_ok (memberList (procs w p))"
    and "env_fuel E = Suc fuel" and "env_net E = crash_net N D" and "env_sleep E = comes_up N D p"
    and "env_net_later E = crash_net N (D - {p})"
  shows "\<exists>w' start. test_recovery E u w = Some (w', start #
    [Line ''Key: 0 | Expected: v1 | Result: v1'', Line ''Key: 1 | Expected: v2 | Result: v2'',
     Line ''Key: 2 | Expected: v3 | Result: v3''], Returns 0)"
  using recovery_test [OF assms] by (simp add: expected_lines_def)

definition ex_test_net :: Net where
  "ex_test_net = (ex_net 3)\<lparr>database_route :=
     (database_route (ex_net 3))(''127.0.1.1:9000'' \<mapsto> 0, ''127.0.1.1:9001'' \<mapsto> 1)\<rparr>"

definition ex_late_world :: World where
  "ex_late_world = update 1 (\<lambda>P. P\<lparr>leader := ''''\<rparr>) (ex_world 3)"

lemma ex_late_healthy: "healthy ex_test_net {0, 1, 2} {1} 0 ex_late_world ex_data"
proof -
  have h: "healthy (ex_net 3) {0, 1, 2} {1} 0 (ex_world 3) ex_data" by (rule ex_healthy) simp_all
  have st: "static ex_late_world q = static (ex_world 3) q" for q
    by (simp add: ex_late_world_def procs_update static_of_def)
  have "connected ex_test_net {0, 1, 2} (ex_world 3)"
    unfolding ex_test_net_def
    by (rule connected_more_routes) (use h in \<open>auto simp: healthy_def split: if_splits\<close>)
  moreover have "replicas ({0, 1, 2} - {1}) ex_late_world ex_data"
    by (simp add: replicas_def ex_late_world_def procs_update)
  ultimately show ?thesis
    using h by (simp add: healthy_def connected_static [OF st] self_address_static [OF st])
qed

theorem recovery_test_passes_witness:
  "\<exists>w' start. test_recovery (ex_env (crash_net ex_test_net {1})
      \<lparr>env_sleep := comes_up ex_test_net {1} 1, env_net_later := crash_net ex_test_net ({1} - {1})\<rparr>)
      7 ex_late_world = Some (w', start #
    [Line ''Key: 0 | Expected: v1 | Result: v1'', Line ''Key: 1 | Expected: v2 | Result: v2'',
     Line ''Key: 2 | Expected: v3 | Result: v3''], Returns 0)"
proof (rule recovery_test_passes [OF ex_late_healthy])
  show "(0 :: nat) \<in> {0, 1, 2} - {1}" "(1 :: nat) \<in> {0, 1, 2}" "(1 :: nat) \<in> {1}" "(0 :: nat) + 2 < 2 ^ 31"
    by simp_all
  show "d_leader ex_data = self_address (procs ex_late_world 0)" "smap_ok (d_kv ex_data)"
    by (simp_all add: ex_data_def ex_late_world_def procs_update)
  show "database_route ex_test_net ''127.0.1.1:9000'' = Some 0"
    "database_route ex_test_net ''127.0.1.1:9001'' = Some 1"
    by (simp_all add: ex_test_net_def)
  show "leader (procs ex_late_world 1) = ''''"
    "\<not> flag_leader (flag (config (procs ex_late_world 1)))"
    "smap_ok (memberList (procs ex_late_world 1))"
    by (simp_all add: ex_late_world_def procs_update ex_process_def smap_ok_insert_members)
qed (simp_all add: ex_env_def)

text \<open>The statistics are the counters. When every member answers, \<open>test_count\<close> prints in
  each table the counters of each member, in the order of the member list; when any member
  does not answer it prints no table and throws.\<close>

lemma count_test_reports_counters:
  assumes "nodes = map snd (memberList (procs w u))" and "distinct (reached (routed N) nodes)"
    and "u \<notin> set (reached (routed N) nodes)" and "env_net E = crash_net N D"
  shows "\<exists>w'. test_count E u w =
    (if \<forall>node \<in> set nodes. alive (routed N) D node
     then Some (w', Line ''incoming requests count'' # map (incount_row N w) nodes @
            Line ''outgoing requests count'' # map (outcount_row N w) nodes, Returns 0)
     else Some (w', [], Throws ''RPC failure: get_stats failed''))"
proof -
  obtain w' r where r: "count_rows (crash_net N D) u nodes w = (w', r)" by fastforce
  with count_rows_result [OF assms(2,3), of D w] show ?thesis
    unfolding test_count_def assms(1) [symmetric] assms(4) r by (intro exI [of _ w']) simp
qed

lemma count_test_reports_counters_witness:
  "\<exists>w'. test_count (ex_env (crash_net (ex_net 3) {1})) 7 (ex_world 3) =
    Some (w', [], Throws ''RPC failure: get_stats failed'')"
proof -
  let ?nodes = "map snd (memberList (procs (ex_world 3) 7))"
  have r: "reached (routed (ex_net 3)) ?nodes = [0, 1, 2]" by (simp add: ex_members routed_def)
  have "\<not> (\<forall>node \<in> set ?nodes. alive (routed (ex_net 3)) {1} node)"
    by (simp add: ex_members routed_def alive_def)
  moreover have "distinct (reached (routed (ex_net 3)) ?nodes)"
    "7 \<notin> set (reached (routed (ex_net 3)) ?nodes)" unfolding r by simp_all
  moreover have "env_net (ex_env (crash_net (ex_net 3) {1})) = crash_net (ex_net 3) {1}"
    by (simp add: ex_env_def)
  ultimately show ?thesis
    using count_test_reports_counters [OF refl, of "ex_net 3" "ex_world 3" 7] by metis
qed

end
