(* ===== verification/Benchmark.thy ===== *)
theory Benchmark
  imports History
begin

text \<open>
  The benchmark (src/test/benchmark.cc): \<open>reachConsensus\<close> writes one fixed key through the stub
  and throws when the status is not OK, and \<open>benchmark_function\<close> repeats it. The timing of the
  benchmark library is left out; the number of iterations is its argument.
\<close>

definition reachConsensus :: "nat \<Rightarrow> Net \<Rightarrow> nat \<Rightarrow> string \<Rightarrow> World \<Rightarrow> (string + World) option" where
  "reachConsensus fuel N u addr w =
     (case stub_set fuel N u addr ''k'' ''v'' w of
        None \<Rightarrow> None
      | Some (w, res) \<Rightarrow> Some (if ok res then Inr w else Inl ''RPC FAILURE''))"

definition benchmark_address :: string where
  "benchmark_address = ''127.0.1.1:9005''"

fun benchmark_function :: "nat \<Rightarrow> Net \<Rightarrow> nat \<Rightarrow> nat \<Rightarrow> World \<Rightarrow> (string + World) option" where
  "benchmark_function fuel N u 0 w = Some (Inr w)"
| "benchmark_function fuel N u (Suc k) w =
     (case reachConsensus fuel N u benchmark_address w of
        None \<Rightarrow> None
      | Some (Inl e) \<Rightarrow> Some (Inl e)
      | Some (Inr w) \<Rightarrow> benchmark_function fuel N u k w)"

lemma benchmark_runs:
  assumes "healthy N S D n w d" and "n + 2 * k < 2 ^ 31" and "serving N D benchmark_address"
    and "\<forall>q. database_route N benchmark_address = Some q \<longrightarrow> q \<in> S"
  shows "\<exists>w' d'. benchmark_function (Suc (Suc fuel)) (crash_net N D) u k w = Some (Inr w') \<and>
    healthy N S D (n + 2 * k) w' d' \<and>
    map_of (d_kv d') = (if k = 0 then map_of (d_kv d) else (map_of (d_kv d))(''k'' \<mapsto> ''v''))"
  using assms(1,2)
proof (induction k arbitrary: n w d)
  case 0
  then show ?case by auto
next
  case (Suc k)
  have n: "Suc n < 2 ^ 31" using Suc.prems(2) by simp
  from user_set [OF Suc.prems(1) n assms(3,4), of "''k''" fuel u "''v''"] obtain w1 d1 where
    s: "stub_set (Suc (Suc fuel)) (crash_net N D) u benchmark_address ''k'' ''v'' w = Some (w1, Status_OK)"
    and h: "healthy N S D (n + 2) w1 d1" and kv: "d_kv d1 = Set_KV ''k'' ''v'' (d_kv d)" by auto
  have "map_of (d_kv d1) = (map_of (d_kv d))(''k'' \<mapsto> ''v'')" by (auto simp: kv Set_KV_def)
  moreover have "n + 2 + 2 * k < 2 ^ 31" using Suc.prems(2) by simp
  note Suc.IH [OF h this]
  ultimately obtain w' d' where
    "benchmark_function (Suc (Suc fuel)) (crash_net N D) u k w1 = Some (Inr w')"
    "healthy N S D (n + 2 + 2 * k) w' d'" "map_of (d_kv d') = (map_of (d_kv d))(''k'' \<mapsto> ''v'')"
    by (auto split: if_splits)
  then show ?case by (intro exI [of _ w'] exI [of _ d']) (simp add: s reachConsensus_def)
qed

end
