(* ===== verification/Spec2Isabelle.thy ===== *)
theory Spec2Isabelle
  imports Properties_Paxos Properties_Service Properties_Node Properties_Concurrent Properties_Users
    Properties_Acceptor Properties_Program Benchmark
begin

text \<open>
  A verification of the replicated key-value database of this repository: a cluster of
  processes, each with a gRPC consensus service and a gRPC database service, that replicate
  a map with one instance of a Paxos-like protocol per key and round, and elect a leader
  with the same protocol.

  \<^bold>\<open>The program.\<close> \<open>src/src/entrypoint.cc\<close> starts a process, \<open>utility.cc\<close> parses its
  options, \<open>app.cc\<close> holds the state of a process (\<open>Cluster\<close>, \<open>Consensus\<close>, \<open>Database\<close>), the
  proposer \<open>AttemptConsensus\<close> and the start-up \<open>coordinate\<close>; \<open>rpc.cc\<close> holds the handlers of
  both services and the stubs that call them; \<open>declaration.h\<close> declares all of it and the
  \<open>.proto\<close> files the messages. A user's \<open>set\<close> reaches \<open>DatabaseRPC::set\<close> at some process,
  which runs \<open>AttemptConsensus\<close> when it is the leader and forwards to the leader otherwise;
  when the leader does not answer it elects itself with \<open>elect_leader\<close>, an attempt on the
  key \<open>leader\<close>. An attempt pings the members, proposes, asks for acceptance and announces
  success, with a quorum test after each of the first three phases; the handlers \<open>propose\<close>,
  \<open>accept\<close> and \<open>success\<close> write the log and, at the end, the store or the leader.

  \<^bold>\<open>Theories and code.\<close>
  \<^item> \<open>Prelude\<close>, \<open>Std_Map\<close>: C++ integers, decimal strings, \<open>std::map\<close> as a sorted association
    list with the interface locale \<open>finite_map\<close>.
  \<^item> \<open>Messages\<close>: the messages of both \<open>.proto\<close> files and \<open>grpc::Status\<close>.
  \<^item> \<open>Consensus_Log\<close>: \<open>Set_Log\<close> (three overloads), \<open>Get_Log\<close> (three), \<open>Find_Max_Proposal\<close>.
  \<^item> \<open>Database\<close>: \<open>Get_KV\<close>, \<open>Set_KV\<close>, \<open>Delete_KV\<close>, \<open>Get_DB\<close>; the recovery copy \<open>restore\<close>.
  \<^item> \<open>Process\<close>: \<open>Address\<close>, \<open>Config\<close>, \<open>Statistics\<close>, the state of one process as the record
    \<open>Process\<close> (the static members of \<open>Cluster\<close>, \<open>Statistics\<close>, \<open>Consensus::instance\<close> and
    \<open>Database::instance\<close>), and \<open>initializeStaticInstance\<close>.
  \<^item> \<open>Consensus_RPC\<close>: the handlers \<open>propose\<close>, \<open>accept\<close>, \<open>success\<close>, \<open>ping\<close>, \<open>get_leader\<close>,
    \<open>db_address_request\<close>, \<open>get_stats\<close> of \<open>ConsensusRPC\<close>, and the part of the process state
    they replicate, the record \<open>Data\<close>.
  \<^item> \<open>Transport\<close>: the stubs of \<open>ConsensusRPCWrapperCall\<close> over the parameter \<open>Net\<close>, which
    decides which process an address reaches and what becomes of each call.
  \<^item> \<open>Service\<close>: the interfaces \<open>handler\<close>, \<open>service\<close>, \<open>crash_service\<close> between the proposer
    and the acceptors, and the loops over the members.
  \<^item> \<open>Quorum\<close>, \<open>Paxos\<close>: the quorum test and \<open>AttemptConsensus\<close>, one definition per phase;
    \<open>elect_leader\<close>, \<open>trigger_election\<close>.
  \<^item> \<open>Paxos_Safety\<close>, \<open>Paxos_Agreement\<close>, \<open>Runs\<close>: what one attempt, and a sequence of them,
    achieves on any network. \<open>Paxos_Data\<close>: the attempt on the replicated data alone.
  \<^item> \<open>Database_RPC\<close>: \<open>DatabaseRPC::get\<close>, \<open>set\<close>, \<open>get_db\<close> and their stubs.
  \<^item> \<open>Coordinate\<close>, \<open>Startup\<close>: \<open>Consensus::coordinate\<close>, and a cluster that boots.
  \<^item> \<open>Interleaving\<close>: \<open>AttemptConsensus\<close> of several handler threads at once, one call of a phase
    at a time, as a step relation on the records \<open>Proposer\<close>. \<open>Concurrent\<close>, \<open>Isolation\<close>, \<open>Race\<close>:
    its invariant, what one attempt does while others take turns, and a race. \<open>Serial\<close>: attempts
    that overlap leave the data of a series of attempts.
  \<^item> \<open>Acceptor_Threads\<close>: \<open>propose\<close>, \<open>accept\<close> and \<open>success\<close> as threads: a \<open>Handling\<close> is a
    handler under way and \<open>handle\<close> runs it up to and including its next use of the log or the
    store. \<open>Acceptor_Spec\<close>: what an acceptor answers, as a function of the messages before
    (\<open>expected\<close>, \<open>chosen\<close>). \<open>Simulation\<close>: the locales \<open>simulation\<close> and \<open>forward_simulation\<close>.
  \<^item> \<open>Threads\<close>: \<open>DatabaseRPC::get\<close> and \<open>set\<close> as threads: an \<open>activation\<close> is a handler under way,
    a stack of them a request with the forwards that wait for it, and \<open>turn\<close> runs the innermost
    handler up to its next remote call. \<open>Clients\<close>: users that call the stubs at the same time,
    with the history of calls and returns, and the specification \<open>atomic_step\<close>.
    \<open>Linearizable\<close>, \<open>Answers\<close>: the simulation of the specification by the users of a healthy
    cluster, and the number of turns after which a request has returned. \<open>Eras\<close>: such users when
    processes crash between one crowd of requests and the next. \<open>Leader_Crash\<close>: the leader crashes
    while it serves them. \<open>Alone\<close>: a request that returns in its threads returns in the sequential
    code. \<open>Example_Users\<close>, \<open>Example_Crash\<close>: runs.
  \<^item> \<open>Options\<close>: \<open>validate\<close>, \<open>operator>>\<close>, \<open>concatenatePath\<close> and both \<open>parse_options\<close> of
    \<open>utility.cc\<close>, over a record of the functions of Boost.Program_options.
  \<^item> \<open>User_Commands\<close>: \<open>user_entrypoint\<close> with every command of it. \<open>Program\<close>: \<open>main\<close> and
    \<open>run_gRPC_server\<close>. \<open>Drivers\<close>: what the commands report on a healthy cluster.
  \<^item> \<open>Support\<close>: the disk helpers, the clock, paths and what \<open>Statistics\<close> and addresses print.
    \<open>Benchmark\<close>: the measured function of \<open>src/test/benchmark.cc\<close> and its loop.
  \<^item> \<open>Crash_Cluster\<close>, \<open>Cluster_Spec\<close>, \<open>History\<close>: a cluster in which processes only crash, the
    requests it serves, and its refinement of one map. \<open>Partition\<close>: a cluster cut in two.
  \<^item> \<open>Example_Cluster\<close>, \<open>Scenarios\<close>: concrete clusters, built by the start-up code of the
    model, and executions on them.
  \<^item> \<open>Properties_Paxos\<close>, \<open>Properties_Service\<close>, \<open>Properties_Node\<close>, \<open>Properties_Concurrent\<close>,
    \<open>Properties_Users\<close>, \<open>Properties_Acceptor\<close>, \<open>Properties_Program\<close> and this theory: the
    properties, each with an application at a concrete input.

  \<^bold>\<open>What the lemmas show.\<close> On any network: every attempt keeps the well-formedness of logs
  and stores, logs only grow, success needs acceptance by half of the members and reports a
  valid value, a failed attempt touches no store, an acceptor answers from the messages it has
  received and its log is a record of them (\<open>represents\<close>), a request alone returns in its threads
  exactly when and what the sequential stub returns, and in a cluster with an odd number of
  members a decided round stays decided. When processes only crash and half of the members
  stay alive: every attempt, election, \<open>get\<close> and \<open>set\<close> succeeds at every live process and the
  cluster implements one map, also from the moment it boots. Attempts that run at the same time
  leave each other alone when their keys differ, finish after a bounded number of turns, and
  in any interleaving the logs and stores hold only requested values, and the replicated data
  afterwards is that of running them in turn; for one key they can diverge. Users whose
  requests overlap, at any members and with forwards to the leader, see one atomic map as long
  as no two writes of one key overlap: the states of the threads and the world simulate the
  specification, a write taking effect with its message to the leader and a read with the
  look-up there; every request returns, and then the replicas agree again. They see one map also
  when processes crash, leaders included, while no request is under way and the next request is
  served alone. When the leader crashes in the middle of requests, every live store keeps what
  was acknowledged, the next request makes the process that serves it the leader of all live
  ones, and those that follow see one map again as
  long as they leave the keys of the cut writes alone: the invariant of the users is stated for
  a set \<open>K\<close> of keys, and the keys of the cut writes leave it (\<open>settled\<close>). A value that was only
  read can be lost then. Handlers of one acceptor that interleave at every use of the log and the store
  compute what whole handlers compute one after another, as long as no two are at work on one
  key; two handlers of \<open>success\<close> at one key do not. The test commands report what
  they are meant to check, options take their values from the command line, the file and the
  defaults in this order, and no argument of a user is missing or of another type. The
  properties near the end of the list are the behaviours where the code departs from Paxos or
  from a register; each is a theorem about a concrete execution or a class of them.

  \<^bold>\<open>Bounds.\<close> A forwarded request runs the same handler at the next process, so
  \<open>Database_get\<close> and \<open>Database_set\<close> take a bound on the chain of handlers; \<open>None\<close> means that
  the chain was longer. Two handlers are enough in a healthy cluster, where every process
  that is alive names the same leader (\<open>get_cluster\<close>, \<open>set_cluster\<close>), a larger bound never
  changes a result. Two processes that name each other forward a request for as long as every
  call is delivered (\<open>mutual_leaders_bounce\<close>); the code ends this only by the deadlines of 5
  seconds of its calls, which are fates here. The round
  of an attempt is a \<open>size_t\<close> converted to \<open>int\<close>: the conversion is written out and the
  properties assume fewer than \<open>2 ^ 31\<close> rounds where they need it. An attempt that takes turns
  with others has finished after \<open>4 n + 5\<close> turns of its own: one for the start, one for each
  call of the four loops over at most \<open>n\<close> nodes, one for each end of a loop. A request of a user
  needs five turns more: two handlers are entered, the attempt is left, the reply is passed on
  and received. The number of requests of a run is bounded by \<open>M\<close> with \<open>n + M \<le> 2 ^ 31\<close>, since
  each may add a round; an era adds at most \<open>M + 2\<close>, a crash amid requests \<open>2 M + 2\<close>. A handler of an acceptor answers after at most
  four turns.

  \<^bold>\<open>Not modelled.\<close> The gRPC runtime, the network and Boost are parameters. A deadline is one
  cause of the fate \<open>Lose\<close> of a call, whose caller goes on when the handler has ended; that it
  goes on while the handler still runs is shown for \<open>success\<close> only (\<open>delayed_success_overwrites\<close>).
  Mutexes are left
  out: they protect single accesses, and a read without its lock is taken to see a state
  between two accesses. A handler of an acceptor runs without interruption where
  \<open>AttemptConsensus\<close> or the handlers of the database are interleaved at their remote calls;
  \<open>Acceptor_Threads\<close> shows why this is right for handlers of different keys, and what it misses
  when a client gives up on a handler of \<open>success\<close> and goes on while it still runs.
  The leader is fixed while users overlap in \<open>Linearizable\<close>; it changes between them, with the
  first request after a crash (\<open>Eras\<close>, \<open>Leader_Crash\<close>), or with any request when they come one
  after another (\<open>History\<close>). A crash in the middle of requests cuts them: requests whose handlers
  run on at live processes while the leader is gone are not covered, because the elections they
  start race like any two attempts with one key; nor is a write to the key of a cut write, which
  may adopt the cut value (\<open>success_with_another_value\<close>). The threads of the two servers live as long as the
  process, so \<open>main\<close> ends in \<open>Serving\<close> with the two servers it started; a server that could
  not bind its address ends the process at a time that is left open. Creating the database directory is left out,
  since nothing is written to it, and so are help texts, colours and the benchmark library.
\<close>

section \<open>The cluster implements one map\<close>

text \<open>Claim C1: the cluster is one map. Start from a healthy cluster and let processes crash and a
  user send \<open>get\<close> and \<open>set\<close> to any database addresses, in any order. As long as half of the
  members are alive at the end, the reserved key is not written and the number of rounds stays
  in range, every call returns, and the outcomes are those of a single map: a reachable process
  answers a read with the last written value, a write takes effect at once, and a dead process
  is reported as unavailable. The cluster is healthy again afterwards and holds the map.\<close>

theorem cluster_implements_map:
  assumes "healthy N S D n w d" and "n + 2 * length es < 2 ^ 31"
    and "\<forall>e \<in> set es. event_ok N S e" and "card S \<le> 2 * card (S - (D \<union> crashes es))"
  shows "\<exists>D' w' d'. run (Suc (Suc fuel)) N u es (D, w) =
      Some ((D', w'), snd (spec_run N es (D, map_of (d_kv d)))) \<and>
    fst (spec_run N es (D, map_of (d_kv d))) = (D', map_of (d_kv d')) \<and>
    healthy N S D' (n + 2 * length es) w' d'"
proof -
  have "rel N S n (D, w) (D, map_of (d_kv d))" using assms(1) by (auto simp: rel_def)
  moreover have "finite S" using assms(1) by (simp add: healthy_def connected_def)
  ultimately obtain st where run: "run (Suc (Suc fuel)) N u es (D, w) =
      Some (st, snd (spec_run N es (D, map_of (d_kv d))))"
    and r: "rel N S (n + 2 * length es) st (fst (spec_run N es (D, map_of (d_kv d))))"
    using rel_run [of N S n "(D, w)" "(D, map_of (d_kv d))" es fuel u] assms(2-4) by auto
  from r obtain d' where "healthy N S (fst st) (n + 2 * length es) (snd st) d'"
    "fst (spec_run N es (D, map_of (d_kv d))) = (fst st, map_of (d_kv d'))"
    by (auto simp: rel_def prod_eq_iff)
  with run show ?thesis
    by (intro exI [of _ "fst st"] exI [of _ "snd st"] exI [of _ d']) simp
qed

definition ex_history :: "event list" where
  "ex_history = [Client_set ''h:1002'' ''k'' ''v'', Crash 0, Client_get ''h:1003'' ''k'',
     Client_get ''h:1001'' ''k'', Client_set ''h:1003'' ''k'' ''w'', Client_get ''h:1002'' ''k'']"

lemma ex_history_ok:
  "\<forall>e \<in> set ex_history. event_ok (ex_net 3) {0, 1, 2} e"
  "card {0, 1, 2 :: nat} \<le> 2 * card ({0, 1, 2} - ({} \<union> crashes ex_history))"
  by (simp_all add: ex_history_def)

lemma ex_history_spec:
  "snd (spec_run (ex_net 3) ex_history ({}, Map.empty)) =
    [Result Status_OK, Crashed, Value ''v'', Value ''RPC failed !'', Result Status_OK, Value ''w'']"
  by (simp add: ex_history_def serving_def)

theorem cluster_implements_map_witness:
  "\<exists>st. run (Suc (Suc 0)) (ex_net 3) 7 ex_history ({}, ex_world 3) =
    Some (st, [Result Status_OK, Crashed, Value ''v'', Value ''RPC failed !'', Result Status_OK,
      Value ''w''])"
proof -
  have "length ex_history = 6" by (simp add: ex_history_def)
  with cluster_implements_map [OF ex_healthy [of "{}"] _ ex_history_ok, of 0 7] ex_history_spec
  show ?thesis by (auto simp: ex_data_def)
qed

text \<open>Claim C2: a cluster that boots is one map. Initialise every process from the same addresses,
  start \<open>coordinate\<close> at the process with the leader flag and then at the others in any order,
  and let the user and the crashes run: every call returns and the outcomes are those of the
  initially empty map.\<close>

theorem booted_cluster_implements_map:
  assumes "started split cast as w" and "\<forall>a \<in> set as. tokenizes split cast a"
    and "listening N as" and "distinct as" and "length as < 2 ^ 31" and "l < length as"
    and "\<forall>i < length as. (flag_leader (flag (config (procs w i))) \<longleftrightarrow> i = l) \<and>
      pax_log (procs w i) = [] \<and> kv_store (procs w i) = []"
    and "set ps \<subseteq> {..<length as} - {l}" and "{..<length as} - {l} \<subseteq> set ps"
    and "2 * length es < 2 ^ 31" and "\<forall>e \<in> set es. event_ok N {..<length as} e"
    and "length as \<le> 2 * card ({..<length as} - crashes es)"
  shows "\<exists>w' st. coordinate_all (crash_net N {}) (l # ps) w = Some w' \<and>
    run (Suc (Suc fuel)) N u es ({}, w') = Some (st, snd (spec_run N es ({}, Map.empty)))"
proof -
  let ?S = "{..<length as}"
  from assms(6) have "as \<noteq> []" by auto
  with members_connected [of as w N] startup_knows [OF assms(1,2)] assms(3-5)
  have con: "connected N ?S w" by blast
  have "smap_ok (memberList (procs w i)) \<and> (flag_leader (flag (config (procs w i))) \<longleftrightarrow> i = l) \<and>
      data w i = blank_data ''''" if "i \<in> ?S" for i
    using that startup_knows [OF assms(1,2), of i] assms(7)
    by (simp add: knows_def smap_ok_insert_members data_of_def blank_data_def)
  with boot_leader [OF con, of l] assms(6) obtain w1 where
    w1: "coordinate (crash_net N {}) l w = Some w1" and b1: "booting N ?S l {l} w1" by auto
  from boot_all [OF b1 assms(8)] obtain w' where
    w': "coordinate_all (crash_net N {}) ps w1 = Some w'" and b: "booting N ?S l ({l} \<union> set ps) w'"
    by blast
  have "{l} \<union> set ps = ?S" using assms(6,8,9) by auto
  with b booted_healthy have h: "healthy N ?S {} 0 w' (blank_data (self_address (procs w' l)))"
    by metis
  then have "rel N ?S 0 ({}, w') ({}, Map.empty)"
    unfolding rel_def by (intro conjI exI [of _ "blank_data (self_address (procs w' l))"]) simp_all
  from rel_run [OF this, of es fuel u] assms(10-12) obtain st where
    "run (Suc (Suc fuel)) N u es ({}, w') = Some (st, snd (spec_run N es ({}, Map.empty)))" by auto
  with w1 w' show ?thesis by auto
qed

theorem booted_cluster_implements_map_witness:
  "\<exists>w' st. coordinate_all (crash_net (ex_net 3) {}) [0, 2, 1] (ex_boot 3) = Some w' \<and>
    run (Suc (Suc 0)) (ex_net 3) 7 ex_history ({}, w') =
      Some (st, [Result Status_OK, Crashed, Value ''v'', Value ''RPC failed !'', Result Status_OK,
        Value ''w''])"
proof -
  have "length ex_history = 6" by (simp add: ex_history_def)
  moreover have "{..<3} - {0} = {1, 2 :: nat}" by auto
  ultimately show ?thesis
    using booted_cluster_implements_map [OF ex_started ex_tokenizes ex_listening ex_distinct_addresses,
        of 0 "[2, 1]" ex_history 0 7] ex_history_ok
    by (simp add: ex_boot_simps lessThan3 ex_history_spec)
qed

end
